(* ===== verification/Fm_Prelude.thy ===== *)
theory Fm_Prelude
  imports Complex_Main "HOL-Library.Word"
begin

unbundle bit_operations_syntax

text \<open>
  Shared vocabulary of the development: the machine types of the C++ sources, the
  outcomes of an operation that may abort, the byte-addressed local memory and the
  frame lemmas about it, and the lemma collections the other theories extend.
\<close>

section \<open>Machine types\<close>

type_synonym u8 = "8 word"
type_synonym u16 = "16 word"
type_synonym u32 = "32 word"
type_synonym u64 = "64 word"

type_synonym addr = u64 \<comment> \<open>an address of the runtime's memory\<close>

section \<open>Lemma collections\<close>

named_theorems frame_simps \<open>what an operation leaves unchanged\<close>
named_theorems mem_simps \<open>reading back what was written to memory\<close>

section \<open>Outcomes\<close>

text \<open>
  \<open>Bug_On\<close>: a \<^verbatim>\<open>BUG_ON\<close> check failed; \<open>Exit_ENOSPC\<close>: the process left with
  \<^verbatim>\<open>exit(-ENOSPC)\<close>; \<open>Undefined\<close>: the C++ standard gives the call no meaning
  (\<^verbatim>\<open>front()\<close> or \<^verbatim>\<open>pop()\<close> of an empty queue); \<open>Bad_Alloc\<close>: \<^verbatim>\<open>new\<close> has thrown;
  \<open>Out_Of_Range\<close>: \<^verbatim>\<open>at\<close> of a vector has.
\<close>

datatype fm_error = Bug_On | Exit_ENOSPC | Undefined | Bad_Alloc | Out_Of_Range

text \<open>
  An operation that may also fail to return has the type \<open>(fm_error + 'a) option\<close>,
  where \<open>None\<close> says that it never returns. Sequencing passes errors and divergence on.
\<close>

definition and_then :: "(fm_error + 'a) option \<Rightarrow> ('a \<Rightarrow> (fm_error + 'b) option) \<Rightarrow> (fm_error + 'b) option" where
  "and_then m f = (case m of None \<Rightarrow> None | Some (Inl e) \<Rightarrow> Some (Inl e) | Some (Inr x) \<Rightarrow> f x)"

lemma and_then_simps [simp]:
  "and_then None f = None"
  "and_then (Some (Inl e)) f = Some (Inl e)"
  "and_then (Some (Inr x)) f = f x"
  by (simp_all add: and_then_def)

lemma and_then_Some_Inr:
  "and_then m f = Some (Inr y) \<longleftrightarrow> (\<exists>x. m = Some (Inr x) \<and> f x = Some (Inr y))"
  by (auto simp: and_then_def split: option.splits sum.splits)

lemma and_then_mono [partial_function_mono]:
  fixes B :: "('x \<Rightarrow> 'y option) \<Rightarrow> (fm_error + 'a) option"
  assumes "mono_option B" and "\<And>y. mono_option (\<lambda>f. C y f)"
  shows "mono_option (\<lambda>f. and_then (B f) (\<lambda>y. C y f))"
proof (rule monotoneI)
  fix f g :: "'x \<Rightarrow> 'y option"
  assume fg: "fun_ord option_ord f g"
  have "option_ord (B f) (B g)" using assms(1) fg by (rule monotoneD [of _ _ _ f g])
  moreover have "option_ord (C y f) (C y g)" for y using assms(2) fg by (rule monotoneD [of _ _ _ f g])
  ultimately show "option_ord (and_then (B f) (\<lambda>y. C y f)) (and_then (B g) (\<lambda>y. C y g))"
    unfolding flat_ord_def and_then_def by (cases "B f"; cases "B g"; force split: sum.split)
qed

section \<open>Local memory\<close>

type_synonym heap = "addr \<Rightarrow> u8"

definition rd_bytes :: "heap \<Rightarrow> addr \<Rightarrow> nat \<Rightarrow> u8 list" where
  "rd_bytes h a n = map (\<lambda>i. h (a + of_nat i)) [0..<n]"

definition wr_bytes :: "heap \<Rightarrow> addr \<Rightarrow> u8 list \<Rightarrow> heap" where
  "wr_bytes h a bs = (\<lambda>x. if unat (x - a) < length bs then bs ! unat (x - a) else h x)"

text \<open>\<^verbatim>\<open>memcpy\<close> of ranges that do not overlap.\<close>

definition memcpy :: "heap \<Rightarrow> addr \<Rightarrow> addr \<Rightarrow> nat \<Rightarrow> heap" where
  "memcpy h dst src n = wr_bytes h dst (rd_bytes h src n)"

text \<open>The 8 bytes at an address as a little-endian \<^verbatim>\<open>uint64_t\<close>, and its bytes.\<close>

definition u64_bytes :: "u64 \<Rightarrow> u8 list" where
  "u64_bytes x = map (\<lambda>i. ucast (drop_bit (8 * i) x)) [0..<8]"

definition u64_of_bytes :: "u8 list \<Rightarrow> u64" where
  "u64_of_bytes bs = foldr (\<lambda>b acc. ucast b OR push_bit 8 acc) bs 0"

definition rd_u64 :: "heap \<Rightarrow> addr \<Rightarrow> u64" where
  "rd_u64 h a = u64_of_bytes (rd_bytes h a 8)"

text \<open>\<open>outside a n x\<close>: the address \<open>x\<close> is not one of the \<open>n\<close> bytes from \<open>a\<close>.\<close>

definition outside :: "addr \<Rightarrow> nat \<Rightarrow> addr \<Rightarrow> bool" where
  "outside a n x \<longleftrightarrow> n \<le> unat (x - a)"

definition disjoint_ranges :: "addr \<Rightarrow> nat \<Rightarrow> addr \<Rightarrow> nat \<Rightarrow> bool" where
  "disjoint_ranges a n b m \<longleftrightarrow> (\<forall>i<n. outside b m (a + of_nat i))"

lemma length_rd_bytes [simp]: "length (rd_bytes h a n) = n"
  by (simp add: rd_bytes_def)

lemma take_rd_bytes: "k \<le> n \<Longrightarrow> take k (rd_bytes h a n) = rd_bytes h a k"
  by (simp add: rd_bytes_def take_map)

lemma length_u64_bytes [simp]: "length (u64_bytes x) = 8"
  by (simp add: u64_bytes_def)

lemma bit_u64_of_bytes:
  "n < 64 \<Longrightarrow> bit (u64_of_bytes bs) n \<longleftrightarrow> n div 8 < length bs \<and> bit (bs ! (n div 8)) (n mod 8)"
proof (induction bs arbitrary: n)
  case Nil
  then show ?case by (simp add: u64_of_bytes_def)
next
  case (Cons b bs)
  have step: "u64_of_bytes (b # bs) = ucast b OR push_bit 8 (u64_of_bytes bs)"
    by (simp add: u64_of_bytes_def)
  show ?case
  proof (cases "n < 8")
    case True
    then show ?thesis by (simp add: step bit_or_iff bit_ucast_iff bit_push_bit_iff)
  next
    case False
    then obtain m where m: "n = m + 8" by (metis add.commute le_Suc_ex not_less)
    have "\<not> bit b n"
      using False bit_imp_le_length [of b n] by auto
    then show ?thesis
      using Cons.IH [of m] Cons.prems by (simp add: m step bit_or_iff bit_ucast_iff bit_push_bit_iff)
  qed
qed

lemma u64_of_bytes_inverse [simp]: "u64_of_bytes (u64_bytes x) = x"
proof (rule bit_word_eqI)
  fix n
  assume n: "n < LENGTH(64)"
  then have "n div 8 < 8" by simp
  with n show "bit (u64_of_bytes (u64_bytes x)) n = bit x n"
    by (simp add: bit_u64_of_bytes u64_bytes_def bit_ucast_iff bit_drop_bit_eq)
qed

lemma u64_bytes_eq [simp]: "u64_bytes x = u64_bytes y \<longleftrightarrow> x = y"
  by (metis u64_of_bytes_inverse)

lemma unat_of_nat_u64: "i < 2 ^ 64 \<Longrightarrow> unat (of_nat i :: u64) = i"
  by (simp add: unat_of_nat take_bit_nat_eq_self)

lemma unat_u64_less: "unat (x :: u64) < 2 ^ 64"
  using unsigned_less [of x] by simp

lemma unat_u16_less: "unat (x :: u16) < 2 ^ 16"
  using unsigned_less [of x] by simp

lemma unat_of_nat_u16: "i < 2 ^ 16 \<Longrightarrow> unat (of_nat i :: u16) = i"
  by (simp add: unat_of_nat take_bit_nat_eq_self)

lemma rd_wr_same [mem_simps]:
  "n = length bs \<Longrightarrow> n \<le> 2 ^ 64 \<Longrightarrow> rd_bytes (wr_bytes h a bs) a n = bs"
  by (rule nth_equalityI) (auto simp: rd_bytes_def wr_bytes_def unat_of_nat_u64)

lemma rd_wr_disjoint [mem_simps]:
  "disjoint_ranges a n b (length bs) \<Longrightarrow> rd_bytes (wr_bytes h b bs) a n = rd_bytes h a n"
  by (auto simp: rd_bytes_def wr_bytes_def disjoint_ranges_def outside_def not_less [symmetric])

lemma wr_bytes_outside [mem_simps]: "outside a (length bs) x \<Longrightarrow> wr_bytes h a bs x = h x"
  by (simp add: wr_bytes_def outside_def)

lemma outside_sub:
  assumes "outside a n x" and "k + m \<le> n"
  shows "outside (a + of_nat k) m x"
proof -
  have k: "k \<le> unat (x - a)" using assms by (simp add: outside_def)
  then have "of_nat k \<le> x - a" by (simp add: word_le_nat_alt le_unat_uoi)
  then have "unat ((x - a) - of_nat k) = unat (x - a) - unat (of_nat k :: u64)" by (rule unat_sub)
  moreover have "unat (of_nat k :: u64) = k" using k unat_u64_less [of "x - a"] by (intro unat_of_nat_u64) simp
  ultimately show ?thesis using assms by (simp add: outside_def diff_diff_eq)
qed

lemma rd_bytes_cong:
  "(\<And>i. i < n \<Longrightarrow> h (a + of_nat i) = h' (a + of_nat i)) \<Longrightarrow> rd_bytes h a n = rd_bytes h' a n"
  by (simp add: rd_bytes_def)

lemma rd_u64_bytes: "rd_bytes h a 8 = u64_bytes x \<Longrightarrow> rd_u64 h a = x"
  by (simp add: rd_u64_def)

section \<open>Lists\<close>

lemma find_append: "find P (xs @ ys) = (case find P xs of None \<Rightarrow> find P ys | Some x \<Rightarrow> Some x)"
  by (induction xs) auto

lemma find_take_singleton: "\<not> P x \<Longrightarrow> find P (take n [x]) = None"
  by (cases n) auto

end
