(* ===== verification/Fm_Double.thy ===== *)
theory Fm_Double
  imports Fm_Prelude "HOL-Library.Log_Nat"
begin

text \<open>
  IEEE 754 binary64 arithmetic as the sources use it: conversion of a \<^verbatim>\<open>uint64_t\<close>,
  one multiplication or division, \<^verbatim>\<open>ceil\<close> and the conversion back. A finite double is
  the rational number it denotes; every operation rounds its exact result to the nearest
  representable number, ties to even. Infinities and NaN do not occur at the call sites.
\<close>

section \<open>Powers of two and binary exponents\<close>

type_synonym double = rat

definition exp2 :: "int \<Rightarrow> rat" where
  "exp2 k = (if 0 \<le> k then 2 ^ nat k else 1 / 2 ^ nat (- k))"

lemma exp2_eq_power_int: "exp2 k = 2 powi k"
  by (simp add: exp2_def power_int_def field_simps)

lemma exp2_pos [simp]: "0 < exp2 k"
  by (simp add: exp2_eq_power_int)

lemma exp2_nonzero [simp]: "exp2 k \<noteq> 0"
  using exp2_pos [of k] by linarith

lemma exp2_add: "exp2 (k + l) = exp2 k * exp2 l"
  by (simp add: exp2_eq_power_int power_int_add)

lemma exp2_mono: "k \<le> l \<Longrightarrow> exp2 k \<le> exp2 l"
  by (simp add: exp2_eq_power_int power_int_increasing)

lemma exp2_strict_mono_iff: "exp2 k < exp2 l \<longleftrightarrow> k < l"
  by (metis exp2_eq_power_int exp2_mono leD linorder_not_less power_int_strict_increasing one_less_numeral_iff semiring_norm(76))

lemma exp2_nat: "exp2 (int n) = 2 ^ n"
  by (simp add: exp2_def)

lemma exp2_int: "0 \<le> k \<Longrightarrow> exp2 k = of_int (2 ^ nat k)"
  by (simp add: exp2_def)

text \<open>\<open>binexp r\<close> is the exponent of the leading binary digit of \<open>r > 0\<close>.\<close>

definition binexp :: "rat \<Rightarrow> int" where
  "binexp r =
     (let (p, q) = quotient_of r; k = int (floorlog 2 (nat p)) - int (floorlog 2 (nat q))
      in if exp2 k \<le> r then k else k - 1)"

lemma nat_binary_bounds:
  "0 < n \<Longrightarrow> exp2 (int (floorlog 2 n) - 1) \<le> of_nat n \<and> of_nat n < exp2 (int (floorlog 2 n))"
proof -
  assume n: "0 < n"
  then have b: "2 ^ (floorlog 2 n - 1) \<le> n" "n < 2 ^ floorlog 2 n"
    using floorlog_bounds [of n 2] by auto
  have "0 < floorlog 2 n" using n by (simp add: floorlog_def)
  then have "int (floorlog 2 n) - 1 = int (floorlog 2 n - 1)" by simp
  with b show ?thesis
    by (metis exp2_nat of_nat_le_iff of_nat_less_iff of_nat_numeral of_nat_power)
qed

lemma binexp_bounds:
  assumes "0 < r"
  shows "exp2 (binexp r) \<le> r" and "r < exp2 (binexp r + 1)"
proof -
  obtain p q where pq: "quotient_of r = (p, q)" by fastforce
  have r: "r = of_int p / of_int q" by (rule quotient_of_div [OF pq])
  have q: "0 < q" by (rule quotient_of_denom_pos [OF pq])
  have p: "0 < p" using assms q by (simp add: r zero_less_divide_iff)
  define a where "a = int (floorlog 2 (nat p))"
  define b where "b = int (floorlog 2 (nat q))"
  have P: "exp2 (a - 1) \<le> of_int p" "of_int p < exp2 a"
    using nat_binary_bounds [of "nat p"] p by (auto simp: a_def of_nat_nat)
  have Q: "exp2 (b - 1) \<le> of_int q" "of_int q < exp2 b"
    using nat_binary_bounds [of "nat q"] q by (auto simp: b_def of_nat_nat)
  have q': "0 < (of_int q :: rat)" using q by simp
  have "exp2 (a - 1) / exp2 b < r"
  proof -
    have "exp2 (a - 1) / exp2 b < exp2 (a - 1) / of_int q"
      using Q q' by (simp add: divide_strict_left_mono)
    also have "\<dots> \<le> r" using P q' by (simp add: r divide_right_mono)
    finally show ?thesis .
  qed
  then have lo: "exp2 (a - b - 1) < r"
    by (simp add: exp2_eq_power_int power_int_diff)
  have "r < exp2 a / exp2 (b - 1)"
  proof -
    have "r < exp2 a / of_int q" using P q' by (simp add: r divide_strict_right_mono)
    also have "\<dots> \<le> exp2 a / exp2 (b - 1)" using Q q' by (intro divide_left_mono) (auto simp: less_imp_le)
    finally show ?thesis .
  qed
  then have hi: "r < exp2 (a - b + 1)"
    by (simp add: exp2_eq_power_int power_int_diff power_int_add)
  have "binexp r = (if exp2 (a - b) \<le> r then a - b else a - b - 1)"
    by (simp add: binexp_def pq a_def b_def Let_def)
  then show "exp2 (binexp r) \<le> r" and "r < exp2 (binexp r + 1)"
    using lo hi by (auto split: if_splits)
qed

lemma binexp_unique:
  assumes "exp2 k \<le> r" and "r < exp2 (k + 1)"
  shows "binexp r = k"
proof -
  have "0 < r" using assms(1) exp2_pos [of k] by linarith
  note b = binexp_bounds [OF this]
  have "exp2 k < exp2 (binexp r + 1)" "exp2 (binexp r) < exp2 (k + 1)"
    using assms b by linarith+
  then show ?thesis by (simp add: exp2_strict_mono_iff)
qed

section \<open>Rounding\<close>

definition round_half_even :: "rat \<Rightarrow> int" where
  "round_half_even x =
     (let n = \<lfloor>x\<rfloor>; d = x - of_int n
      in if d < 1 / 2 then n else if 1 / 2 < d then n + 1 else if even n then n else n + 1)"

lemma round_half_even_err: "\<bar>of_int (round_half_even x) - x\<bar> \<le> 1 / 2"
proof -
  have "of_int \<lfloor>x\<rfloor> \<le> x" "x < of_int \<lfloor>x\<rfloor> + 1" by linarith+
  then show ?thesis by (auto simp: round_half_even_def Let_def abs_le_iff)
qed

lemma round_half_even_of_int [simp]: "round_half_even (of_int n) = n"
  by (simp add: round_half_even_def)

lemma round_half_even_eqI:
  assumes "of_int n - 1 / 2 < x" and "x < of_int n + 1 / 2"
  shows "round_half_even x = n"
proof (cases "of_int n \<le> x")
  case True
  then have "\<lfloor>x\<rfloor> = n" using assms by (intro floor_unique) auto
  then show ?thesis using assms by (simp add: round_half_even_def)
next
  case False
  then have "\<lfloor>x\<rfloor> = n - 1" using assms by (intro floor_unique) auto
  then show ?thesis using assms by (simp add: round_half_even_def)
qed

text \<open>
  The distance of neighbouring doubles around \<open>r\<close> is \<open>2 ^ (binexp r - 52)\<close>, and
  \<open>2 ^ -1074\<close> among the subnormal numbers.
\<close>

definition ulp_exp :: "rat \<Rightarrow> int" where
  "ulp_exp r = max (binexp r - 52) (- 1074)"

definition fl_pos :: "rat \<Rightarrow> double" where
  "fl_pos r = of_int (round_half_even (r / exp2 (ulp_exp r))) * exp2 (ulp_exp r)"

definition fl :: "rat \<Rightarrow> double" where
  "fl r = (if r = 0 then 0 else if r < 0 then - fl_pos (- r) else fl_pos r)"

lemma fl_err:
  assumes "exp2 (- 1022) \<le> r"
  shows "\<bar>fl r - r\<bar> \<le> r / 2 ^ 53"
proof -
  have r: "0 < r" using assms exp2_pos [of "- 1022"] by linarith
  note b = binexp_bounds [OF r]
  have "exp2 (- 1022) < exp2 (binexp r + 1)" using assms b by linarith
  then have k: "ulp_exp r = binexp r - 52" by (simp add: exp2_strict_mono_iff ulp_exp_def)
  define u where "u = exp2 (ulp_exp r)"
  have u: "0 < u" by (simp add: u_def)
  have "\<bar>fl r - r\<bar> = \<bar>of_int (round_half_even (r / u)) - r / u\<bar> * u"
  proof -
    have "fl r - r = (of_int (round_half_even (r / u)) - r / u) * u"
      using r u by (simp add: fl_def fl_pos_def u_def [symmetric] algebra_simps)
    then show ?thesis using u by (simp add: abs_mult)
  qed
  also have "\<dots> \<le> 1 / 2 * u"
    using round_half_even_err [of "r / u"] u by (intro mult_right_mono) auto
  also have "\<dots> \<le> r / 2 ^ 53"
  proof -
    have "u * 2 ^ 52 = exp2 (binexp r)"
      by (simp add: u_def k exp2_nat [symmetric] exp2_add [symmetric] del: power_numeral)
    then have "u * 2 ^ 52 \<le> r" using b by simp
    then show ?thesis by simp
  qed
  finally show ?thesis .
qed

text \<open>Integers of at most 53 bits are doubles.\<close>

lemma fl_of_int:
  assumes "0 \<le> n" and "n \<le> 2 ^ 53"
  shows "fl (of_int n) = of_int n"
proof (cases "n = 0")
  case False
  then have n: "0 < (of_int n :: rat)" using assms by simp
  note b = binexp_bounds [OF n]
  have "(of_int n :: rat) \<le> of_int (2 ^ 53)" using assms(2) by (simp only: of_int_le_iff)
  then have hi: "of_int n \<le> exp2 53" by (simp add: exp2_def)
  have "exp2 (binexp (of_int n)) < exp2 54"
    using b hi exp2_strict_mono_iff [of 53 54] by linarith
  then have k54: "binexp (of_int n) < 54" by (simp add: exp2_strict_mono_iff)
  have "exp2 0 \<le> of_int n" using n by (simp add: exp2_def)
  then have "exp2 0 < exp2 (binexp (of_int n) + 1)" using b by linarith
  then have k0: "0 \<le> binexp (of_int n)" by (simp add: exp2_strict_mono_iff)
  define e where "e = ulp_exp (of_int n)"
  have e: "e = binexp (of_int n) - 52" using k0 by (simp add: e_def ulp_exp_def)
  have fl: "fl (of_int n) = of_int (round_half_even (of_int n / exp2 e)) * exp2 e"
    using n by (simp add: fl_def fl_pos_def e_def)
  show ?thesis
  proof (cases "e \<le> 0")
    case True
    have "of_int n / exp2 e = of_int (n * 2 ^ nat (- e))"
      using True by (auto simp: exp2_def)
    then show ?thesis using fl by (metis exp2_nonzero nonzero_divide_eq_eq round_half_even_of_int)
  next
    case False
    then have "binexp (of_int n) = 53" using k54 e by simp
    with b hi have "of_int n = exp2 53" by simp
    then have "of_int n / exp2 e = of_int (2 ^ 52)"
      using e \<open>binexp (of_int n) = 53\<close> by (simp add: exp2_def)
    then show ?thesis using fl by (metis exp2_nonzero nonzero_divide_eq_eq round_half_even_of_int)
  qed
qed (simp add: fl_def)

lemma fl_eqI:
  assumes "exp2 k \<le> r" and "r < exp2 (k + 1)" and "- 1022 \<le> k"
  shows "fl r = of_int (round_half_even (r / exp2 (k - 52))) * exp2 (k - 52)"
proof -
  have "0 < r" using assms(1) exp2_pos [of k] by linarith
  moreover have "ulp_exp r = k - 52"
    using binexp_unique [OF assms(1,2)] assms(3) by (simp add: ulp_exp_def)
  ultimately show ?thesis by (simp add: fl_def fl_pos_def)
qed

text \<open>Scaling by a power of two is exact among the normal numbers.\<close>

lemma fl_scale:
  assumes "0 < r" and "- 1022 \<le> binexp r" and "- 1022 \<le> binexp r - k"
  shows "fl (r / exp2 k) = fl r / exp2 k"
proof -
  note b = binexp_bounds [OF assms(1)]
  have shift: "exp2 (a - k) = exp2 a / exp2 k" for a
    by (simp add: exp2_eq_power_int power_int_diff)
  have "exp2 (binexp r - k) \<le> r / exp2 k"
    using b by (simp add: shift divide_right_mono less_imp_le)
  moreover have "r / exp2 k < exp2 (binexp r - k + 1)"
    using b shift [of "binexp r + 1"] by (simp add: divide_strict_right_mono algebra_simps)
  ultimately have "fl (r / exp2 k) = of_int (round_half_even (r / exp2 k / exp2 (binexp r - k - 52))) * exp2 (binexp r - k - 52)"
    using assms(3) by (rule fl_eqI)
  moreover have "exp2 (binexp r - k - 52) = exp2 (binexp r - 52) / exp2 k"
    using shift [of "binexp r - 52"] by (simp add: algebra_simps)
  moreover have "fl r = of_int (round_half_even (r / exp2 (binexp r - 52))) * exp2 (binexp r - 52)"
    using b assms(2) by (rule fl_eqI)
  ultimately show ?thesis by simp
qed

lemma fl_of_int_div_1024:
  assumes "0 \<le> n" and "n \<le> 2 ^ 53"
  shows "fl (of_int n / 1024) = of_int n / 1024"
proof (cases "n = 0")
  case False
  then have n: "0 < (of_int n :: rat)" and "exp2 0 \<le> of_int n" using assms by (simp_all add: exp2_def)
  then have "exp2 0 < exp2 (binexp (of_int n) + 1)" using binexp_bounds [OF n] by linarith
  then have "0 \<le> binexp (of_int n)" by (simp add: exp2_strict_mono_iff)
  then have "fl (of_int n / exp2 10) = fl (of_int n) / exp2 10" using n by (intro fl_scale) auto
  then show ?thesis using fl_of_int [OF assms] by (simp add: exp2_def)
qed (simp add: fl_def)

section \<open>Conversions\<close>

definition u64_to_double :: "u64 \<Rightarrow> double" where
  "u64_to_double x = fl (of_int (uint x))"

definition double_mult :: "double \<Rightarrow> double \<Rightarrow> double" where
  "double_mult a b = fl (a * b)"

definition double_div :: "double \<Rightarrow> double \<Rightarrow> double" where
  "double_div a b = fl (a / b)"

definition double_sub :: "double \<Rightarrow> double \<Rightarrow> double" where
  "double_sub a b = fl (a - b)"

definition double_ceil :: "double \<Rightarrow> double" where
  "double_ceil a = of_int \<lceil>a\<rceil>"

text \<open>Conversion of a double back to an unsigned integer drops the fraction.\<close>

definition double_to_u64 :: "double \<Rightarrow> u64" where
  "double_to_u64 a = word_of_int \<lfloor>a\<rfloor>"

definition double_to_u32 :: "double \<Rightarrow> u32" where
  "double_to_u32 a = word_of_int \<lfloor>a\<rfloor>"

lemma u64_to_double_exact: "x \<le> 2 ^ 53 \<Longrightarrow> u64_to_double x = of_int (uint x)"
  unfolding u64_to_double_def by (rule fl_of_int) (simp_all add: word_le_def)

text \<open>The literal \<^verbatim>\<open>0.1\<close> is the double nearest to one tenth.\<close>

definition one_tenth :: double where
  "one_tenth = fl (1 / 10)"

lemma one_tenth_value: "one_tenth = 3602879701896397 / 36028797018963968"
proof -
  have "one_tenth = of_int (round_half_even (1 / 10 / exp2 (- 4 - 52))) * exp2 (- 4 - 52)"
    unfolding one_tenth_def by (rule fl_eqI) (simp_all add: exp2_def)
  moreover have "round_half_even (1 / 10 / exp2 (- 4 - 52)) = 7205759403792794"
    by (rule round_half_even_eqI) (simp_all add: exp2_def)
  ultimately show ?thesis by (simp add: exp2_def)
qed

end
