(* ===== verification/DSwap_Pager.thy ===== *)
theory DSwap_Pager
  imports Fm_Double "HOL-Library.Sublist"
begin

text \<open>
  The DynamicSwap pager (\<^verbatim>\<open>src/dswap.cpp\<close>, \<^verbatim>\<open>inc/dswap.hpp\<close>): the registry of far objects,
  the pager thread that swaps absent objects in, the memory thread that recomputes the
  free cache bytes, and their interleaving under the registry's mutex.
  A far pointer's presence test and \<^verbatim>\<open>swap_in\<close> are reached through
  \<open>far_ops\<close>; the manager's own \<^verbatim>\<open>swap_in\<close> provides them in the theory of the manager.
\<close>

section \<open>State of the module\<close>

record ObjRef =
  obj_size :: u64
  obj_ptr :: addr

definition ObjRef_new :: "addr \<Rightarrow> u64 \<Rightarrow> ObjRef" where
  "ObjRef_new ptr sz = \<lparr>obj_size = sz, obj_ptr = ptr\<rparr>"

text \<open>Who can hold \<^verbatim>\<open>object_addrs_mut\<close>: the two daemons and any registering thread.\<close>

datatype owner = Pager | Memory | Registrar nat

record dswap =
  cache_size :: u64
  object_addrs_mut :: "owner option"
  object_refs :: "ObjRef list"
  object_addrs :: "addr list"
  dynamic_manager_running :: bool
  available_mem :: u64
  swap_threshold :: u64

definition dswap_static :: dswap where
  "dswap_static = \<lparr>cache_size = 0, object_addrs_mut = None, object_refs = [], object_addrs = [],
     dynamic_manager_running = False, available_mem = 0, swap_threshold = 0\<rparr>"

definition mut_lock :: "owner \<Rightarrow> dswap \<Rightarrow> dswap option" where
  "mut_lock t st = (if object_addrs_mut st = None then Some (st\<lparr>object_addrs_mut := Some t\<rparr>) else None)"

definition mut_unlock :: "dswap \<Rightarrow> dswap" where
  "mut_unlock st = st\<lparr>object_addrs_mut := None\<rparr>"

section \<open>Registration\<close>

definition push_ref :: "addr \<Rightarrow> u64 \<Rightarrow> dswap \<Rightarrow> dswap" where
  "push_ref ptr sz st = st\<lparr>object_refs := object_refs st @ [ObjRef_new ptr sz]\<rparr>"

definition push_addr :: "addr \<Rightarrow> dswap \<Rightarrow> dswap" where
  "push_addr ptr st = st\<lparr>object_addrs := object_addrs st @ [ptr]\<rparr>"

text \<open>The result is the returned \<^verbatim>\<open>int\<close> and the state; \<open>None\<close> while the mutex is taken.\<close>

definition register_object :: "owner \<Rightarrow> addr \<Rightarrow> u64 \<Rightarrow> dswap \<Rightarrow> (int \<times> dswap) option" where
  "register_object t ptr sz st =
     map_option (\<lambda>st. (0, mut_unlock (push_addr ptr (push_ref ptr sz st)))) (mut_lock t st)"

section \<open>Start and stop\<close>

definition threshold_of :: "u64 \<Rightarrow> u64" where
  "threshold_of c = double_to_u64 (double_ceil (double_mult (u64_to_double c) one_tenth))"

definition init_dynamic_pager :: "u64 \<Rightarrow> dswap \<Rightarrow> dswap" where
  "init_dynamic_pager c_size st =
     (let st = st\<lparr>dynamic_manager_running := True\<rparr>;
          st = st\<lparr>cache_size := c_size\<rparr>
      in st\<lparr>swap_threshold := threshold_of (cache_size st)\<rparr>)"

definition stop_dynamic_pager :: "dswap \<Rightarrow> dswap" where
  "stop_dynamic_pager st = st\<lparr>dynamic_manager_running := False\<rparr>"

section \<open>The daemons' passes\<close>

text \<open>
  Far pointers as the daemons use them: \<^verbatim>\<open>ptr->meta().is_present()\<close> and
  \<^verbatim>\<open>ptr->swap_in(nt)\<close> over the far memory's state.
\<close>

record 's far_ops =
  fo_is_present :: "addr \<Rightarrow> 's \<Rightarrow> bool"
  fo_swap_in :: "bool \<Rightarrow> addr \<Rightarrow> 's \<Rightarrow> (fm_error + 's) option"

fun pager_scan :: "'s far_ops \<Rightarrow> dswap \<Rightarrow> ObjRef list \<Rightarrow> 's \<Rightarrow> (fm_error + 's) option" where
  "pager_scan F st [] s = Some (Inr s)"
| "pager_scan F st (r # rs) s =
     (if available_mem st < swap_threshold st then Some (Inr s)
      else if fo_is_present F (obj_ptr r) s then pager_scan F st rs s
      else and_then (fo_swap_in F False (obj_ptr r) s) (pager_scan F st rs))"

definition dynamic_pager_pass :: "'s far_ops \<Rightarrow> dswap \<Rightarrow> 's \<Rightarrow> (fm_error + 's) option" where
  "dynamic_pager_pass F st s = pager_scan F st (object_refs st) s"

fun memory_scan :: "'s far_ops \<Rightarrow> 's \<Rightarrow> ObjRef list \<Rightarrow> u64 \<Rightarrow> u64" where
  "memory_scan F s [] tot = tot"
| "memory_scan F s (r # rs) tot =
     (if \<not> fo_is_present F (obj_ptr r) s then memory_scan F s rs tot
      else memory_scan F s rs (tot + obj_size r))"

definition dynamic_memory_pass :: "'s far_ops \<Rightarrow> 's \<Rightarrow> dswap \<Rightarrow> dswap" where
  "dynamic_memory_pass F s st =
     (let tot = memory_scan F s (object_refs st) 0
      in st\<lparr>available_mem := cache_size st - tot\<rparr>)"

lemmas dswap_defs = mut_lock_def mut_unlock_def push_ref_def push_addr_def
  init_dynamic_pager_def stop_dynamic_pager_def ObjRef_new_def Let_def


section \<open>The swap threshold\<close>

lemma tenth_of_multiple:
  assumes "0 < k" and "k < 2 ^ 49"
  shows "double_mult (of_int (10 * k)) one_tenth = of_int k"
proof -
  define r where "r = of_int k + of_int k / (18014398509481984 :: rat)"
  have r: "of_int (10 * k) * one_tenth = r"
    by (simp add: one_tenth_value r_def field_simps)
  have kpos: "0 < (of_int k :: rat)" and k1: "1 \<le> (of_int k :: rat)" using assms by simp_all
  have k49: "(of_int k :: rat) < 562949953421312" using assms(2) by simp
  have rpos: "0 < r" using kpos by (simp add: r_def)
  note b = binexp_bounds [OF rpos]
  have hi: "r < exp2 50" using k49 kpos by (simp add: r_def exp2_def)
  then have "exp2 (binexp r) < exp2 50" using b by linarith
  then have e50: "binexp r < 50" by (simp add: exp2_strict_mono_iff)
  have "exp2 0 \<le> r" using k1 by (simp add: r_def exp2_def add_increasing2)
  then have "exp2 0 < exp2 (binexp r + 1)" using b by linarith
  then have e0: "0 \<le> binexp r" by (simp add: exp2_strict_mono_iff)
  define e where "e = binexp r - 52"
  have e: "e < 0" using e50 by (simp add: e_def)
  define n where "n = k * 2 ^ nat (- e)"
  have n: "of_int n * exp2 e = of_int k"
    using e by (simp add: n_def exp2_def)
  have "of_int k < exp2 (binexp r + 1)" using b kpos by (simp add: r_def)
  also have "exp2 (binexp r + 1) = exp2 e * 2 ^ 53"
    by (simp add: e_def exp2_nat [symmetric] exp2_add [symmetric] add.commute del: power_numeral)
  finally have small: "of_int k / 18014398509481984 < exp2 e / 2" by simp
  have quot: "r / exp2 e = of_int n + (of_int k / 18014398509481984) / exp2 e"
    unfolding r_def n [symmetric] by (simp add: field_simps)
  have "(of_int k / 18014398509481984) / exp2 e < 1 / 2"
    using small by (simp add: pos_divide_less_eq)
  moreover have "0 < (of_int k / 18014398509481984) / exp2 e" using kpos by simp
  ultimately have "round_half_even (r / exp2 e) = n"
    unfolding quot by (intro round_half_even_eqI) linarith+
  moreover have "fl r = of_int (round_half_even (r / exp2 e)) * exp2 e"
    unfolding e_def using b e0 by (intro fl_eqI) auto
  ultimately show ?thesis using n r by (simp add: double_mult_def)
qed

lemma tenth_between:
  assumes "0 < j" and "j < 10" and "0 \<le> k" and "k < 2 ^ 46"
  shows "of_int k < double_mult (of_int (10 * k + j)) one_tenth"
    and "double_mult (of_int (10 * k + j)) one_tenth < of_int (k + 1)"
proof -
  define r where "r = of_int (10 * k + j) * one_tenth"
  have j: "1 \<le> (of_int j :: rat)" "(of_int j :: rat) \<le> 9" using assms(1,2) by simp_all
  have k: "0 \<le> (of_int k :: rat)" "(of_int k :: rat) < 70368744177664" using assms(3,4) by simp_all
  have r: "of_int k + 1 / 12 \<le> r" "r \<le> of_int k + 11 / 12"
    using j k by (simp_all add: r_def one_tenth_value field_simps)
  have "exp2 (- 1022) \<le> r"
  proof -
    have "exp2 (- 1022) \<le> exp2 (- 4)" by (rule exp2_mono) simp
    also have "\<dots> \<le> r" using r k by (simp add: exp2_def)
    finally show ?thesis .
  qed
  then have "\<bar>fl r - r\<bar> \<le> r / 2 ^ 53" by (rule fl_err)
  moreover have "r / 2 ^ 53 < 1 / 12" using r k by simp
  ultimately have "\<bar>fl r - r\<bar> < 1 / 12" by linarith
  with r have "of_int k < fl r" "fl r < of_int k + 1" by linarith+
  then show "of_int k < double_mult (of_int (10 * k + j)) one_tenth"
    and "double_mult (of_int (10 * k + j)) one_tenth < of_int (k + 1)"
    by (simp_all add: double_mult_def r_def)
qed

lemma ceil_tenth:
  assumes "0 \<le> n" and "n < 2 ^ 49"
  shows "\<lceil>double_mult (of_int n) one_tenth\<rceil> = (n + 9) div 10"
proof -
  define k j where "k = n div 10" and "j = n mod 10"
  have n: "n = 10 * k + j" and kj: "0 \<le> k" "k < 2 ^ 46" "0 \<le> j" "j < 10"
    using assms by (auto simp: k_def j_def)
  show ?thesis
  proof (cases "j = 0")
    case True
    then have "(n + 9) div 10 = k" using n by simp
    moreover have "double_mult (of_int n) one_tenth = of_int k"
      using True n kj tenth_of_multiple [of k]
      by (cases "k = 0") (simp_all add: double_mult_def fl_def)
    ultimately show ?thesis by simp
  next
    case False
    then have "(n + 9) div 10 = k + 1" using n kj by simp
    moreover have "\<lceil>double_mult (of_int n) one_tenth\<rceil> = k + 1"
      using False kj tenth_between [of j k] unfolding n by (intro ceiling_unique) auto
    ultimately show ?thesis by simp
  qed
qed

lemma swap_threshold_is_a_tenth_core:
  assumes "c < 2 ^ 49"
  shows "unat (swap_threshold (init_dynamic_pager c st)) = (unat c + 9) div 10"
proof -
  have c: "uint c < 2 ^ 49" using assms by (simp add: word_less_def)
  then have d: "u64_to_double c = of_int (uint c)"
    by (intro u64_to_double_exact) (simp add: word_le_def)
  have "\<lceil>double_mult (of_int (uint c)) one_tenth\<rceil> = (uint c + 9) div 10"
    using c by (intro ceil_tenth) simp_all
  then have "threshold_of c = word_of_int ((uint c + 9) div 10)"
    by (simp add: threshold_of_def d double_ceil_def double_to_u64_def)
  moreover have "0 \<le> (uint c + 9) div 10" by (simp add: pos_imp_zdiv_nonneg_iff)
  moreover have "(uint c + 9) div 10 < 2 ^ 64" using c by simp
  ultimately have "uint (threshold_of c) = (uint c + 9) div 10"
    by (simp add: uint_word_of_int)
  then have "int (unat (threshold_of c)) = int ((unat c + 9) div 10)"
    by (simp add: zdiv_int)
  then have "unat (threshold_of c) = (unat c + 9) div 10" by (simp only: of_nat_eq_iff)
  then show ?thesis by (simp add: init_dynamic_pager_def Let_def)
qed

text \<open>
  C40 (threshold): for a cache of less than \<open>2 ^ 49\<close> bytes the rounded product with the
  double \<^verbatim>\<open>0.1\<close> never disturbs the ceiling: the swap threshold is one tenth of the cache
  size, rounded up.
\<close>

theorem swap_threshold_is_a_tenth:
  assumes "c < 2 ^ 49"
  shows "unat (swap_threshold (init_dynamic_pager c st)) = (unat c + 9) div 10"
  by (rule swap_threshold_is_a_tenth_core [OF assms])

theorem swap_threshold_is_a_tenth_witness:
  "unat (swap_threshold (init_dynamic_pager 16384 dswap_static)) = 1639"
proof -
  have "(16384 :: u64) < 2 ^ 49" by simp
  then show ?thesis using swap_threshold_is_a_tenth [of 16384 dswap_static] by simp
qed


text \<open>A far memory that is just the list of the present pointers.\<close>

definition listed_far :: "(addr list) far_ops" where
  "listed_far = \<lparr>fo_is_present = (\<lambda>p s. p \<in> set s), fo_swap_in = (\<lambda>nt p s. Some (Inr (p # s)))\<rparr>"

text \<open>A registry of three objects of 10, 20 and 30 bytes, for the concrete instances below.\<close>

definition sample_dswap :: "u64 \<Rightarrow> dswap" where
  "sample_dswap c = dswap_static\<lparr>cache_size := c, object_refs := [ObjRef_new 1 10, ObjRef_new 2 20, ObjRef_new 3 30],
     object_addrs := [1, 2, 3], swap_threshold := threshold_of c\<rparr>"

lemmas sample_defs = sample_dswap_def dswap_static_def listed_far_def ObjRef_new_def

section \<open>What a memory pass computes\<close>

definition present_bytes :: "'s far_ops \<Rightarrow> 's \<Rightarrow> ObjRef list \<Rightarrow> nat" where
  "present_bytes F s refs = (\<Sum>r \<leftarrow> filter (\<lambda>r. fo_is_present F (obj_ptr r) s) refs. unat (obj_size r))"

definition registered_bytes :: "ObjRef list \<Rightarrow> nat" where
  "registered_bytes refs = (\<Sum>r \<leftarrow> refs. unat (obj_size r))"

lemma present_bytes_simps [simp]:
  "present_bytes F s [] = 0"
  "present_bytes F s (r # rs) =
     (if fo_is_present F (obj_ptr r) s then unat (obj_size r) + present_bytes F s rs
      else present_bytes F s rs)"
  by (simp_all add: present_bytes_def)

lemma memory_scan_sum: "memory_scan F s rs t = t + of_nat (present_bytes F s rs)"
  by (induction rs arbitrary: t) simp_all

lemma present_bytes_all:
  "(\<And>r. r \<in> set rs \<Longrightarrow> fo_is_present F (obj_ptr r) s) \<Longrightarrow> present_bytes F s rs = registered_bytes rs"
  by (induction rs) (simp_all add: registered_bytes_def)

lemma dynamic_memory_pass_frame [simp]:
  "cache_size (dynamic_memory_pass F s st) = cache_size st"
  "object_refs (dynamic_memory_pass F s st) = object_refs st"
  "swap_threshold (dynamic_memory_pass F s st) = swap_threshold st"
  by (simp_all add: dynamic_memory_pass_def Let_def)

lemma available_mem_wraps_core:
  assumes "present_bytes F s (object_refs st) < 2 ^ 64"
  shows "unat (available_mem (dynamic_memory_pass F s st)) =
     (if present_bytes F s (object_refs st) \<le> unat (cache_size st)
      then unat (cache_size st) - present_bytes F s (object_refs st)
      else 2 ^ 64 - (present_bytes F s (object_refs st) - unat (cache_size st)))"
proof -
  define b where "b = present_bytes F s (object_refs st)"
  define c where "c = cache_size st"
  have b: "unat (of_nat b :: u64) = b"
    using assms by (intro unat_of_nat_u64) (simp add: b_def)
  have "available_mem (dynamic_memory_pass F s st) = c - of_nat b"
    by (simp add: dynamic_memory_pass_def memory_scan_sum b_def c_def Let_def)
  moreover have "unat (c - of_nat b) = (if b \<le> unat c then unat c - b else 2 ^ 64 - (b - unat c))"
    using unsigned_less [of c] by (auto simp: unat_sub_if' b)
  ultimately show ?thesis by (simp add: b_def c_def)
qed

text \<open>
  Free bytes: what the memory thread publishes is the cache size less the bytes of the
  present objects, modulo \<open>2 ^ 64\<close>: exact while they fit in the cache, and wrapped to a
  huge value as soon as they do not.
\<close>

theorem available_mem_wraps:
  assumes "present_bytes F s (object_refs st) < 2 ^ 64"
  shows "unat (available_mem (dynamic_memory_pass F s st)) =
     (if present_bytes F s (object_refs st) \<le> unat (cache_size st)
      then unat (cache_size st) - present_bytes F s (object_refs st)
      else 2 ^ 64 - (present_bytes F s (object_refs st) - unat (cache_size st)))"
  by (rule available_mem_wraps_core [OF assms])

theorem available_mem_wraps_witness:
  "unat (available_mem (dynamic_memory_pass listed_far [1, 2] (sample_dswap 25))) = 2 ^ 64 - 5
   \<and> unat (available_mem (dynamic_memory_pass listed_far [1] (sample_dswap 25))) = 15"
proof -
  have b: "present_bytes listed_far [1, 2] (object_refs (sample_dswap 25)) = 30"
    "present_bytes listed_far [1] (object_refs (sample_dswap 25)) = 10"
    by (simp_all add: sample_defs)
  have c: "unat (cache_size (sample_dswap 25)) = 25" by (simp add: sample_defs)
  show ?thesis
    using available_mem_wraps [of listed_far "[1, 2]" "sample_dswap 25"]
      available_mem_wraps [of listed_far "[1]" "sample_dswap 25"]
    by (simp add: b c)
qed

section \<open>What a pager pass does\<close>

text \<open>
  The contract of a far pointer the pager relies on: \<^verbatim>\<open>swap_in\<close> leaves its object
  present and no present object absent.
\<close>

locale far_interface =
  fixes F :: "'s far_ops"
  assumes swap_in_present: "fo_swap_in F nt p s = Some (Inr s') \<Longrightarrow> fo_is_present F p s'"
    and swap_in_keeps: "fo_swap_in F nt p s = Some (Inr s') \<Longrightarrow> fo_is_present F q s \<Longrightarrow> fo_is_present F q s'"
begin

lemma pager_scan_keeps:
  "pager_scan F st rs s = Some (Inr s') \<Longrightarrow> fo_is_present F q s \<Longrightarrow> fo_is_present F q s'"
proof (induction rs arbitrary: s)
  case Nil
  then show ?case by simp
next
  case (Cons r rs)
  then show ?case by (auto simp: and_then_Some_Inr split: if_splits intro: swap_in_keeps)
qed

lemma pager_scan_swaps_all:
  assumes "pager_scan F st rs s = Some (Inr s')" and "\<not> available_mem st < swap_threshold st"
    and "r \<in> set rs"
  shows "fo_is_present F (obj_ptr r) s'"
  using assms(1,3)
proof (induction rs arbitrary: s)
  case Nil
  then show ?case by simp
next
  case (Cons a rs)
  show ?case
  proof (cases "fo_is_present F (obj_ptr a) s")
    case True
    then have scan: "pager_scan F st rs s = Some (Inr s')" using Cons.prems(1) assms(2) by simp
    then show ?thesis using Cons True by (auto intro: pager_scan_keeps)
  next
    case False
    then obtain u where u: "fo_swap_in F False (obj_ptr a) s = Some (Inr u)"
        and scan: "pager_scan F st rs u = Some (Inr s')"
      using Cons.prems(1) assms(2) by (auto simp: and_then_Some_Inr)
    have "fo_is_present F (obj_ptr a) u" using u by (rule swap_in_present)
    then show ?thesis using Cons scan by (auto intro: pager_scan_keeps)
  qed
qed

end

lemma pager_scan_closed: "available_mem st < swap_threshold st \<Longrightarrow> pager_scan F st rs s = Some (Inr s)"
  by (cases rs) simp_all

interpretation listed: far_interface listed_far
  by unfold_locales (auto simp: listed_far_def)



lemma overcommit_guard:
  assumes "unat c < present_bytes F s (object_refs st)"
    and "present_bytes F s (object_refs st) < 2 ^ 63" and "c < 2 ^ 49"
  shows "\<not> available_mem (dynamic_memory_pass F s (init_dynamic_pager c st))
     < swap_threshold (dynamic_memory_pass F s (init_dynamic_pager c st))"
proof -
  let ?st = "init_dynamic_pager c st"
  have refs: "object_refs ?st = object_refs st" and c: "cache_size ?st = c"
    by (simp_all add: init_dynamic_pager_def Let_def)
  have "unat c < 2 ^ 49" using assms(3) by (simp add: word_less_nat_alt)
  then have "unat (swap_threshold ?st) < 2 ^ 63"
    using swap_threshold_is_a_tenth_core [OF assms(3), of st] by simp
  moreover have "2 ^ 63 < unat (available_mem (dynamic_memory_pass F s ?st))"
    using available_mem_wraps_core [of F s ?st] assms by (simp add: refs c)
  ultimately show ?thesis by (simp add: word_less_nat_alt)
qed



end
