(* ===== verification/DSwap_Threads.thy ===== *)
theory DSwap_Threads
  imports DSwap_Pager
begin

text \<open>
  The pager thread, the memory thread and the registering threads of \<^verbatim>\<open>src/dswap.cpp\<close> as
  an interleaving of atomic steps under \<^verbatim>\<open>object_addrs_mut\<close>, and what holds in every
  state they reach.
\<close>

section \<open>Interleaving\<close>

text \<open>
  Program counters: the loop test, waiting for the mutex, the iteration over the rest of
  the vector (mutex held), the sleep, and the exit.
\<close>

datatype pager_pc = P_Unborn | P_Test | P_Lock | P_Iter "ObjRef list" | P_Sleep | P_Done
datatype memory_pc = M_Unborn | M_Test | M_Lock | M_Iter "ObjRef list" u64 | M_Sleep | M_Done
datatype reg_pc = R_Idle | R_Locked addr u64 | R_RefPushed addr | R_AddrPushed

record 's sys =
  ds :: dswap
  far :: 's
  ppc :: pager_pc
  mpc :: memory_pc
  rpc :: "nat \<Rightarrow> reg_pc"

definition sys_start :: "'s \<Rightarrow> 's sys" where
  "sys_start s = \<lparr>ds = dswap_static, far = s, ppc = P_Unborn, mpc = M_Unborn, rpc = (\<lambda>_. R_Idle)\<rparr>"

text \<open>
  One step of one thread. \<open>env\<close> is what the mutators and the collector do to the far
  memory between the daemons' steps.
\<close>

inductive pager_step :: "'s far_ops \<Rightarrow> 's sys \<Rightarrow> 's sys \<Rightarrow> bool" for F where
  P_run: "ppc s = P_Test \<Longrightarrow> dynamic_manager_running (ds s) \<Longrightarrow> pager_step F s (s\<lparr>ppc := P_Lock\<rparr>)"
| P_exit: "ppc s = P_Test \<Longrightarrow> \<not> dynamic_manager_running (ds s) \<Longrightarrow> pager_step F s (s\<lparr>ppc := P_Done\<rparr>)"
| P_lock: "ppc s = P_Lock \<Longrightarrow> mut_lock Pager (ds s) = Some d \<Longrightarrow>
    pager_step F s (s\<lparr>ds := d, ppc := P_Iter (object_refs d)\<rparr>)"
| P_end: "ppc s = P_Iter [] \<Longrightarrow> pager_step F s (s\<lparr>ds := mut_unlock (ds s), ppc := P_Sleep\<rparr>)"
| P_break: "ppc s = P_Iter (r # rs) \<Longrightarrow> available_mem (ds s) < swap_threshold (ds s) \<Longrightarrow>
    pager_step F s (s\<lparr>ds := mut_unlock (ds s), ppc := P_Sleep\<rparr>)"
| P_skip: "ppc s = P_Iter (r # rs) \<Longrightarrow> \<not> available_mem (ds s) < swap_threshold (ds s) \<Longrightarrow>
    fo_is_present F (obj_ptr r) (far s) \<Longrightarrow> pager_step F s (s\<lparr>ppc := P_Iter rs\<rparr>)"
| P_swap: "ppc s = P_Iter (r # rs) \<Longrightarrow> \<not> available_mem (ds s) < swap_threshold (ds s) \<Longrightarrow>
    \<not> fo_is_present F (obj_ptr r) (far s) \<Longrightarrow> fo_swap_in F False (obj_ptr r) (far s) = Some (Inr f) \<Longrightarrow>
    pager_step F s (s\<lparr>far := f, ppc := P_Iter rs\<rparr>)"
| P_wake: "ppc s = P_Sleep \<Longrightarrow> pager_step F s (s\<lparr>ppc := P_Test\<rparr>)"

inductive memory_step :: "'s far_ops \<Rightarrow> 's sys \<Rightarrow> 's sys \<Rightarrow> bool" for F where
  M_run: "mpc s = M_Test \<Longrightarrow> dynamic_manager_running (ds s) \<Longrightarrow> memory_step F s (s\<lparr>mpc := M_Lock\<rparr>)"
| M_exit: "mpc s = M_Test \<Longrightarrow> \<not> dynamic_manager_running (ds s) \<Longrightarrow> memory_step F s (s\<lparr>mpc := M_Done\<rparr>)"
| M_lock: "mpc s = M_Lock \<Longrightarrow> mut_lock Memory (ds s) = Some d \<Longrightarrow>
    memory_step F s (s\<lparr>ds := d, mpc := M_Iter (object_refs d) 0\<rparr>)"
| M_skip: "mpc s = M_Iter (r # rs) t \<Longrightarrow> \<not> fo_is_present F (obj_ptr r) (far s) \<Longrightarrow>
    memory_step F s (s\<lparr>mpc := M_Iter rs t\<rparr>)"
| M_add: "mpc s = M_Iter (r # rs) t \<Longrightarrow> fo_is_present F (obj_ptr r) (far s) \<Longrightarrow>
    memory_step F s (s\<lparr>mpc := M_Iter rs (t + obj_size r)\<rparr>)"
| M_store: "mpc s = M_Iter [] t \<Longrightarrow>
    memory_step F s (s\<lparr>ds := mut_unlock ((ds s)\<lparr>available_mem := cache_size (ds s) - t\<rparr>), mpc := M_Sleep\<rparr>)"
| M_wake: "mpc s = M_Sleep \<Longrightarrow> memory_step F s (s\<lparr>mpc := M_Test\<rparr>)"

inductive register_step :: "nat \<Rightarrow> 's sys \<Rightarrow> 's sys \<Rightarrow> bool" for i where
  R_lock: "rpc s i = R_Idle \<Longrightarrow> mut_lock (Registrar i) (ds s) = Some d \<Longrightarrow>
    register_step i s (s\<lparr>ds := d, rpc := (rpc s)(i := R_Locked p sz)\<rparr>)"
| R_ref: "rpc s i = R_Locked p sz \<Longrightarrow>
    register_step i s (s\<lparr>ds := push_ref p sz (ds s), rpc := (rpc s)(i := R_RefPushed p)\<rparr>)"
| R_addr: "rpc s i = R_RefPushed p \<Longrightarrow>
    register_step i s (s\<lparr>ds := push_addr p (ds s), rpc := (rpc s)(i := R_AddrPushed)\<rparr>)"
| R_unlock: "rpc s i = R_AddrPushed \<Longrightarrow>
    register_step i s (s\<lparr>ds := mut_unlock (ds s), rpc := (rpc s)(i := R_Idle)\<rparr>)"

inductive dswap_step :: "'s far_ops \<Rightarrow> ('s \<Rightarrow> 's \<Rightarrow> bool) \<Rightarrow> 's sys \<Rightarrow> 's sys \<Rightarrow> bool" for F env where
  S_init: "ppc s = P_Unborn \<Longrightarrow> mpc s = M_Unborn \<Longrightarrow>
    dswap_step F env s (s\<lparr>ds := init_dynamic_pager c (ds s), ppc := P_Test, mpc := M_Test\<rparr>)"
| S_pager: "pager_step F s s' \<Longrightarrow> dswap_step F env s s'"
| S_memory: "memory_step F s s' \<Longrightarrow> dswap_step F env s s'"
| S_register: "register_step i s s' \<Longrightarrow> dswap_step F env s s'"
| S_stop: "dswap_step F env s (s\<lparr>ds := stop_dynamic_pager (ds s)\<rparr>)"
| S_env: "env (far s) f \<Longrightarrow> dswap_step F env s (s\<lparr>far := f\<rparr>)"

definition dswap_reach :: "'s far_ops \<Rightarrow> ('s \<Rightarrow> 's \<Rightarrow> bool) \<Rightarrow> 's \<Rightarrow> 's sys \<Rightarrow> bool" where
  "dswap_reach F env s0 = (dswap_step F env)\<^sup>*\<^sup>* (sys_start s0)"


inductive_cases pager_stepE: "pager_step F s s'"
inductive_cases memory_stepE: "memory_step F s s'"
inductive_cases register_stepE: "register_step i s s'"
inductive_cases dswap_stepE: "dswap_step F env s s'"

lemmas step_cases = pager_stepE memory_stepE register_stepE

section \<open>The invariant\<close>

text \<open>
  A thread is inside its critical section exactly while it holds the mutex.
\<close>

definition in_section :: "'s sys \<Rightarrow> owner \<Rightarrow> bool" where
  "in_section s t = (case t of
     Pager \<Rightarrow> (case ppc s of P_Iter rs \<Rightarrow> True | _ \<Rightarrow> False)
   | Memory \<Rightarrow> (case mpc s of M_Iter rs b \<Rightarrow> True | _ \<Rightarrow> False)
   | Registrar i \<Rightarrow> rpc s i \<noteq> R_Idle)"

definition mutex_inv :: "'s sys \<Rightarrow> bool" where
  "mutex_inv s \<longleftrightarrow> (\<forall>t. in_section s t \<longleftrightarrow> object_addrs_mut (ds s) = Some t)"

text \<open>What is left of a vector under iteration is a suffix of the vector as it is now.\<close>

definition iter_inv :: "'s sys \<Rightarrow> bool" where
  "iter_inv s \<longleftrightarrow> (\<forall>rs. ppc s = P_Iter rs \<longrightarrow> suffix rs (object_refs (ds s))) \<and>
     (\<forall>rs b. mpc s = M_Iter rs b \<longrightarrow> suffix rs (object_refs (ds s)))"

text \<open>The two vectors list the same pointers, but for the one a registrar is about to add.\<close>

definition pending :: "owner option \<Rightarrow> (nat \<Rightarrow> reg_pc) \<Rightarrow> addr list" where
  "pending m r = (case m of
     Some (Registrar i) \<Rightarrow> (case r i of R_RefPushed p \<Rightarrow> [p] | _ \<Rightarrow> []) | _ \<Rightarrow> [])"

lemma pending_simps [simp]:
  "pending None r = []" "pending (Some Pager) r = []" "pending (Some Memory) r = []"
  by (simp_all add: pending_def)

lemma pending_Registrar:
  "r i = R_Locked p sz \<Longrightarrow> pending (Some (Registrar i)) r = []"
  "r i = R_RefPushed p \<Longrightarrow> pending (Some (Registrar i)) r = [p]"
  "r i = R_AddrPushed \<Longrightarrow> pending (Some (Registrar i)) r = []"
  by (simp_all add: pending_def)

definition sync_inv :: "'s sys \<Rightarrow> bool" where
  "sync_inv s \<longleftrightarrow> map obj_ptr (object_refs (ds s)) =
     object_addrs (ds s) @ pending (object_addrs_mut (ds s)) (rpc s)"

definition dswap_inv :: "'s sys \<Rightarrow> bool" where
  "dswap_inv s \<longleftrightarrow> mutex_inv s \<and> iter_inv s \<and> sync_inv s"

lemma dswap_inv_start: "dswap_inv (sys_start s0)"
  by (auto simp: dswap_inv_def mutex_inv_def in_section_def iter_inv_def sync_inv_def
      sys_start_def dswap_static_def split: owner.splits)

lemma mutex_inv_iff:
  "mutex_inv s \<longleftrightarrow>
     ((\<exists>rs. ppc s = P_Iter rs) \<longleftrightarrow> object_addrs_mut (ds s) = Some Pager) \<and>
     ((\<exists>rs b. mpc s = M_Iter rs b) \<longleftrightarrow> object_addrs_mut (ds s) = Some Memory) \<and>
     (\<forall>i. rpc s i \<noteq> R_Idle \<longleftrightarrow> object_addrs_mut (ds s) = Some (Registrar i))"
  (is "_ \<longleftrightarrow> ?P \<and> ?M \<and> ?R")
proof -
  have "(\<forall>t. Q t) \<longleftrightarrow> Q Pager \<and> Q Memory \<and> (\<forall>i. Q (Registrar i))" for Q
    by (metis (full_types) owner.exhaust)
  moreover have "in_section s Pager \<longleftrightarrow> (\<exists>rs. ppc s = P_Iter rs)"
    by (auto simp: in_section_def split: pager_pc.splits)
  moreover have "in_section s Memory \<longleftrightarrow> (\<exists>rs b. mpc s = M_Iter rs b)"
    by (auto simp: in_section_def split: memory_pc.splits)
  moreover have "in_section s (Registrar i) \<longleftrightarrow> rpc s i \<noteq> R_Idle" for i
    by (simp add: in_section_def)
  ultimately show ?thesis unfolding mutex_inv_def by presburger
qed

lemma pager_step_mutex: "pager_step F s s' \<Longrightarrow> mutex_inv s \<Longrightarrow> mutex_inv s'"
  unfolding mutex_inv_iff by (erule pager_stepE) (auto simp: dswap_defs split: if_splits)

lemma memory_step_mutex: "memory_step F s s' \<Longrightarrow> mutex_inv s \<Longrightarrow> mutex_inv s'"
  unfolding mutex_inv_iff by (erule memory_stepE) (auto simp: dswap_defs split: if_splits)

lemma register_step_mutex:
  assumes "register_step i s s'" and "mutex_inv s"
  shows "mutex_inv s'"
proof -
  have "rpc s i \<noteq> R_Idle \<Longrightarrow> object_addrs_mut (ds s) = Some (Registrar i)"
    using assms(2) by (simp add: mutex_inv_iff)
  with assms show ?thesis
    unfolding mutex_inv_iff by (elim register_stepE) (auto simp: dswap_defs split: if_splits)
qed

lemma dswap_step_mutex: "dswap_step F env s s' \<Longrightarrow> mutex_inv s \<Longrightarrow> mutex_inv s'"
proof (induction rule: dswap_step.induct)
  case (S_init s c)
  then show ?case by (simp add: mutex_inv_iff dswap_defs)
next
  case (S_pager s s')
  then show ?case by (rule pager_step_mutex)
next
  case (S_memory s s')
  then show ?case by (rule memory_step_mutex)
next
  case (S_register i s s')
  then show ?case by (rule register_step_mutex)
qed (simp_all add: mutex_inv_iff stop_dynamic_pager_def)

lemma suffix_tail: "suffix (r # rs) xs \<Longrightarrow> suffix rs xs"
  by (metis suffix_ConsD)

lemma pager_step_iter: "pager_step F s s' \<Longrightarrow> iter_inv s \<Longrightarrow> iter_inv s'"
  by (elim pager_stepE) (auto simp: iter_inv_def dswap_defs split: if_splits dest: suffix_tail)

lemma memory_step_iter: "memory_step F s s' \<Longrightarrow> iter_inv s \<Longrightarrow> iter_inv s'"
  by (elim memory_stepE) (auto simp: iter_inv_def dswap_defs split: if_splits dest: suffix_tail)

text \<open>A registrar only pushes while it holds the mutex, and then no vector is being walked.\<close>

lemma register_step_iter:
  assumes "register_step i s s'" and "mutex_inv s" and "iter_inv s"
  shows "iter_inv s'"
proof -
  have "rpc s i \<noteq> R_Idle \<Longrightarrow> (\<forall>rs. ppc s \<noteq> P_Iter rs) \<and> (\<forall>rs b. mpc s \<noteq> M_Iter rs b)"
    using assms(2) unfolding mutex_inv_iff by force
  with assms(1,3) show ?thesis
    by (elim register_stepE) (auto simp: iter_inv_def dswap_defs split: if_splits)
qed

lemma dswap_step_iter: "dswap_step F env s s' \<Longrightarrow> mutex_inv s \<Longrightarrow> iter_inv s \<Longrightarrow> iter_inv s'"
proof (induction rule: dswap_step.induct)
  case (S_pager s s')
  then show ?case by (blast intro: pager_step_iter)
next
  case (S_memory s s')
  then show ?case by (blast intro: memory_step_iter)
next
  case (S_register i s s')
  then show ?case by (blast intro: register_step_iter)
qed (simp_all add: iter_inv_def dswap_defs)

lemma pager_step_sync:
  assumes "pager_step F s s'" and "mutex_inv s" and "sync_inv s"
  shows "sync_inv s'"
proof -
  have "(\<exists>rs. ppc s = P_Iter rs) \<Longrightarrow> object_addrs_mut (ds s) = Some Pager"
    using assms(2) by (simp add: mutex_inv_iff)
  with assms(1,3) show ?thesis
    by (elim pager_stepE) (auto simp: sync_inv_def dswap_defs split: if_splits)
qed

lemma memory_step_sync:
  assumes "memory_step F s s'" and "mutex_inv s" and "sync_inv s"
  shows "sync_inv s'"
proof -
  have "(\<exists>rs b. mpc s = M_Iter rs b) \<Longrightarrow> object_addrs_mut (ds s) = Some Memory"
    using assms(2) by (simp add: mutex_inv_iff)
  with assms(1,3) show ?thesis
    by (elim memory_stepE) (auto simp: sync_inv_def dswap_defs split: if_splits)
qed

lemma register_step_sync:
  assumes "register_step i s s'" and "mutex_inv s" and "sync_inv s"
  shows "sync_inv s'"
proof -
  have "rpc s i \<noteq> R_Idle \<Longrightarrow> object_addrs_mut (ds s) = Some (Registrar i)"
    using assms(2) by (simp add: mutex_inv_iff)
  with assms(1,3) show ?thesis
    by (elim register_stepE) (auto simp: sync_inv_def dswap_defs pending_Registrar split: if_splits)
qed

lemma dswap_step_sync: "dswap_step F env s s' \<Longrightarrow> mutex_inv s \<Longrightarrow> sync_inv s \<Longrightarrow> sync_inv s'"
proof (induction rule: dswap_step.induct)
  case (S_pager s s')
  then show ?case by (blast intro: pager_step_sync)
next
  case (S_memory s s')
  then show ?case by (blast intro: memory_step_sync)
next
  case (S_register i s s')
  then show ?case by (blast intro: register_step_sync)
qed (simp_all add: sync_inv_def dswap_defs)

lemma dswap_step_inv: "dswap_step F env s s' \<Longrightarrow> dswap_inv s \<Longrightarrow> dswap_inv s'"
  unfolding dswap_inv_def by (blast intro: dswap_step_mutex dswap_step_iter dswap_step_sync)

lemma dswap_reach_inv:
  assumes "dswap_reach F env s0 s"
  shows "dswap_inv s"
  using assms unfolding dswap_reach_def
  by (induction rule: rtranclp_induct) (auto intro: dswap_inv_start dswap_step_inv)

section \<open>What the mutex gives\<close>

text \<open>
  C15 (critical section): in every reachable state at most one of the pager, the memory
  thread and the registrars is inside its critical section, a vector under iteration
  ends in exactly the elements still to visit, and whenever the mutex is free the two
  vectors of the registry list the same pointers in the same order.
\<close>

theorem registry_protected:
  assumes "dswap_reach F env s0 s"
  shows "(in_section s t \<and> in_section s u \<longrightarrow> t = u) \<and>
     (\<forall>rs. ppc s = P_Iter rs \<longrightarrow> suffix rs (object_refs (ds s))) \<and>
     (object_addrs_mut (ds s) = None \<longrightarrow> object_addrs (ds s) = map obj_ptr (object_refs (ds s)))"
  using dswap_reach_inv [OF assms]
  by (auto simp: dswap_inv_def mutex_inv_def iter_inv_def sync_inv_def)

lemma init_only_once:
  assumes "dswap_step F env s s'" and "ppc s \<noteq> P_Unborn"
  shows "cache_size (ds s') = cache_size (ds s) \<and> swap_threshold (ds s') = swap_threshold (ds s)
    \<and> ppc s' \<noteq> P_Unborn \<and> (dynamic_manager_running (ds s') \<longrightarrow> dynamic_manager_running (ds s))"
  using assms
  by (elim dswap_stepE) (auto elim!: step_cases simp: dswap_defs split: if_splits)

text \<open>
  Stale budget: while the pager walks the registry nothing anybody does, the memory
  thread included, changes the free-byte count, the threshold or the registry: the budget
  the pager compares against is the one from before its pass.
\<close>

theorem budget_frozen_during_pass:
  assumes "dswap_reach F env s0 s" and "dswap_step F env s s'" and "ppc s = P_Iter rs"
  shows "available_mem (ds s') = available_mem (ds s) \<and> swap_threshold (ds s') = swap_threshold (ds s)
    \<and> object_refs (ds s') = object_refs (ds s)"
proof -
  have m: "mutex_inv s" using dswap_reach_inv [OF assms(1)] by (simp add: dswap_inv_def)
  then have "\<forall>rs b. mpc s \<noteq> M_Iter rs b" "\<forall>i. rpc s i = R_Idle"
    using assms(3) unfolding mutex_inv_iff by force+
  then show ?thesis using assms(2,3)
    by (elim dswap_stepE) (auto elim!: step_cases simp: dswap_defs split: if_splits)
qed

text \<open>
  C39 (append only): no step of any thread ever removes or reorders a registered object;
  the registry of the next state extends that of the current one.
\<close>

theorem registry_append_only:
  assumes "(dswap_step F env)\<^sup>*\<^sup>* s s'"
  shows "prefix (object_refs (ds s)) (object_refs (ds s'))"
  using assms
proof (induction rule: rtranclp_induct)
  case base
  show ?case by simp
next
  case (step u v)
  have "prefix (object_refs (ds u)) (object_refs (ds v))"
    using step.hyps(2) by (elim dswap_stepE) (auto elim!: step_cases simp: dswap_defs split: if_splits)
  with step.IH show ?case by (rule prefix_order.trans)
qed

section \<open>The sequential passes are runs of the threads\<close>

lemma far_unchanged: "far s = f \<Longrightarrow> s\<lparr>ds := d, far := f, ppc := c\<rparr> = s\<lparr>ds := d, ppc := c\<rparr>"
  by (rule sys.equality) simp_all

lemma unlock_free: "object_addrs_mut d = None \<Longrightarrow> d\<lparr>available_mem := a, object_addrs_mut := None\<rparr> = d\<lparr>available_mem := a\<rparr>"
  by (rule dswap.equality) simp_all

lemma pager_scan_steps:
  "pager_scan F (ds s) rs (far s) = Some (Inr f) \<Longrightarrow> ppc s = P_Iter rs \<Longrightarrow>
   (pager_step F)\<^sup>*\<^sup>* s (s\<lparr>ds := mut_unlock (ds s), far := f, ppc := P_Sleep\<rparr>)"
proof (induction rs arbitrary: s)
  case Nil
  then have "pager_step F s (s\<lparr>ds := mut_unlock (ds s), ppc := P_Sleep\<rparr>)"
    by (intro P_end)
  then show ?case using Nil by (simp add: far_unchanged r_into_rtranclp)
next
  case (Cons r rs)
  show ?case
  proof (cases "available_mem (ds s) < swap_threshold (ds s)")
    case True
    then have "pager_step F s (s\<lparr>ds := mut_unlock (ds s), ppc := P_Sleep\<rparr>)"
      using Cons.prems(2) by (intro P_break)
    then show ?thesis using Cons.prems(1) True by (simp add: far_unchanged r_into_rtranclp)
  next
    case False
    show ?thesis
    proof (cases "fo_is_present F (obj_ptr r) (far s)")
      case True
      then have "pager_step F s (s\<lparr>ppc := P_Iter rs\<rparr>)"
        using Cons.prems(2) False by (intro P_skip)
      moreover have "(pager_step F)\<^sup>*\<^sup>* (s\<lparr>ppc := P_Iter rs\<rparr>)
          (s\<lparr>ds := mut_unlock (ds s), far := f, ppc := P_Sleep\<rparr>)"
        using Cons.IH [of "s\<lparr>ppc := P_Iter rs\<rparr>"] Cons.prems(1) False True by simp
      ultimately show ?thesis by (rule converse_rtranclp_into_rtranclp)
    next
      case absent: False
      then obtain u where u: "fo_swap_in F False (obj_ptr r) (far s) = Some (Inr u)"
          and scan: "pager_scan F (ds s) rs u = Some (Inr f)"
        using Cons.prems(1) False by (auto simp: and_then_Some_Inr)
      have "pager_step F s (s\<lparr>far := u, ppc := P_Iter rs\<rparr>)"
        using Cons.prems(2) False absent u by (intro P_swap)
      moreover have "(pager_step F)\<^sup>*\<^sup>* (s\<lparr>far := u, ppc := P_Iter rs\<rparr>)
          (s\<lparr>ds := mut_unlock (ds s), far := f, ppc := P_Sleep\<rparr>)"
        using Cons.IH [of "s\<lparr>far := u, ppc := P_Iter rs\<rparr>"] scan by simp
      ultimately show ?thesis by (rule converse_rtranclp_into_rtranclp)
    qed
  qed
qed

lemma pager_scan_lock_irrelevant:
  "pager_scan F (st\<lparr>object_addrs_mut := m\<rparr>) rs s = pager_scan F st rs s"
proof (induction rs arbitrary: s)
  case (Cons r rs)
  then have "pager_scan F (st\<lparr>object_addrs_mut := m\<rparr>) rs = pager_scan F st rs" by (intro ext)
  then show ?case by simp
qed simp

lemma memory_scan_steps:
  "mpc s = M_Iter rs b \<Longrightarrow> (memory_step F)\<^sup>*\<^sup>* s (s\<lparr>mpc := M_Iter [] (memory_scan F (far s) rs b)\<rparr>)"
proof (induction rs arbitrary: s b)
  case Nil
  then have "s\<lparr>mpc := M_Iter [] b\<rparr> = s" by (metis sys.surjective sys.update_convs(4))
  then show ?case by simp
next
  case (Cons r rs)
  define c where "c = (if fo_is_present F (obj_ptr r) (far s) then b + obj_size r else b)"
  have "memory_step F s (s\<lparr>mpc := M_Iter rs c\<rparr>)"
    using Cons.prems by (auto simp: c_def intro: M_skip M_add)
  moreover have "(memory_step F)\<^sup>*\<^sup>* (s\<lparr>mpc := M_Iter rs c\<rparr>) (s\<lparr>mpc := M_Iter [] (memory_scan F (far s) rs c)\<rparr>)"
    using Cons.IH [of "s\<lparr>mpc := M_Iter rs c\<rparr>" c] by simp
  moreover have "memory_scan F (far s) (r # rs) b = memory_scan F (far s) rs c"
    by (simp add: c_def)
  ultimately show ?case by (metis converse_rtranclp_into_rtranclp)
qed

lemma pager_pass_run:
  assumes "object_addrs_mut (ds s) = None" and pc: "ppc s = P_Lock"
    and pass: "dynamic_pager_pass F (ds s) (far s) = Some (Inr f)"
  shows "(pager_step F)\<^sup>*\<^sup>* s (s\<lparr>far := f, ppc := P_Sleep\<rparr>)"
proof -
  define d where "d = (ds s)\<lparr>object_addrs_mut := Some Pager\<rparr>"
  have unlock: "mut_unlock d = ds s" using assms by (simp add: d_def mut_unlock_def)
  have "pager_step F s (s\<lparr>ds := d, ppc := P_Iter (object_refs d)\<rparr>)"
    using pc assms by (intro P_lock) (simp_all add: mut_lock_def d_def)
  moreover have "(pager_step F)\<^sup>*\<^sup>* (s\<lparr>ds := d, ppc := P_Iter (object_refs d)\<rparr>)
      (s\<lparr>ds := mut_unlock d, far := f, ppc := P_Sleep\<rparr>)"
    using pager_scan_steps [of F "s\<lparr>ds := d, ppc := P_Iter (object_refs d)\<rparr>" "object_refs d" f] pass
    by (simp add: d_def dynamic_pager_pass_def pager_scan_lock_irrelevant)
  ultimately show ?thesis
    unfolding unlock by (metis (no_types, lifting) converse_rtranclp_into_rtranclp
        sys.surjective sys.update_convs(1))
qed

lemma memory_pass_run:
  assumes "object_addrs_mut (ds s) = None" and pc: "mpc s = M_Lock"
  shows "(memory_step F)\<^sup>*\<^sup>* s (s\<lparr>ds := dynamic_memory_pass F (far s) (ds s), mpc := M_Sleep\<rparr>)"
proof -
  define d where "d = (ds s)\<lparr>object_addrs_mut := Some Memory\<rparr>"
  define t where "t = memory_scan F (far s) (object_refs d) 0"
  have "memory_step F s (s\<lparr>ds := d, mpc := M_Iter (object_refs d) 0\<rparr>)"
    using pc assms by (intro M_lock) (simp_all add: mut_lock_def d_def)
  moreover have "(memory_step F)\<^sup>*\<^sup>* (s\<lparr>ds := d, mpc := M_Iter (object_refs d) 0\<rparr>) (s\<lparr>ds := d, mpc := M_Iter [] t\<rparr>)"
    using memory_scan_steps [of "s\<lparr>ds := d, mpc := M_Iter (object_refs d) 0\<rparr>"] by (simp add: t_def)
  moreover have "memory_step F (s\<lparr>ds := d, mpc := M_Iter [] t\<rparr>)
      (s\<lparr>ds := dynamic_memory_pass F (far s) (ds s), mpc := M_Sleep\<rparr>)"
    using M_store [of "s\<lparr>ds := d, mpc := M_Iter [] t\<rparr>" t F] assms
    by (simp add: dynamic_memory_pass_def t_def d_def mut_unlock_def unlock_free Let_def)
  ultimately show ?thesis
    by (meson converse_rtranclp_into_rtranclp rtranclp.rtrancl_into_rtrancl)
qed

lemma register_run:
  assumes "rpc s i = R_Idle" and "register_object (Registrar i) p sz (ds s) = Some (n, d)"
  shows "(register_step i)\<^sup>*\<^sup>* s (s\<lparr>ds := d\<rparr>)"
proof -
  obtain e where e: "mut_lock (Registrar i) (ds s) = Some e"
      and d: "d = mut_unlock (push_addr p (push_ref p sz e))"
    using assms(2) by (auto simp: register_object_def)
  have a: "register_step i s (s\<lparr>ds := e, rpc := (rpc s)(i := R_Locked p sz)\<rparr>)"
    using assms(1) e by (rule R_lock)
  have b: "register_step i (s\<lparr>ds := e, rpc := (rpc s)(i := R_Locked p sz)\<rparr>)
      (s\<lparr>ds := push_ref p sz e, rpc := (rpc s)(i := R_RefPushed p)\<rparr>)"
    using R_ref [of "s\<lparr>ds := e, rpc := (rpc s)(i := R_Locked p sz)\<rparr>" i p sz] by simp
  have c: "register_step i (s\<lparr>ds := push_ref p sz e, rpc := (rpc s)(i := R_RefPushed p)\<rparr>)
      (s\<lparr>ds := push_addr p (push_ref p sz e), rpc := (rpc s)(i := R_AddrPushed)\<rparr>)"
    using R_addr [of "s\<lparr>ds := push_ref p sz e, rpc := (rpc s)(i := R_RefPushed p)\<rparr>" i p] by simp
  have f: "register_step i (s\<lparr>ds := push_addr p (push_ref p sz e), rpc := (rpc s)(i := R_AddrPushed)\<rparr>)
      (s\<lparr>ds := d, rpc := (rpc s)(i := R_Idle)\<rparr>)"
    using R_unlock [of "s\<lparr>ds := push_addr p (push_ref p sz e), rpc := (rpc s)(i := R_AddrPushed)\<rparr>" i] d by simp
  have "s\<lparr>ds := d, rpc := (rpc s)(i := R_Idle)\<rparr> = s\<lparr>ds := d\<rparr>"
    using assms(1) by (intro sys.equality) auto
  with r_into_rtranclp [of "register_step i", OF a] b c f show ?thesis
    by (metis rtranclp.rtrancl_into_rtrancl)
qed


section \<open>Shutdown\<close>

definition pager_rank :: "pager_pc \<Rightarrow> nat \<times> nat" where
  "pager_rank c = (case c of P_Unborn \<Rightarrow> (5, 0) | P_Lock \<Rightarrow> (4, 0) | P_Iter rs \<Rightarrow> (3, length rs)
     | P_Sleep \<Rightarrow> (2, 0) | P_Test \<Rightarrow> (1, 0) | P_Done \<Rightarrow> (0, 0))"


section \<open>A concrete run\<close>

lemma pager_runs: "(pager_step F)\<^sup>*\<^sup>* s t \<Longrightarrow> (dswap_step F env)\<^sup>*\<^sup>* s t"
  by (induction rule: rtranclp_induct) (auto intro: rtranclp.rtrancl_into_rtrancl S_pager)

lemma memory_runs: "(memory_step F)\<^sup>*\<^sup>* s t \<Longrightarrow> (dswap_step F env)\<^sup>*\<^sup>* s t"
  by (induction rule: rtranclp_induct) (auto intro: rtranclp.rtrancl_into_rtrancl S_memory)

lemma register_runs: "(register_step i)\<^sup>*\<^sup>* s t \<Longrightarrow> (dswap_step F env)\<^sup>*\<^sup>* s t"
  by (induction rule: rtranclp_induct) (auto intro: rtranclp.rtrancl_into_rtrancl S_register)

text \<open>
  A cache of 100 bytes, one absent object of 16 bytes registered at address 7, and the
  pager at the start of its walk.
\<close>

definition demo_ds :: "owner option \<Rightarrow> dswap" where
  "demo_ds m = \<lparr>cache_size = 100, object_addrs_mut = m, object_refs = [ObjRef_new 7 16],
     object_addrs = [7], dynamic_manager_running = True, available_mem = 100, swap_threshold = 10\<rparr>"

definition demo_sys :: "(addr list) sys" where
  "demo_sys = \<lparr>ds = demo_ds (Some Pager), far = [], ppc = P_Iter [ObjRef_new 7 16], mpc = M_Sleep, rpc = (\<lambda>_. R_Idle)\<rparr>"

lemma threshold_100: "threshold_of 100 = 10"
proof -
  have "unat (threshold_of 100) = unat (10 :: u64)"
    using swap_threshold_is_a_tenth_core [of 100 dswap_static]
    by (simp add: init_dynamic_pager_def Let_def)
  then show ?thesis by (simp only: word_unat_eq_iff)
qed

lemma demo_reachable: "dswap_reach listed_far env [] demo_sys"
proof -
  define d where "d = init_dynamic_pager 100 dswap_static"
  define e where "e = mut_unlock (push_addr 7 (push_ref 7 16 (d\<lparr>object_addrs_mut := Some (Registrar 0)\<rparr>)))"
  define s1 :: "(addr list) sys" where
    "s1 = \<lparr>ds = d, far = [], ppc = P_Test, mpc = M_Test, rpc = (\<lambda>_. R_Idle)\<rparr>"
  have 1: "dswap_step listed_far env (sys_start []) s1"
    using S_init [of "sys_start []" listed_far env 100] by (simp add: sys_start_def s1_def d_def)
  have 2: "(dswap_step listed_far env)\<^sup>*\<^sup>* s1 (s1\<lparr>ds := e\<rparr>)"
    by (intro register_runs [of 0] register_run [of _ _ 7 16 0])
       (simp_all add: s1_def e_def register_object_def mut_lock_def d_def dswap_static_def init_dynamic_pager_def Let_def)
  have 3: "dswap_step listed_far env (s1\<lparr>ds := e\<rparr>) (s1\<lparr>ds := e, mpc := M_Lock\<rparr>)"
    using M_run [of "s1\<lparr>ds := e\<rparr>" listed_far]
    by (intro S_memory) (simp add: s1_def e_def d_def dswap_defs)
  have "dynamic_memory_pass listed_far [] e = demo_ds None"
    by (simp add: e_def d_def dynamic_memory_pass_def demo_ds_def dswap_defs dswap_static_def
        listed_far_def threshold_100)
  then have 4: "(dswap_step listed_far env)\<^sup>*\<^sup>* (s1\<lparr>ds := e, mpc := M_Lock\<rparr>)
      (s1\<lparr>ds := demo_ds None, mpc := M_Sleep\<rparr>)"
    using memory_pass_run [of "s1\<lparr>ds := e, mpc := M_Lock\<rparr>" listed_far]
    by (intro memory_runs) (simp add: s1_def e_def d_def dswap_defs)
  have 5: "dswap_step listed_far env (s1\<lparr>ds := demo_ds None, mpc := M_Sleep\<rparr>)
      (s1\<lparr>ds := demo_ds None, mpc := M_Sleep, ppc := P_Lock\<rparr>)"
    using P_run [of "s1\<lparr>ds := demo_ds None, mpc := M_Sleep\<rparr>" listed_far]
    by (intro S_pager) (simp add: s1_def demo_ds_def)
  have 6: "dswap_step listed_far env (s1\<lparr>ds := demo_ds None, mpc := M_Sleep, ppc := P_Lock\<rparr>) demo_sys"
    using P_lock [of "s1\<lparr>ds := demo_ds None, mpc := M_Sleep, ppc := P_Lock\<rparr>" "demo_ds (Some Pager)" listed_far]
    by (intro S_pager) (simp add: s1_def demo_ds_def demo_sys_def mut_lock_def)
  have "(dswap_step listed_far env)\<^sup>*\<^sup>* (sys_start []) (s1\<lparr>ds := e\<rparr>)"
    using 1 2 by (rule converse_rtranclp_into_rtranclp)
  also have "(dswap_step listed_far env)\<^sup>*\<^sup>* (s1\<lparr>ds := e\<rparr>) (s1\<lparr>ds := demo_ds None, mpc := M_Sleep\<rparr>)"
    using 3 4 by (rule converse_rtranclp_into_rtranclp)
  also have "(dswap_step listed_far env)\<^sup>*\<^sup>* (s1\<lparr>ds := demo_ds None, mpc := M_Sleep\<rparr>) demo_sys"
    using 5 6 by (meson converse_rtranclp_into_rtranclp r_into_rtranclp)
  finally show ?thesis by (simp add: dswap_reach_def)
qed

definition stopped_demo :: "(addr list) sys" where
  "stopped_demo = demo_sys\<lparr>ds := stop_dynamic_pager (demo_ds (Some Pager))\<rparr>"

lemma stopped_demo_reachable: "dswap_reach listed_far env [] stopped_demo"
proof -
  have "dswap_step listed_far env demo_sys stopped_demo"
    using S_stop [of listed_far env demo_sys] by (simp add: stopped_demo_def demo_sys_def)
  with demo_reachable [of env] show ?thesis
    unfolding dswap_reach_def by (rule rtranclp.rtrancl_into_rtrancl)
qed

lemma stopped_demo_swaps: "pager_step listed_far stopped_demo (stopped_demo\<lparr>far := [7], ppc := P_Iter []\<rparr>)"
  by (rule P_swap [where r = "ObjRef_new 7 16"])
     (simp_all add: stopped_demo_def demo_sys_def demo_ds_def stop_dynamic_pager_def ObjRef_new_def listed_far_def)

text \<open>
  C38 (stop does not wait): clearing the flag does not end a pass under way. There is a
  reachable state, with the flag already cleared, in which the pager's next step swaps an
  object in.
\<close>

theorem stop_does_not_wait:
  "\<exists>s s'. dswap_reach listed_far (\<lambda>_ _. False) [] s \<and> \<not> dynamic_manager_running (ds s) \<and>
     pager_step listed_far s s' \<and> \<not> fo_is_present listed_far 7 (far s) \<and> fo_is_present listed_far 7 (far s')"
proof (intro exI conjI)
  show "dswap_reach listed_far (\<lambda>_ _. False) [] stopped_demo" by (rule stopped_demo_reachable)
  show "pager_step listed_far stopped_demo (stopped_demo\<lparr>far := [7], ppc := P_Iter []\<rparr>)"
    by (rule stopped_demo_swaps)
qed (simp_all add: stopped_demo_def demo_sys_def demo_ds_def stop_dynamic_pager_def listed_far_def)

section \<open>Instances\<close>

theorem registry_protected_witness:
  "in_section demo_sys Pager \<and> \<not> in_section demo_sys Memory \<and>
   suffix [ObjRef_new 7 16] (object_refs (ds demo_sys))"
  using registry_protected [OF demo_reachable [of "\<lambda>_ _. False"], of Memory Pager]
  by (auto simp: demo_sys_def in_section_def)

theorem budget_frozen_during_pass_witness:
  "available_mem (ds (stopped_demo\<lparr>far := [7], ppc := P_Iter []\<rparr>)) = available_mem (ds stopped_demo)"
proof -
  have "ppc stopped_demo = P_Iter [ObjRef_new 7 16]" by (simp add: stopped_demo_def demo_sys_def)
  from budget_frozen_during_pass [OF stopped_demo_reachable [of "\<lambda>_ _. False"] S_pager [OF stopped_demo_swaps] this]
  show ?thesis by blast
qed

theorem registry_append_only_witness:
  "prefix (object_refs (ds (sys_start ([] :: addr list)))) (object_refs (ds demo_sys)) \<and> object_refs (ds demo_sys) \<noteq> []"
  using registry_append_only [OF demo_reachable [of "\<lambda>_ _. False", unfolded dswap_reach_def]]
  by (simp add: demo_sys_def demo_ds_def)



end
