(* ===== verification/Fm_Region.thy ===== *)
theory Fm_Region
  imports Fm_Prelude
begin

text \<open>
  Regions (\<^verbatim>\<open>aifm_changes/region.hpp\<close>) and the circular buffers of regions. The bodies of
  the region's methods and the buffer are not part of the repository: they are the
  parameters \<open>region_ops\<close> and \<open>cb_ops\<close>, and what the manager relies on is the locale
  \<open>region_env\<close>. A region store with a ring buffer, written from the documented layout
  of the header, shows that the laws can hold.
\<close>

section \<open>Constants\<close>

text \<open>\<^verbatim>\<open>helpers.hpp\<close>\<close>

definition kPageShift :: nat where "kPageShift = 12"
definition kPageSize :: nat where "kPageSize = 2 ^ kPageShift"
definition kHugepageShift :: nat where "kHugepageShift = 21"
definition kHugepageSize :: nat where "kHugepageSize = 2 ^ kHugepageShift"
definition kNumCPUs :: nat where "kNumCPUs = 20"
definition kNumSocket1CPUs :: nat where "kNumSocket1CPUs = 2"

text \<open>\<^verbatim>\<open>region.hpp\<close>\<close>

definition kRefCntPos :: nat where "kRefCntPos = 0"
definition kRefCntSize :: nat where "kRefCntSize = 4"
definition kNtPos :: nat where "kNtPos = 4"
definition kNtSize :: nat where "kNtSize = 1"
definition kShift :: nat where "kShift = 10"
definition kSize :: nat where "kSize = 2 ^ kShift"
definition kGCParallelism :: nat where "kGCParallelism = 2"
definition kInvalidIdx :: u32 where "kInvalidIdx = - 1"
definition kHeaderSize :: nat where "kHeaderSize = 6"
definition kObjectPos :: nat where "kObjectPos = kHeaderSize"

lemmas region_constants = kRefCntPos_def kRefCntSize_def kNtPos_def kNtSize_def kShift_def kSize_def
  kGCParallelism_def kInvalidIdx_def kHeaderSize_def kObjectPos_def kNumCPUs_def kNumSocket1CPUs_def

section \<open>The class\<close>

record Region =
  first_free_byte_idx :: u32
  buf_ptr :: addr
  region_idx :: u32
  num_boundaries :: u8
  gc_boundaries :: "u32 list"

text \<open>
  The methods of \<^verbatim>\<open>region.hpp\<close> the manager calls. A method that touches the region's
  buffer reads or writes the local memory.
\<close>

record region_ops =
  rg_default :: Region
  rg_make :: "u32 \<Rightarrow> bool \<Rightarrow> bool \<Rightarrow> addr \<Rightarrow> heap \<Rightarrow> Region \<times> heap"
  rg_is_invalid :: "Region \<Rightarrow> bool"
  rg_is_local :: "Region \<Rightarrow> bool"
  rg_is_nt :: "Region \<Rightarrow> heap \<Rightarrow> bool"
  rg_set_nt :: "Region \<Rightarrow> heap \<Rightarrow> Region \<times> heap"
  rg_reset :: "Region \<Rightarrow> heap \<Rightarrow> Region \<times> heap"
  rg_is_gcable :: "Region \<Rightarrow> heap \<Rightarrow> bool"
  rg_allocate_object :: "u16 \<Rightarrow> Region \<Rightarrow> heap \<Rightarrow> addr option \<times> Region \<times> heap"
  rg_get_num_boundaries :: "Region \<Rightarrow> u8"
  rg_get_boundary :: "Region \<Rightarrow> u8 \<Rightarrow> addr \<times> addr"
  rg_atomic_inc_ref_cnt :: "addr \<Rightarrow> int \<Rightarrow> heap \<Rightarrow> heap"

text \<open>
  \<^verbatim>\<open>CircularBuffer<Region, false>\<close>. A push takes the region by reference: the second
  component of its result is what is left of the argument. A pop is given the current
  value of its out-parameter.
\<close>

record 'q cb_ops =
  cb_make :: "nat \<Rightarrow> 'q"
  cb_push_back :: "Region \<Rightarrow> 'q \<Rightarrow> bool \<times> Region \<times> 'q"
  cb_push_front :: "Region \<Rightarrow> 'q \<Rightarrow> bool \<times> Region \<times> 'q"
  cb_pop_front :: "Region \<Rightarrow> 'q \<Rightarrow> bool \<times> Region \<times> 'q"

section \<open>The contract\<close>

text \<open>
  Regions keep their index, and the index \<^verbatim>\<open>kInvalidIdx\<close> marks the invalid ones; an
  invalid region allocates nothing. A buffer is a bounded double-ended queue; pushing
  moves the region in and leaves an invalid one behind.
\<close>

locale region_env =
  fixes R :: region_ops and C :: "'q cb_ops"
    and items :: "'q \<Rightarrow> Region list" and capacity :: "'q \<Rightarrow> nat"
  assumes invalid_iff: "rg_is_invalid R r \<longleftrightarrow> region_idx r = kInvalidIdx"
    and make_idx: "region_idx (fst (rg_make R i l nt b h)) = i"
    and make_buf: "buf_ptr (fst (rg_make R i l nt b h)) = b"
    and set_nt_idx: "region_idx (fst (rg_set_nt R r h)) = region_idx r"
    and reset_idx: "region_idx (fst (rg_reset R r h)) = region_idx r"
    and alloc_idx: "rg_allocate_object R sz r h = (res, r', h') \<Longrightarrow> region_idx r' = region_idx r"
    and alloc_invalid: "rg_is_invalid R r \<Longrightarrow> rg_allocate_object R sz r h = (None, r, h)"
    and make_items: "items (cb_make C n) = []"
    and make_capacity: "n \<le> capacity (cb_make C n)"
    and push_back_room: "length (items q) < capacity q \<Longrightarrow> \<exists>r' q'. cb_push_back C r q = (True, r', q')
      \<and> items q' = items q @ [r] \<and> capacity q' = capacity q \<and> rg_is_invalid R r'"
    and push_back_full: "capacity q \<le> length (items q) \<Longrightarrow> \<not> fst (cb_push_back C r q)"
    and push_front_room: "length (items q) < capacity q \<Longrightarrow> \<exists>r' q'. cb_push_front C r q = (True, r', q')
      \<and> items q' = r # items q \<and> capacity q' = capacity q \<and> rg_is_invalid R r'"
    and pop_front_Nil: "items q = [] \<Longrightarrow> cb_pop_front C r q = (False, r, q)"
    and pop_front_Cons: "items q = x # xs \<Longrightarrow> \<exists>q'. cb_pop_front C r q = (True, x, q')
      \<and> items q' = xs \<and> capacity q' = capacity q"
    and items_bounded: "length (items q) \<le> capacity q"
begin

lemma pop_pushable:
  "items q = x # xs \<Longrightarrow> \<exists>q'. cb_pop_front C r q = (True, x, q') \<and> items q' = xs
     \<and> capacity q' = capacity q \<and> length (items q') < capacity q'"
  using pop_front_Cons [of q x xs r] items_bounded [of q] by force

lemma push_back_success:
  assumes "fst (cb_push_back C r q)"
  obtains r' q' where "cb_push_back C r q = (True, r', q')" "items q' = items q @ [r]"
    "capacity q' = capacity q" "rg_is_invalid R r'"
  using assms push_back_room [of q r] push_back_full [of q r] by (meson not_le)

end

section \<open>A region store and ring buffer after the documented layout\<close>

text \<open>
  The header of a local region: 4 bytes of reference count, the non-temporal flag, one
  reserved byte, then the objects. Objects are taken from \<^verbatim>\<open>first_free_byte_idx_\<close> upwards,
  in 8-byte steps, while they fit into \<^verbatim>\<open>kSize\<close>. Far regions have no buffer: their
  objects are numbered from the region's offset in the far memory. All objects of a region lie
  between two boundaries. A buffer is aligned to
  \<^verbatim>\<open>kSize\<close> and lies below \<open>2 ^ 46\<close>; on anything else the methods do nothing.
\<close>

definition invalidated :: "Region \<Rightarrow> Region" where
  "invalidated r = r\<lparr>region_idx := kInvalidIdx\<rparr>"

definition bump_size :: "u16 \<Rightarrow> nat" where
  "bump_size sz = (unat sz + 7) div 8 * 8"

definition ref_cnt_addr :: "addr \<Rightarrow> addr" where
  "ref_cnt_addr a = (a div of_nat kSize) * of_nat kSize"

definition buf_ok :: "addr \<Rightarrow> bool" where
  "buf_ok b \<longleftrightarrow> b \<noteq> 0 \<and> unat b mod kSize = 0 \<and> unat b < 2 ^ 46"

definition wr_header :: "heap \<Rightarrow> addr \<Rightarrow> nat \<Rightarrow> u8 list \<Rightarrow> heap" where
  "wr_header h b i bs = (if buf_ok b then wr_bytes h (b + of_nat i) bs else h)"

definition region_base :: "Region \<Rightarrow> addr" where
  "region_base r = (if buf_ptr r = 0 then of_nat (unat (region_idx r) * kSize) else buf_ptr r)"

definition layout_regions :: region_ops where
  "layout_regions = \<lparr>
     rg_default = \<lparr>first_free_byte_idx = of_nat kObjectPos, buf_ptr = 0, region_idx = kInvalidIdx,
       num_boundaries = 0, gc_boundaries = [0, 0]\<rparr>,
     rg_make = (\<lambda>i l nt b h. (\<lparr>first_free_byte_idx = of_nat kObjectPos, buf_ptr = b, region_idx = i,
       num_boundaries = 0, gc_boundaries = [0, 0]\<rparr>,
       if l then wr_header h b 0 [0, 0, 0, 0, if nt then 1 else 0] else h)),
     rg_is_invalid = (\<lambda>r. region_idx r = kInvalidIdx),
     rg_is_local = (\<lambda>r. buf_ptr r \<noteq> 0),
     rg_is_nt = (\<lambda>r h. h (buf_ptr r + of_nat kNtPos) \<noteq> 0),
     rg_set_nt = (\<lambda>r h. (r, wr_header h (buf_ptr r) kNtPos [1])),
     rg_reset = (\<lambda>r h. (r\<lparr>first_free_byte_idx := of_nat kObjectPos, num_boundaries := 0\<rparr>,
       wr_header h (buf_ptr r) 0 [0, 0, 0, 0, 0])),
     rg_is_gcable = (\<lambda>r h. h (buf_ptr r + of_nat kRefCntPos) = 0),
     rg_allocate_object = (\<lambda>sz r h.
       if region_idx r = kInvalidIdx \<or> \<not> (buf_ptr r = 0 \<or> buf_ok (buf_ptr r))
         \<or> unat (first_free_byte_idx r) < kHeaderSize
         \<or> num_boundaries r \<noteq> (if first_free_byte_idx r = of_nat kObjectPos then 0 else 1) \<or> kSize \<le> unat (first_free_byte_idx r) \<or> kSize < unat (first_free_byte_idx r) + bump_size sz
       then (None, r, h)
       else (Some (region_base r + ucast (first_free_byte_idx r)),
         r\<lparr>first_free_byte_idx := first_free_byte_idx r + of_nat (bump_size sz), num_boundaries := 1\<rparr>,
         wr_header h (buf_ptr r) 0 [h (buf_ptr r) + 1])),
     rg_get_num_boundaries = num_boundaries,
     rg_get_boundary = (\<lambda>r j. (region_base r + of_nat kObjectPos, region_base r + ucast (first_free_byte_idx r))),
     rg_atomic_inc_ref_cnt = (\<lambda>a d h. wr_bytes h (ref_cnt_addr a) [h (ref_cnt_addr a) + word_of_int d])\<rparr>"

text \<open>
  The ring: cells indexed modulo the capacity from a head, and a count.
\<close>

record ring =
  ring_cells :: "nat \<Rightarrow> Region"
  ring_head :: nat
  ring_cnt :: nat
  ring_cap :: nat

definition ring_size :: "ring \<Rightarrow> nat" where
  "ring_size q = min (ring_cnt q) (ring_cap q)"

definition ring_items :: "ring \<Rightarrow> Region list" where
  "ring_items q = map (\<lambda>i. ring_cells q ((ring_head q + i) mod ring_cap q)) [0..<ring_size q]"

definition ring_push_back :: "Region \<Rightarrow> ring \<Rightarrow> bool \<times> Region \<times> ring" where
  "ring_push_back r q =
     (if ring_size q < ring_cap q
      then (True, invalidated r, q\<lparr>ring_cells := (ring_cells q)((ring_head q + ring_size q) mod ring_cap q := r),
              ring_cnt := Suc (ring_size q)\<rparr>)
      else (False, r, q))"

definition ring_push_front :: "Region \<Rightarrow> ring \<Rightarrow> bool \<times> Region \<times> ring" where
  "ring_push_front r q =
     (if ring_size q < ring_cap q
      then (let h = (ring_head q + ring_cap q - 1) mod ring_cap q
        in (True, invalidated r, q\<lparr>ring_cells := (ring_cells q)(h := r), ring_head := h, ring_cnt := Suc (ring_size q)\<rparr>))
      else (False, r, q))"

definition ring_pop_front :: "Region \<Rightarrow> ring \<Rightarrow> bool \<times> Region \<times> ring" where
  "ring_pop_front r q =
     (if ring_size q = 0 then (False, r, q)
      else (True, ring_cells q (ring_head q mod ring_cap q),
        q\<lparr>ring_head := (ring_head q + 1) mod ring_cap q, ring_cnt := ring_size q - 1\<rparr>))"

text \<open>A buffer is made with room for 64 more regions than asked for.\<close>

definition ring_ops :: "ring cb_ops" where
  "ring_ops = \<lparr>
     cb_make = (\<lambda>n. \<lparr>ring_cells = (\<lambda>_. rg_default layout_regions), ring_head = 0, ring_cnt = 0, ring_cap = n + 64\<rparr>),
     cb_push_back = ring_push_back, cb_push_front = ring_push_front, cb_pop_front = ring_pop_front\<rparr>"

lemma length_ring_items [simp]: "length (ring_items q) = ring_size q"
  by (simp add: ring_items_def)

lemma mod_add_inj_le:
  fixes a i j c :: nat
  assumes "i \<le> j" and "j < c" and "(a + i) mod c = (a + j) mod c"
  shows "i = j"
proof -
  have "c dvd (a + j) - (a + i)" using assms by (metis mod_eq_dvd_iff_nat add_le_cancel_left)
  then have "c dvd j - i" by simp
  then show ?thesis using assms(1,2) by (metis diff_is_0_eq dvd_imp_le less_imp_diff_less linorder_not_less
        order.antisym zero_less_iff_neq_zero)
qed

lemma mod_add_inj:
  fixes a i j c :: nat
  shows "i < c \<Longrightarrow> j < c \<Longrightarrow> (a + i) mod c = (a + j) mod c \<longleftrightarrow> i = j"
  by (metis mod_add_inj_le nat_le_linear)

lemma ring_push_back_items:
  assumes "ring_size q < ring_cap q"
  shows "\<exists>r' q'. ring_push_back r q = (True, r', q') \<and> ring_items q' = ring_items q @ [r]
    \<and> ring_cap q' = ring_cap q \<and> region_idx r' = kInvalidIdx"
proof -
  let ?k = "(ring_head q + ring_size q) mod ring_cap q"
  let ?q = "q\<lparr>ring_cells := (ring_cells q)(?k := r), ring_cnt := Suc (ring_size q)\<rparr>"
  have "(ring_head q + i) mod ring_cap q \<noteq> ?k" if "i < ring_size q" for i
    using that assms by (simp add: mod_add_inj)
  moreover have "ring_size ?q = Suc (ring_size q)" using assms by (simp add: ring_size_def)
  ultimately have "ring_items ?q = ring_items q @ [r]"
    by (simp add: ring_items_def)
  then show ?thesis using assms by (simp add: ring_push_back_def invalidated_def)
qed

lemma ring_push_front_items:
  assumes "ring_size q < ring_cap q"
  shows "\<exists>r' q'. ring_push_front r q = (True, r', q') \<and> ring_items q' = r # ring_items q
    \<and> ring_cap q' = ring_cap q \<and> region_idx r' = kInvalidIdx"
proof -
  let ?c = "ring_cap q"
  let ?h = "(ring_head q + ?c - 1) mod ?c"
  let ?q = "q\<lparr>ring_cells := (ring_cells q)(?h := r), ring_head := ?h, ring_cnt := Suc (ring_size q)\<rparr>"
  have c: "0 < ?c" using assms by simp
  have shift: "(?h + Suc i) mod ?c = (ring_head q + i) mod ?c" for i
  proof -
    have "(?h + Suc i) mod ?c = (ring_head q + ?c - 1 + Suc i) mod ?c"
      by (simp only: mod_add_left_eq)
    also have "ring_head q + ?c - 1 + Suc i = ring_head q + i + ?c" using c by simp
    finally show ?thesis by simp
  qed
  have "(ring_head q + i) mod ?c \<noteq> ?h" if "i < ring_size q" for i
    using mod_add_inj [of "Suc i" ?c 0 ?h] that assms shift [of i] by simp
  moreover have "ring_size ?q = Suc (ring_size q)" using assms by (simp add: ring_size_def)
  ultimately have "ring_items ?q = r # ring_items q"
    using shift by (simp add: ring_items_def map_upt_Suc del: upt_Suc)
  then show ?thesis using assms by (simp add: ring_push_front_def invalidated_def Let_def)
qed

lemma ring_pop_front_items:
  assumes "ring_items q = x # xs"
  shows "\<exists>q'. ring_pop_front r q = (True, x, q') \<and> ring_items q' = xs \<and> ring_cap q' = ring_cap q"
proof -
  let ?q = "q\<lparr>ring_head := (ring_head q + 1) mod ring_cap q, ring_cnt := ring_size q - 1\<rparr>"
  obtain n where n: "ring_size q = Suc n"
    using assms length_ring_items [of q] by (cases "ring_size q") auto
  have "ring_items q = ring_cells q (ring_head q mod ring_cap q)
      # map (\<lambda>i. ring_cells q ((ring_head q + Suc i) mod ring_cap q)) [0..<n]"
    by (simp add: ring_items_def n map_upt_Suc del: upt_Suc)
  moreover have "ring_size ?q = n" using n by (simp add: ring_size_def)
  ultimately have "x = ring_cells q (ring_head q mod ring_cap q)" "ring_items ?q = xs"
    using assms by (simp_all add: ring_items_def mod_simps)
  then show ?thesis using n by (simp add: ring_pop_front_def)
qed

interpretation ring_regions: region_env layout_regions ring_ops ring_items ring_cap
proof unfold_locales
  show "length (ring_items q) < ring_cap q \<Longrightarrow> \<exists>r' q'. cb_push_back ring_ops r q = (True, r', q') \<and>
      ring_items q' = ring_items q @ [r] \<and> ring_cap q' = ring_cap q \<and> rg_is_invalid layout_regions r'" for q r
    using ring_push_back_items [of q r] by (simp add: ring_ops_def layout_regions_def)
  show "length (ring_items q) < ring_cap q \<Longrightarrow> \<exists>r' q'. cb_push_front ring_ops r q = (True, r', q') \<and>
      ring_items q' = r # ring_items q \<and> ring_cap q' = ring_cap q \<and> rg_is_invalid layout_regions r'" for q r
    using ring_push_front_items [of q r] by (simp add: ring_ops_def layout_regions_def)
  show "ring_items q = x # xs \<Longrightarrow> \<exists>q'. cb_pop_front ring_ops r q = (True, x, q') \<and>
      ring_items q' = xs \<and> ring_cap q' = ring_cap q" for q r x xs
    using ring_pop_front_items [of q x xs r] by (simp add: ring_ops_def)
  show "ring_items q = [] \<Longrightarrow> cb_pop_front ring_ops r q = (False, r, q)" for q r
    using length_ring_items [of q] by (simp add: ring_ops_def ring_pop_front_def)
  show "rg_allocate_object layout_regions sz r h = (res, r', h') \<Longrightarrow> region_idx r' = region_idx r" for sz r h res r' h'
    by (auto simp: layout_regions_def split: if_splits)
qed (auto simp: layout_regions_def ring_ops_def ring_push_back_def ring_items_def ring_size_def)

end
