(* ===== verification/Fm_RegionManager.thy ===== *)
theory Fm_RegionManager
  imports Fm_Region Fm_Double "HOL-Library.Multiset"
begin

text \<open>
  \<^verbatim>\<open>FarMemManager::RegionManager\<close> of \<^verbatim>\<open>aifm_changes/manager.cpp\<close>: the constructor, the
  free, used and non-temporal used queues, and the per-core regions objects are
  allocated from. One manager holds the local cache, another one the far memory.
\<close>

section \<open>State\<close>

record 'q RegionManager =
  region_spin :: bool
  free_regions :: 'q
  used_regions :: 'q
  nt_used_regions :: 'q
  core_local_free_regions :: "nat \<Rightarrow> Region"
  core_local_free_nt_regions :: "nat \<Rightarrow> Region"
  local_cache_ptr :: addr

text \<open>
  A reference to a per-core region. Which one \<^verbatim>\<open>core_local_free_region(nt)\<close> returns on the
  running core is decided by an inline function outside the repository: the operations
  take it as \<open>cl :: bool \<Rightarrow> slot\<close>.
\<close>

datatype slot = Slot nat | Nt_Slot nat

fun get_slot :: "'q RegionManager \<Rightarrow> slot \<Rightarrow> Region" where
  "get_slot m (Slot c) = core_local_free_regions m c"
| "get_slot m (Nt_Slot c) = core_local_free_nt_regions m c"

fun set_slot :: "'q RegionManager \<Rightarrow> slot \<Rightarrow> Region \<Rightarrow> 'q RegionManager" where
  "set_slot m (Slot c) r = m\<lparr>core_local_free_regions := (core_local_free_regions m)(c := r)\<rparr>"
| "set_slot m (Nt_Slot c) r = m\<lparr>core_local_free_nt_regions := (core_local_free_nt_regions m)(c := r)\<rparr>"

definition spin_lock :: "'q RegionManager \<Rightarrow> 'q RegionManager" where
  "spin_lock m = m\<lparr>region_spin := True\<rparr>"

definition spin_unlock :: "'q RegionManager \<Rightarrow> 'q RegionManager" where
  "spin_unlock m = m\<lparr>region_spin := False\<rparr>"

section \<open>Returning and taking regions\<close>

definition push_free_region ::
  "region_ops \<Rightarrow> 'q cb_ops \<Rightarrow> Region \<Rightarrow> heap \<Rightarrow> 'q RegionManager \<Rightarrow> fm_error + (Region \<times> heap \<times> 'q RegionManager)" where
  "push_free_region R C region h m =
     (let m = spin_lock m;
          (region, h) = rg_reset R region h;
          (ok, region, q) = cb_push_back C region (free_regions m)
      in if \<not> ok then Inl Bug_On
         else Inr (region, h, spin_unlock (m\<lparr>free_regions := q\<rparr>)))"

text \<open>
  One of the two retry loops of \<^verbatim>\<open>pop_used_region\<close>: take the front region, put it back
  with \<open>put_back\<close> while it cannot be collected, at most \<open>K + 2\<close> times. The reference
  counts change while the loop runs, so the \<open>t\<close>-th look at a region sees the memory
  \<open>seen t\<close>.
\<close>

function pick_retry ::
  "region_ops \<Rightarrow> 'q cb_ops \<Rightarrow> (Region \<Rightarrow> 'q \<Rightarrow> bool \<times> Region \<times> 'q) \<Rightarrow> nat \<Rightarrow> (nat \<Rightarrow> heap) \<Rightarrow>
   nat \<Rightarrow> nat \<Rightarrow> Region \<Rightarrow> 'q \<Rightarrow> bool \<times> Region \<times> 'q \<times> nat" where
  "pick_retry R C put_back K seen retry_times t region q =
     (case cb_pop_front C region q of (success, region, q) \<Rightarrow>
        if success \<and> \<not> rg_is_gcable R region (seen t) then
          (case put_back region q of (_, region, q) \<Rightarrow>
             if retry_times \<le> K
             then pick_retry R C put_back K seen (Suc retry_times) (Suc t) region q
             else (False, region, q, Suc t))
        else (success, region, q, Suc t))"
  by pat_completeness auto
termination
  by (relation "measure (\<lambda>(R, C, put_back, K, seen, retry_times, t, region, q). Suc K - retry_times)") auto

declare pick_retry.simps [simp del]

definition pop_used_region ::
  "region_ops \<Rightarrow> 'q cb_ops \<Rightarrow> nat \<Rightarrow> (nat \<Rightarrow> heap) \<Rightarrow> 'q RegionManager \<Rightarrow> Region option \<times> 'q RegionManager" where
  "pop_used_region R C K seen m =
     (let region = rg_default R;
          m = spin_lock m;
          (success, region, nt_q, t) = pick_retry R C (cb_push_back C) K seen 0 0 region (nt_used_regions m);
          m = m\<lparr>nt_used_regions := nt_q\<rparr>;
          (success, region, m) =
            (if \<not> success then
               (let (success, region, q, t) = pick_retry R C (cb_push_front C) K seen 0 t region (used_regions m)
                in (success, region, m\<lparr>used_regions := q\<rparr>))
             else (success, region, m));
          m = spin_unlock m
      in (if success then Some region else None, m))"

text \<open>
  \<^verbatim>\<open>try_refill_core_local_free_region\<close>. Every call in the repository passes one of the
  per-core regions as \<^verbatim>\<open>full_region\<close>; \<open>None\<close> is the null pointer.
\<close>

definition retire_region ::
  "region_ops \<Rightarrow> 'q cb_ops \<Rightarrow> slot \<Rightarrow> heap \<Rightarrow> 'q RegionManager \<Rightarrow> fm_error + 'q RegionManager" where
  "retire_region R C full h m =
     (let r = get_slot m full
      in if rg_is_invalid R r then Inr m
         else if rg_is_local R r \<and> rg_is_nt R r h then
           (let (success, r, q) = cb_push_back C r (nt_used_regions m)
            in if \<not> success then Inl Bug_On else Inr (set_slot (m\<lparr>nt_used_regions := q\<rparr>) full r))
         else
           (let (success, r, q) = cb_push_back C r (used_regions m)
            in if \<not> success then Inl Bug_On else Inr (set_slot (m\<lparr>used_regions := q\<rparr>) full r)))"

definition try_refill_core_local_free_region ::
  "region_ops \<Rightarrow> 'q cb_ops \<Rightarrow> (bool \<Rightarrow> slot) \<Rightarrow> bool \<Rightarrow> slot option \<Rightarrow> heap \<Rightarrow> 'q RegionManager \<Rightarrow>
   fm_error + (bool \<times> heap \<times> 'q RegionManager)" where
  "try_refill_core_local_free_region R C cl nt full_region h m =
     (case (case full_region of None \<Rightarrow> Inr (spin_lock m) | Some full \<Rightarrow> retire_region R C full h (spin_lock m)) of
        Inl e \<Rightarrow> Inl e
      | Inr m \<Rightarrow>
          (let core_local_region = get_slot m (cl nt)
           in if rg_is_invalid R core_local_region then
                (let (success, r, q) = cb_pop_front C core_local_region (free_regions m);
                     (r, h) = (if nt then rg_set_nt R r h else (r, h))
                 in Inr (success, h, spin_unlock (set_slot (m\<lparr>free_regions := q\<rparr>) (cl nt) r)))
              else Inr (True, h, spin_unlock m)))"

section \<open>The constructor\<close>

definition free_regions_count :: "u64 \<Rightarrow> double" where
  "free_regions_count sz = double_ceil (double_div (u64_to_double sz) (of_nat kSize))"

definition new_region :: "region_ops \<Rightarrow> bool \<Rightarrow> addr \<Rightarrow> bool \<Rightarrow> u32 \<Rightarrow> heap \<Rightarrow> Region \<times> u32 \<times> heap" where
  "new_region R is_local base nt idx h =
     (let buf = (if is_local then base + ucast idx * of_nat kSize else 0);
          (r, h) = rg_make R idx is_local nt buf h
      in (r, idx + 1, h))"

fun init_core_regions ::
  "region_ops \<Rightarrow> bool \<Rightarrow> addr \<Rightarrow> nat list \<Rightarrow> u32 \<Rightarrow> heap \<Rightarrow> 'q RegionManager \<Rightarrow> u32 \<times> heap \<times> 'q RegionManager" where
  "init_core_regions R is_local base [] idx h m = (idx, h, m)"
| "init_core_regions R is_local base (core_id # cores) idx h m =
     (let (r, idx, h) = new_region R is_local base False idx h;
          m = set_slot m (Slot core_id) r;
          (r, idx, h) = new_region R is_local base True idx h;
          m = set_slot m (Nt_Slot core_id) r
      in init_core_regions R is_local base cores idx h m)"

fun init_free_regions ::
  "region_ops \<Rightarrow> 'q cb_ops \<Rightarrow> bool \<Rightarrow> addr \<Rightarrow> nat \<Rightarrow> u32 \<Rightarrow> heap \<Rightarrow> 'q RegionManager \<Rightarrow>
   fm_error + (u32 \<times> heap \<times> 'q RegionManager)" where
  "init_free_regions R C is_local base 0 idx h m = Inr (idx, h, m)"
| "init_free_regions R C is_local base (Suc n) idx h m =
     (let (r, idx, h) = new_region R is_local base False idx h;
          (ok, r, q) = cb_push_back C r (free_regions m)
      in if \<not> ok then Inl Bug_On
         else init_free_regions R C is_local base n idx h (m\<lparr>free_regions := q\<rparr>))"

text \<open>
  \<open>hugepage\<close> is \<^verbatim>\<open>helpers::allocate_hugepage\<close>; the per-core regions start as default
  constructed ones.
\<close>

definition RegionManager_ctor ::
  "region_ops \<Rightarrow> 'q cb_ops \<Rightarrow> (u64 \<Rightarrow> addr) \<Rightarrow> u64 \<Rightarrow> bool \<Rightarrow> heap \<Rightarrow> fm_error + ('q RegionManager \<times> heap)" where
  "RegionManager_ctor R C hugepage sz is_local h =
     (let count = free_regions_count sz
      in if count \<le> of_nat (2 * kNumSocket1CPUs) then Inl Exit_ENOSPC
         else
           (let m = \<lparr>region_spin = False,
                  free_regions = cb_make C (nat \<lfloor>count\<rfloor>),
                  used_regions = cb_make C (nat \<lfloor>count\<rfloor>),
                  nt_used_regions = cb_make C (nat \<lfloor>count\<rfloor>),
                  core_local_free_regions = (\<lambda>_. rg_default R),
                  core_local_free_nt_regions = (\<lambda>_. rg_default R),
                  local_cache_ptr = (if is_local then hugepage (double_to_u64 (double_mult count (of_nat kSize))) else 0)\<rparr>;
                base = local_cache_ptr m;
                count = double_sub count (of_nat (2 * kNumSocket1CPUs));
                (idx, h, m) = init_core_regions R is_local base [0..<kNumCPUs] 0 h m
            in case init_free_regions R C is_local base (nat \<lceil>count\<rceil>) idx h m of
                 Inl e \<Rightarrow> Inl e
               | Inr (idx, h, m) \<Rightarrow> Inr (m, h)))"

section \<open>Who owns a region\<close>

fun slot_core :: "slot \<Rightarrow> nat" where
  "slot_core (Slot c) = c"
| "slot_core (Nt_Slot c) = c"

definition core_regions :: "'q RegionManager \<Rightarrow> Region multiset" where
  "core_regions m = mset (map (core_local_free_regions m) [0..<kNumCPUs])
     + mset (map (core_local_free_nt_regions m) [0..<kNumCPUs])"

definition owned_regions :: "('q \<Rightarrow> Region list) \<Rightarrow> 'q RegionManager \<Rightarrow> Region multiset" where
  "owned_regions items m = mset (items (free_regions m)) + mset (items (used_regions m))
     + mset (items (nt_used_regions m)) + core_regions m"

definition valid_ids :: "region_ops \<Rightarrow> Region multiset \<Rightarrow> u32 multiset" where
  "valid_ids R M = image_mset region_idx (filter_mset (\<lambda>r. \<not> rg_is_invalid R r) M)"

text \<open>The indices of the valid regions a manager holds, with multiplicity.\<close>

definition region_ids :: "region_ops \<Rightarrow> ('q \<Rightarrow> Region list) \<Rightarrow> 'q RegionManager \<Rightarrow> u32 multiset" where
  "region_ids R items m = valid_ids R (owned_regions items m)"

text \<open>
  \<open>rm_ok\<close>: the queues hold valid regions only, and each queue has room for all of the
  \<open>N\<close> regions in circulation. A manager at rest also has its spin lock free.
\<close>

definition rm_ok :: "region_ops \<Rightarrow> ('q \<Rightarrow> Region list) \<Rightarrow> ('q \<Rightarrow> nat) \<Rightarrow> nat \<Rightarrow> 'q RegionManager \<Rightarrow> bool" where
  "rm_ok R items capacity N m \<longleftrightarrow>
     list_all (\<lambda>r. \<not> rg_is_invalid R r) (items (free_regions m) @ items (used_regions m) @ items (nt_used_regions m))
     \<and> size (region_ids R items m) \<le> N
     \<and> N \<le> capacity (free_regions m) \<and> N \<le> capacity (used_regions m) \<and> N \<le> capacity (nt_used_regions m)"

definition rm_wf :: "region_ops \<Rightarrow> ('q \<Rightarrow> Region list) \<Rightarrow> ('q \<Rightarrow> nat) \<Rightarrow> nat \<Rightarrow> 'q RegionManager \<Rightarrow> bool" where
  "rm_wf R items capacity N m \<longleftrightarrow> \<not> region_spin m \<and> rm_ok R items capacity N m"

lemma valid_ids_simps [simp]:
  "valid_ids R {#} = {#}"
  "valid_ids R (M + N) = valid_ids R M + valid_ids R N"
  "valid_ids R (add_mset r M) = (if rg_is_invalid R r then valid_ids R M else add_mset (region_idx r) (valid_ids R M))"
  by (simp_all add: valid_ids_def)

lemma size_valid_ids_mset:
  "list_all (\<lambda>r. \<not> rg_is_invalid R r) xs \<Longrightarrow> size (valid_ids R (mset xs)) = length xs"
  by (induction xs) simp_all

lemma get_set_slot [simp]:
  "get_slot (set_slot m sl r) sl' = (if sl' = sl then r else get_slot m sl')"
  by (cases sl; cases sl') auto

lemma slot_frame [simp]:
  "region_spin (set_slot m sl r) = region_spin m"
  "free_regions (set_slot m sl r) = free_regions m"
  "used_regions (set_slot m sl r) = used_regions m"
  "nt_used_regions (set_slot m sl r) = nt_used_regions m"
  "local_cache_ptr (set_slot m sl r) = local_cache_ptr m"
  by (cases sl; simp)+

lemma get_slot_frame [simp]:
  "get_slot (m\<lparr>free_regions := q\<rparr>) sl = get_slot m sl"
  "get_slot (m\<lparr>used_regions := q\<rparr>) sl = get_slot m sl"
  "get_slot (m\<lparr>nt_used_regions := q\<rparr>) sl = get_slot m sl"
  "get_slot (m\<lparr>region_spin := b\<rparr>) sl = get_slot m sl"
  by (cases sl; simp)+

lemma core_regions_frame [simp]:
  "core_regions (m\<lparr>free_regions := q\<rparr>) = core_regions m"
  "core_regions (m\<lparr>used_regions := q\<rparr>) = core_regions m"
  "core_regions (m\<lparr>nt_used_regions := q\<rparr>) = core_regions m"
  "core_regions (m\<lparr>region_spin := b\<rparr>) = core_regions m"
  by (simp_all add: core_regions_def)

lemma mset_map_upd:
  assumes "c < n"
  shows "mset (map (f(c := r)) [0..<n]) + {#f c#} = mset (map f [0..<n]) + {#r#}"
proof -
  have split: "[0..<n] = [0..<c] @ c # [Suc c..<n]"
    using assms upt_add_eq_append [of 0 c "n - c"] by (simp add: upt_conv_Cons)
  have "map (f(c := r)) [0..<c] = map f [0..<c]" "map (f(c := r)) [Suc c..<n] = map f [Suc c..<n]"
    by simp_all
  then show ?thesis unfolding split by (simp del: fun_upd_apply add: fun_upd_same)
qed

lemma core_regions_set_slot:
  assumes "slot_core sl < kNumCPUs"
  shows "core_regions (set_slot m sl r) + {#get_slot m sl#} = core_regions m + {#r#}"
proof (cases sl)
  case (Slot c)
  then have "mset (map ((core_local_free_regions m)(c := r)) [0..<kNumCPUs]) + {#core_local_free_regions m c#}
      = mset (map (core_local_free_regions m) [0..<kNumCPUs]) + {#r#}"
    using assms by (intro mset_map_upd) simp
  then show ?thesis using Slot by (simp add: core_regions_def del: map_fun_upd fun_upd_apply)
next
  case (Nt_Slot c)
  then have "mset (map ((core_local_free_nt_regions m)(c := r)) [0..<kNumCPUs]) + {#core_local_free_nt_regions m c#}
      = mset (map (core_local_free_nt_regions m) [0..<kNumCPUs]) + {#r#}"
    using assms by (intro mset_map_upd) simp
  then show ?thesis using Nt_Slot by (simp add: core_regions_def del: map_fun_upd fun_upd_apply)
qed

lemma core_ids_set_slot:
  assumes "slot_core sl < kNumCPUs"
  shows "valid_ids R (core_regions (set_slot m sl r)) + valid_ids R {#get_slot m sl#}
    = valid_ids R (core_regions m) + valid_ids R {#r#}"
  using arg_cong [OF core_regions_set_slot [OF assms], of "valid_ids R" m r] by (simp only: valid_ids_simps(2))

lemma region_ids_split:
  "region_ids R items m = valid_ids R (mset (items (free_regions m))) + valid_ids R (mset (items (used_regions m)))
     + valid_ids R (mset (items (nt_used_regions m))) + valid_ids R (core_regions m)"
  by (simp add: region_ids_def owned_regions_def)

lemma spin_frame [simp]:
  "rm_ok R items capacity N (m\<lparr>region_spin := b\<rparr>) = rm_ok R items capacity N m"
  "region_ids R items (m\<lparr>region_spin := b\<rparr>) = region_ids R items m"
  by (simp_all add: rm_ok_def region_ids_split)

declare get_slot.simps [simp del] set_slot.simps [simp del]

context region_env
begin

lemma free_slot_room:
  assumes "rm_ok R items capacity N m" and "slot_core sl < kNumCPUs" and "\<not> rg_is_invalid R (get_slot m sl)"
  shows "length (items (used_regions m)) < N" and "length (items (nt_used_regions m)) < N"
    and "length (items (free_regions m)) < N"
proof -
  have inv: "rg_is_invalid R ((get_slot m sl)\<lparr>region_idx := kInvalidIdx\<rparr>)" by (simp add: invalid_iff)
  have "0 < size (valid_ids R (core_regions m))"
    using core_ids_set_slot [OF assms(2), of R m "(get_slot m sl)\<lparr>region_idx := kInvalidIdx\<rparr>"] assms(3) inv
    by (metis add_mset_not_empty empty_neutral(2) nonempty_has_size union_mset_add_mset_right valid_ids_simps(1) valid_ids_simps(3))
  moreover have "size (region_ids R items m) \<le> N" using assms(1) by (simp add: rm_ok_def)
  moreover have "size (region_ids R items m) = length (items (free_regions m)) + length (items (used_regions m))
      + length (items (nt_used_regions m)) + size (valid_ids R (core_regions m))"
    using assms(1) by (simp add: region_ids_split rm_ok_def size_valid_ids_mset)
  ultimately show "length (items (used_regions m)) < N" "length (items (nt_used_regions m)) < N"
    "length (items (free_regions m)) < N" by linarith+
qed

text \<open>Moving a valid region from a per-core slot to the back of a queue keeps every index.\<close>

lemma slot_to_queue:
  assumes "slot_core sl < kNumCPUs" and "rg_is_invalid R r'"
  shows "valid_ids R (core_regions (set_slot m sl r')) + valid_ids R {#get_slot m sl#} = valid_ids R (core_regions m)"
  using core_ids_set_slot [OF assms(1), of R m r'] assms(2) by simp

lemma retire_region_spec:
  assumes ok: "rm_ok R items capacity N m" and sl: "slot_core full < kNumCPUs"
  shows "\<exists>m'. retire_region R C full h m = Inr m' \<and> rm_ok R items capacity N m'
    \<and> region_ids R items m' = region_ids R items m \<and> free_regions m' = free_regions m
    \<and> region_spin m' = region_spin m \<and> rg_is_invalid R (get_slot m' full)
    \<and> (\<forall>s. s \<noteq> full \<longrightarrow> get_slot m' s = get_slot m s)"
proof (cases "rg_is_invalid R (get_slot m full)")
  case True
  then show ?thesis using ok by (simp add: retire_region_def)
next
  case False
  note room = free_slot_room [OF ok sl False]
  let ?r = "get_slot m full"
  have cap: "N \<le> capacity (used_regions m)" "N \<le> capacity (nt_used_regions m)"
    using ok by (simp_all add: rm_ok_def)
  show ?thesis
  proof (cases "rg_is_local R ?r \<and> rg_is_nt R ?r h")
    case True
    obtain r' q' where p: "cb_push_back C ?r (nt_used_regions m) = (True, r', q')"
        and q: "items q' = items (nt_used_regions m) @ [?r]" "capacity q' = capacity (nt_used_regions m)"
        and inv: "rg_is_invalid R r'"
      using push_back_room [of "nt_used_regions m" ?r] room cap by force
    let ?m = "set_slot (m\<lparr>nt_used_regions := q'\<rparr>) full r'"
    have ids: "region_ids R items ?m = region_ids R items m"
      using slot_to_queue [OF sl inv, of "m\<lparr>nt_used_regions := q'\<rparr>"] q False
      by (simp add: region_ids_split ac_simps)
    have "retire_region R C full h m = Inr ?m" using True False p by (simp add: retire_region_def)
    then show ?thesis using ok q inv ids False by (auto simp: rm_ok_def)
  next
    case nt: False
    obtain r' q' where p: "cb_push_back C ?r (used_regions m) = (True, r', q')"
        and q: "items q' = items (used_regions m) @ [?r]" "capacity q' = capacity (used_regions m)"
        and inv: "rg_is_invalid R r'"
      using push_back_room [of "used_regions m" ?r] room cap by force
    let ?m = "set_slot (m\<lparr>used_regions := q'\<rparr>) full r'"
    have ids: "region_ids R items ?m = region_ids R items m"
      using slot_to_queue [OF sl inv, of "m\<lparr>used_regions := q'\<rparr>"] q False
      by (simp add: region_ids_split ac_simps)
    have "retire_region R C full h m = Inr ?m" using nt False p by (auto simp: retire_region_def)
    then show ?thesis using ok q inv ids False by (auto simp: rm_ok_def)
  qed
qed

lemma take_free_spec:
  assumes ok: "rm_ok R items capacity N m" and sl: "slot_core (cl nt) < kNumCPUs"
    and inv: "rg_is_invalid R (get_slot m (cl nt))"
    and pop: "cb_pop_front C (get_slot m (cl nt)) (free_regions m) = (success, r, q)"
    and mark: "(if nt then rg_set_nt R r h else (r, h)) = (r', h')"
  shows "rm_ok R items capacity N (set_slot (m\<lparr>free_regions := q\<rparr>) (cl nt) r')
    \<and> region_ids R items (set_slot (m\<lparr>free_regions := q\<rparr>) (cl nt) r') = region_ids R items m
    \<and> (success \<longleftrightarrow> \<not> rg_is_invalid R r') \<and> (success \<longleftrightarrow> items (free_regions m) \<noteq> [])
    \<and> length (items q) = length (items (free_regions m)) - 1"
proof -
  let ?m = "set_slot (m\<lparr>free_regions := q\<rparr>) (cl nt) r'"
  have idx: "region_idx r' = region_idx r"
    using mark set_nt_idx [of r h] by (auto split: if_splits)
  have move: "valid_ids R (core_regions ?m) = valid_ids R (core_regions m) + valid_ids R {#r'#}"
    using core_ids_set_slot [OF sl, of R "m\<lparr>free_regions := q\<rparr>" r'] inv by simp
  show ?thesis
  proof (cases "items (free_regions m)")
    case Nil
    then have "success = False" "r = get_slot m (cl nt)" "q = free_regions m"
      using pop pop_front_Nil [of "free_regions m" "get_slot m (cl nt)"] by simp_all
    moreover have "rg_is_invalid R r'" using idx inv \<open>r = _\<close> by (simp add: invalid_iff)
    ultimately show ?thesis using ok move Nil by (simp add: rm_ok_def region_ids_split)
  next
    case (Cons x xs)
    then have s: "success" "r = x" "items q = xs" "capacity q = capacity (free_regions m)"
      using pop pop_front_Cons [of "free_regions m" x xs "get_slot m (cl nt)"] by auto
    moreover have x: "\<not> rg_is_invalid R x" using ok Cons by (simp add: rm_ok_def)
    ultimately have "\<not> rg_is_invalid R r'" using idx by (simp add: invalid_iff)
    moreover have "region_ids R items ?m = region_ids R items m"
      using move x s Cons idx \<open>\<not> rg_is_invalid R r'\<close> by (simp add: region_ids_split)
    ultimately show ?thesis using ok s Cons by (simp add: rm_ok_def)
  qed
qed

lemma refill_spec:
  assumes wf: "rm_wf R items capacity N m" and cl: "slot_core (cl nt) < kNumCPUs"
    and full: "\<And>f. full = Some f \<Longrightarrow> slot_core f < kNumCPUs"
  shows "\<exists>success h' m'. try_refill_core_local_free_region R C cl nt full h m = Inr (success, h', m')
    \<and> rm_wf R items capacity N m' \<and> region_ids R items m' = region_ids R items m
    \<and> (success \<longleftrightarrow> \<not> rg_is_invalid R (get_slot m' (cl nt)))
    \<and> (full = Some (cl nt) \<longrightarrow> (success \<longleftrightarrow> items (free_regions m) \<noteq> [])
         \<and> length (items (free_regions m')) = length (items (free_regions m)) - 1)"
proof -
  have ok0: "rm_ok R items capacity N (spin_lock m)" using wf by (simp add: rm_wf_def spin_lock_def)
  obtain m1 where m1: "(case full of None \<Rightarrow> Inr (spin_lock m) | Some f \<Rightarrow> retire_region R C f h (spin_lock m)) = Inr m1"
      and ok1: "rm_ok R items capacity N m1" and ids1: "region_ids R items m1 = region_ids R items m"
      and free1: "free_regions m1 = free_regions m" and inv1: "full = Some (cl nt) \<Longrightarrow> rg_is_invalid R (get_slot m1 (cl nt))"
  proof (cases full)
    case None
    with that [of "spin_lock m"] ok0 show ?thesis by (simp add: spin_lock_def)
  next
    case (Some f)
    with retire_region_spec [OF ok0 full [OF Some], of h] that show ?thesis by (auto simp: spin_lock_def)
  qed
  show ?thesis
  proof (cases "rg_is_invalid R (get_slot m1 (cl nt))")
    case False
    then have "try_refill_core_local_free_region R C cl nt full h m = Inr (True, h, spin_unlock m1)"
      using m1 by (simp add: try_refill_core_local_free_region_def)
    then show ?thesis using False ok1 ids1 inv1 by (auto simp: rm_wf_def spin_unlock_def)
  next
    case True
    obtain success r q where pop: "cb_pop_front C (get_slot m1 (cl nt)) (free_regions m1) = (success, r, q)"
      by (metis prod_cases3)
    obtain r' h' where mark: "(if nt then rg_set_nt R r h else (r, h)) = (r', h')" by fastforce
    let ?m = "set_slot (m1\<lparr>free_regions := q\<rparr>) (cl nt) r'"
    have res: "try_refill_core_local_free_region R C cl nt full h m = Inr (success, h', spin_unlock ?m)"
      using m1 True pop mark by (simp add: try_refill_core_local_free_region_def)
    note take = take_free_spec [where cl = cl and nt = nt, OF ok1 cl True pop mark]
    then show ?thesis using res ids1 free1 by (auto simp: rm_wf_def spin_unlock_def)
  qed
qed

end


context region_env
begin

lemma push_free_spec:
  assumes wf: "rm_wf R items capacity N m" and room: "size (region_ids R items m) < N"
    and valid: "\<not> rg_is_invalid R r"
  shows "\<exists>r' h' m'. push_free_region R C r h m = Inr (r', h', m') \<and> rm_wf R items capacity N m'
    \<and> region_ids R items m' = add_mset (region_idx r) (region_ids R items m)
    \<and> items (free_regions m') = items (free_regions m) @ [fst (rg_reset R r h)]
    \<and> used_regions m' = used_regions m \<and> nt_used_regions m' = nt_used_regions m"
proof -
  have ok: "rm_ok R items capacity N m" using wf by (simp add: rm_wf_def)
  have "size (valid_ids R (mset (items (free_regions m)))) = length (items (free_regions m))"
    using ok by (intro size_valid_ids_mset) (simp add: rm_ok_def)
  moreover have "size (valid_ids R (mset (items (free_regions m)))) \<le> size (region_ids R items m)"
    by (simp add: region_ids_split)
  ultimately have "length (items (free_regions m)) < capacity (free_regions m)"
    using room ok by (simp add: rm_ok_def)
  then obtain r' q' where p: "cb_push_back C (fst (rg_reset R r h)) (free_regions m) = (True, r', q')"
      and q: "items q' = items (free_regions m) @ [fst (rg_reset R r h)]" "capacity q' = capacity (free_regions m)"
    using push_back_room by blast
  let ?m = "m\<lparr>free_regions := q', region_spin := False\<rparr>"
  have v: "\<not> rg_is_invalid R (fst (rg_reset R r h))" using valid by (simp add: invalid_iff reset_idx)
  have ids: "region_ids R items ?m = add_mset (region_idx r) (region_ids R items m)"
    using q v by (simp add: region_ids_split reset_idx)
  have "push_free_region R C r h m = Inr (r', snd (rg_reset R r h), ?m)"
    using p by (simp add: push_free_region_def spin_lock_def spin_unlock_def split_def)
  moreover have "rm_wf R items capacity N ?m"
    using ok q v room ids by (simp add: rm_wf_def rm_ok_def)
  ultimately show ?thesis using ids q by simp
qed

lemma pick_retry_conserves:
  assumes put: "\<And>r q. length (items q) < capacity q \<Longrightarrow> \<exists>r' q'. put_back r q = (True, r', q')
      \<and> mset (items q') = add_mset r (mset (items q)) \<and> capacity q' = capacity q"
  shows "pick_retry R C put_back K seen n t r0 q = (success, r, q', t') \<Longrightarrow>
    capacity q' = capacity q \<and>
    (if success then mset (items q) = add_mset r (mset (items q')) \<and> (\<exists>u. rg_is_gcable R r (seen u))
     else mset (items q') = mset (items q))"
proof (induction "Suc K - n" arbitrary: n t r0 q rule: less_induct)
  case less
  note step = less.prems [unfolded pick_retry.simps [of _ _ _ _ _ n]]
  show ?case
  proof (cases "items q")
    case Nil
    then show ?thesis using step pop_front_Nil [OF Nil, of r0] by auto
  next
    case (Cons x xs)
    obtain q1 where p: "cb_pop_front C r0 q = (True, x, q1)" and q1: "items q1 = xs"
        "capacity q1 = capacity q" "length (items q1) < capacity q1"
      using pop_pushable [OF Cons] by blast
    show ?thesis
    proof (cases "rg_is_gcable R x (seen t)")
      case True
      then show ?thesis using step p q1 Cons by auto
    next
      case False
      obtain x' q2 where p2: "put_back x q1 = (True, x', q2)"
          and q2: "mset (items q2) = add_mset x (mset (items q1))" "capacity q2 = capacity q1"
        using put [OF q1(3)] by blast
      show ?thesis
      proof (cases "n \<le> K")
        case True
        then have "pick_retry R C put_back K seen (Suc n) (Suc t) x' q2 = (success, r, q', t')"
          using step p p2 False by simp
        with less.hyps [of "Suc n"] True q2 q1 Cons show ?thesis by (auto split: if_splits)
      next
        case stop: False
        then show ?thesis using step p p2 False q2 q1 Cons by auto
      qed
    qed
  qed
qed

lemma push_back_conserves:
  "length (items q) < capacity q \<Longrightarrow> \<exists>r' q'. cb_push_back C r q = (True, r', q')
     \<and> mset (items q') = add_mset r (mset (items q)) \<and> capacity q' = capacity q"
  using push_back_room [of q r] by fastforce

lemma push_front_conserves:
  "length (items q) < capacity q \<Longrightarrow> \<exists>r' q'. cb_push_front C r q = (True, r', q')
     \<and> mset (items q') = add_mset r (mset (items q)) \<and> capacity q' = capacity q"
  using push_front_room [of q r] by fastforce

text \<open>A rejected non-temporal region goes to the back: the loop scans the queue in order.\<close>

lemma pick_retry_back_static:
  "n \<le> Suc K \<Longrightarrow> pick_retry R C (cb_push_back C) K (\<lambda>_. h) n t r0 q = (success, r, q', t') \<Longrightarrow>
   (if success then Some r else None) = find (\<lambda>x. rg_is_gcable R x h) (take (Suc (Suc K) - n) (items q))"
proof (induction "Suc K - n" arbitrary: n t r0 q rule: less_induct)
  case less
  note step = less.prems(2) [unfolded pick_retry.simps [of _ _ _ _ _ n]]
  have attempts: "Suc (Suc K) - n = Suc (Suc K - n)" using less.prems(1) by simp
  show ?case
  proof (cases "items q")
    case Nil
    then show ?thesis using step pop_front_Nil [OF Nil, of r0] by auto
  next
    case (Cons x xs)
    obtain q1 where p: "cb_pop_front C r0 q = (True, x, q1)" and q1: "items q1 = xs"
        "capacity q1 = capacity q" "length (items q1) < capacity q1"
      using pop_pushable [OF Cons] by blast
    show ?thesis
    proof (cases "rg_is_gcable R x h")
      case True
      then show ?thesis using step p Cons attempts by auto
    next
      case False
      obtain x' q2 where p2: "cb_push_back C x q1 = (True, x', q2)" and q2: "items q2 = xs @ [x]"
        using push_back_room [OF q1(3), of x] q1(1) by auto
      show ?thesis
      proof (cases "n \<le> K")
        case True
        then have "pick_retry R C (cb_push_back C) K (\<lambda>_. h) (Suc n) (Suc t) x' q2 = (success, r, q', t')"
          using step p p2 False by simp
        then have "(if success then Some r else None)
            = find (\<lambda>x. rg_is_gcable R x h) (take (Suc (Suc K) - Suc n) (xs @ [x]))"
          using less.hyps [of "Suc n"] True q2 by simp
        also have "\<dots> = find (\<lambda>x. rg_is_gcable R x h) (take (Suc K - n) xs)"
          using False by (simp add: find_append find_take_singleton split: option.split)
        finally show ?thesis using Cons False attempts by simp
      next
        case stop: False
        then have "n = Suc K" using less.prems(1) by simp
        then show ?thesis using step p p2 False Cons by auto
      qed
    qed
  qed
qed

text \<open>A rejected used region goes back to the front: every retry looks at the same one.\<close>

lemma pick_retry_front_static:
  "n \<le> Suc K \<Longrightarrow> pick_retry R C (cb_push_front C) K (\<lambda>_. h) n t r0 q = (success, r, q', t') \<Longrightarrow>
   (if success then Some r else None) = (case items q of [] \<Rightarrow> None | x # xs \<Rightarrow> if rg_is_gcable R x h then Some x else None)
     \<and> items q' = (if success then tl (items q) else items q)"
proof (induction "Suc K - n" arbitrary: n t r0 q rule: less_induct)
  case less
  note step = less.prems(2) [unfolded pick_retry.simps [of _ _ _ _ _ n]]
  show ?case
  proof (cases "items q")
    case Nil
    then show ?thesis using step pop_front_Nil [OF Nil, of r0] by auto
  next
    case (Cons x xs)
    obtain q1 where p: "cb_pop_front C r0 q = (True, x, q1)" and q1: "items q1 = xs"
        "capacity q1 = capacity q" "length (items q1) < capacity q1"
      using pop_pushable [OF Cons] by blast
    show ?thesis
    proof (cases "rg_is_gcable R x h")
      case True
      then show ?thesis using step p Cons q1 by auto
    next
      case False
      obtain x' q2 where p2: "cb_push_front C x q1 = (True, x', q2)" and q2: "items q2 = items q"
        using push_front_room [OF q1(3), of x] q1(1) Cons by auto
      show ?thesis
      proof (cases "n \<le> K")
        case True
        then have "pick_retry R C (cb_push_front C) K (\<lambda>_. h) (Suc n) (Suc t) x' q2 = (success, r, q', t')"
          using step p p2 False by simp
        then show ?thesis using less.hyps [of "Suc n"] True q2 by simp
      next
        case stop: False
        then show ?thesis using step p p2 False Cons q2 by auto
      qed
    qed
  qed
qed

lemma pop_used_conserves:
  assumes wf: "rm_wf R items capacity N m" and pop: "pop_used_region R C K seen m = (res, m')"
  shows "rm_wf R items capacity N m' \<and> free_regions m' = free_regions m \<and>
    (case res of None \<Rightarrow> region_ids R items m' = region_ids R items m
     | Some r \<Rightarrow> region_ids R items m = add_mset (region_idx r) (region_ids R items m')
         \<and> \<not> rg_is_invalid R r \<and> (\<exists>u. rg_is_gcable R r (seen u)))"
proof -
  obtain s1 r1 nq t1 where nt: "pick_retry R C (cb_push_back C) K seen 0 0 (rg_default R) (nt_used_regions m) = (s1, r1, nq, t1)"
    by (metis prod_cases4)
  obtain s2 r2 uq t2 where us: "pick_retry R C (cb_push_front C) K seen 0 t1 r1 (used_regions m) = (s2, r2, uq, t2)"
    by (metis prod_cases4)
  note N = pick_retry_conserves [OF push_back_conserves nt]
  note U = pick_retry_conserves [OF push_front_conserves us]
  have res: "(res, m') = (if s1 then (Some r1, m\<lparr>nt_used_regions := nq, region_spin := False\<rparr>)
      else (if s2 then Some r2 else None, m\<lparr>nt_used_regions := nq, used_regions := uq, region_spin := False\<rparr>))"
    using pop nt us by (auto simp: pop_used_region_def Let_def spin_lock_def spin_unlock_def split: if_splits)
  have ok: "rm_ok R items capacity N m" using wf by (simp add: rm_wf_def)
  then have valid: "\<And>r. r \<in># mset (items (nt_used_regions m)) \<Longrightarrow> \<not> rg_is_invalid R r"
    "\<And>r. r \<in># mset (items (used_regions m)) \<Longrightarrow> \<not> rg_is_invalid R r"
    by (auto simp: rm_ok_def list_all_iff)
  have sub: "rm_ok R items capacity N (m\<lparr>nt_used_regions := a, used_regions := b\<rparr>)"
    if "mset (items a) \<subseteq># mset (items (nt_used_regions m))" "mset (items b) \<subseteq># mset (items (used_regions m))"
      "capacity a = capacity (nt_used_regions m)" "capacity b = capacity (used_regions m)" for a b
  proof -
    have "region_ids R items (m\<lparr>nt_used_regions := a, used_regions := b\<rparr>) \<subseteq># region_ids R items m"
      using that(1,2) unfolding region_ids_split valid_ids_def
      by (simp add: subset_mset.add_mono image_mset_subseteq_mono multiset_filter_mono)
    then show ?thesis
      using ok that size_mset_mono [of "region_ids R items (m\<lparr>nt_used_regions := a, used_regions := b\<rparr>)" "region_ids R items m"]
      by (auto simp: rm_ok_def list_all_iff dest: mset_subset_eqD)
  qed
  consider (A) s1 | (B) "\<not> s1" s2 | (D) "\<not> s1" "\<not> s2" by blast
  then show ?thesis
  proof cases
    case A
    have "r1 \<in># mset (items (nt_used_regions m))" using N A by simp
    then have "\<not> rg_is_invalid R r1" by (rule valid(1))
    moreover have "rm_ok R items capacity N (m\<lparr>nt_used_regions := nq\<rparr>)"
      using sub [of nq "used_regions m"] N A by simp
    ultimately show ?thesis using A res N by (auto simp: rm_wf_def region_ids_split)
  next
    case B
    have "r2 \<in># mset (items (used_regions m))" using U B by simp
    then have "\<not> rg_is_invalid R r2" by (rule valid(2))
    moreover have "rm_ok R items capacity N (m\<lparr>nt_used_regions := nq, used_regions := uq\<rparr>)"
      using sub [of nq uq] N U B by simp
    ultimately show ?thesis using B res N U by (auto simp: rm_wf_def region_ids_split)
  next
    case D
    moreover have "rm_ok R items capacity N (m\<lparr>nt_used_regions := nq, used_regions := uq\<rparr>)"
      using sub [of nq uq] N U D by simp
    ultimately show ?thesis using res N U by (auto simp: rm_wf_def region_ids_split)
  qed
qed

lemma pop_used_static:
  assumes pop: "pop_used_region R C K (\<lambda>_. h) m = (res, m')"
  shows "res = (case find (\<lambda>x. rg_is_gcable R x h) (take (K + 2) (items (nt_used_regions m))) of
      Some r \<Rightarrow> Some r
    | None \<Rightarrow> (case items (used_regions m) of [] \<Rightarrow> None | x # xs \<Rightarrow> if rg_is_gcable R x h then Some x else None))"
proof -
  obtain s1 r1 nq t1 where nt: "pick_retry R C (cb_push_back C) K (\<lambda>_. h) 0 0 (rg_default R) (nt_used_regions m) = (s1, r1, nq, t1)"
    by (metis prod_cases4)
  obtain s2 r2 uq t2 where us: "pick_retry R C (cb_push_front C) K (\<lambda>_. h) 0 t1 r1 (used_regions m) = (s2, r2, uq, t2)"
    by (metis prod_cases4)
  have "res = (if s1 then Some r1 else if s2 then Some r2 else None)"
    using pop nt us by (auto simp: pop_used_region_def Let_def spin_lock_def split: if_splits)
  then show ?thesis
    using pick_retry_back_static [OF _ nt] pick_retry_front_static [OF _ us]
    by (auto split: if_splits option.splits)
qed

end

text \<open>
  C30 (collectable region): however the reference counts change under the scan, taking a
  used region returns one that was seen to be collectable, leaves every other region
  where it is counted, never returns an invalid one, and releases the lock.
\<close>

theorem pop_used_region_sound:
  assumes "region_env R C items capacity" and "rm_wf R items capacity N m"
    and "pop_used_region R C K seen m = (res, m')"
  shows "rm_wf R items capacity N m' \<and> free_regions m' = free_regions m \<and>
    (case res of None \<Rightarrow> region_ids R items m' = region_ids R items m
     | Some r \<Rightarrow> region_ids R items m = add_mset (region_idx r) (region_ids R items m')
         \<and> \<not> rg_is_invalid R r \<and> (\<exists>u. rg_is_gcable R r (seen u)))"
  by (rule region_env.pop_used_conserves [OF assms])

text \<open>
  C31 (choice of the region): while the reference counts stand still, the scan takes the
  first collectable one of the first \<open>K + 2\<close> non-temporal regions, and only the front one
  of the other used regions: it puts a rejected region back to the front of that queue
  and looks at the same one again, so collectable regions behind it are not found.
\<close>

theorem pop_used_region_choice:
  assumes "region_env R C items capacity" and "pop_used_region R C K (\<lambda>_. h) m = (res, m')"
  shows "res = (case find (\<lambda>x. rg_is_gcable R x h) (take (K + 2) (items (nt_used_regions m))) of
      Some r \<Rightarrow> Some r
    | None \<Rightarrow> (case items (used_regions m) of [] \<Rightarrow> None | x # xs \<Rightarrow> if rg_is_gcable R x h then Some x else None))"
  by (rule region_env.pop_used_static [OF assms])

section \<open>The constructor's regions\<close>

text \<open>Region \<open>i\<close> of the manager whose buffer starts at \<open>base\<close>.\<close>

definition numbered :: "region_ops \<Rightarrow> bool \<Rightarrow> addr \<Rightarrow> nat \<Rightarrow> Region \<Rightarrow> bool" where
  "numbered R loc base i r \<longleftrightarrow>
     (\<exists>nt h. r = fst (rg_make R (of_nat i) loc nt (if loc then base + ucast (of_nat i :: u32) * of_nat kSize else 0) h))"

lemma free_regions_count_exact:
  assumes "sz \<le> 2 ^ 53"
  shows "free_regions_count sz = of_nat ((unat sz + 1023) div 1024)"
proof -
  have "uint sz \<le> 2 ^ 53" using assms by (simp add: word_le_def)
  then have "double_div (u64_to_double sz) (of_nat kSize) = of_int (uint sz) / 1024"
    using assms fl_of_int_div_1024 [of "uint sz"]
    by (simp add: double_div_def u64_to_double_exact region_constants)
  moreover have "\<lceil>of_int (uint sz) / (1024 :: rat)\<rceil> = int ((unat sz + 1023) div 1024)"
  proof (rule ceiling_unique)
    define z where "z = (unat sz + 1023) div 1024"
    have "unat sz + 1023 = 1024 * z + (unat sz + 1023) mod 1024" by (simp add: z_def)
    then have "unat sz \<le> 1024 * z" "1024 * z < unat sz + 1024"
      using mod_less_divisor [of 1024 "unat sz + 1023"] by linarith+
    then have "of_nat (unat sz) \<le> (of_nat (1024 * z) :: rat)" "(of_nat (1024 * z) :: rat) < of_nat (unat sz + 1024)"
      by (simp_all only: of_nat_le_iff of_nat_less_iff)
    then show "of_int (int ((unat sz + 1023) div 1024)) - 1 < of_int (uint sz) / (1024 :: rat)"
      "of_int (uint sz) / (1024 :: rat) \<le> of_int (int ((unat sz + 1023) div 1024))"
      by (simp_all add: z_def [symmetric])
  qed
  ultimately show ?thesis
    unfolding free_regions_count_def double_ceil_def by (simp only: of_int_of_nat_eq)
qed

context region_env
begin

lemma new_region_spec:
  "new_region R loc base nt idx h = (r, idx', h') \<Longrightarrow> region_idx r = idx
    \<and> buf_ptr r = (if loc then base + ucast idx * of_nat kSize else 0) \<and> idx' = idx + 1"
  using make_idx make_buf by (auto simp: new_region_def Let_def split_def)

lemma new_region_numbered: "new_region R loc base nt (of_nat i) h = (r, idx', h') \<Longrightarrow> numbered R loc base i r \<and> idx' = of_nat (Suc i)"
  by (auto simp: new_region_def numbered_def Let_def split: prod.splits if_splits) (metis fst_conv)+

lemma numbered_fields: "numbered R loc base i r \<Longrightarrow> region_idx r = of_nat i
    \<and> buf_ptr r = (if loc then base + ucast (of_nat i :: u32) * of_nat kSize else 0)"
  using make_idx make_buf by (auto simp: numbered_def)

lemma init_core_regions_frame:
  "init_core_regions R loc base cores idx h m = (idx', h', m') \<Longrightarrow>
    idx' = idx + of_nat (2 * length cores) \<and> free_regions m' = free_regions m \<and> used_regions m' = used_regions m
    \<and> nt_used_regions m' = nt_used_regions m \<and> region_spin m' = region_spin m \<and> local_cache_ptr m' = local_cache_ptr m
    \<and> (\<forall>s. slot_core s \<notin> set cores \<longrightarrow> get_slot m' s = get_slot m s)"
proof (induction cores arbitrary: idx h m)
  case (Cons c cores)
  obtain r1 i1 h1 where 1: "new_region R loc base False idx h = (r1, i1, h1)" by (metis prod_cases3)
  obtain r2 i2 h2 where 2: "new_region R loc base True i1 h1 = (r2, i2, h2)" by (metis prod_cases3)
  have "init_core_regions R loc base cores i2 h2 (set_slot (set_slot m (Slot c) r1) (Nt_Slot c) r2) = (idx', h', m')"
    using Cons.prems 1 2 by simp
  from Cons.IH [OF this] show ?case
    using new_region_spec [OF 1] new_region_spec [OF 2] by auto
qed simp

lemma init_core_regions_numbered:
  "init_core_regions R loc base [a..<a + n] (of_nat i) h m = (idx', h', m') \<Longrightarrow> d < n \<Longrightarrow>
    numbered R loc base (i + 2 * d) (core_local_free_regions m' (a + d))
    \<and> numbered R loc base (i + 2 * d + 1) (core_local_free_nt_regions m' (a + d))"
proof (induction n arbitrary: a i h m d)
  case (Suc n)
  have upt: "[a..<a + Suc n] = a # [Suc a..<Suc a + n]" by (simp add: upt_conv_Cons)
  obtain r1 i1 h1 where 1: "new_region R loc base False (of_nat i) h = (r1, i1, h1)" by (metis prod_cases3)
  obtain r2 i2 h2 where 2: "new_region R loc base True i1 h1 = (r2, i2, h2)" by (metis prod_cases3)
  have "i2 = of_nat (i + 2)" using new_region_spec [OF 1] new_region_spec [OF 2] by simp
  then have run: "init_core_regions R loc base [Suc a..<Suc a + n] (of_nat (i + 2)) h2
      (set_slot (set_slot m (Slot a) r1) (Nt_Slot a) r2) = (idx', h', m')"
    using Suc.prems(1) 1 2 upt by (simp del: upt_Suc)
  show ?case
  proof (cases d)
    case 0
    have "get_slot m' (Slot a) = r1" "get_slot m' (Nt_Slot a) = r2"
      using init_core_regions_frame [OF run] by (simp_all del: upt_Suc)
    then show ?thesis
      using 0 new_region_numbered [OF 1] new_region_numbered [of loc base True "Suc i" h1 r2 i2 h2] 2
      by (simp add: get_slot.simps)
  next
    case (Suc e)
    then show ?thesis using Suc.IH [OF run, of e] Suc.prems(2) by simp
  qed
qed simp

lemma init_free_regions_numbered:
  "length (items (free_regions m)) + n \<le> capacity (free_regions m) \<Longrightarrow>
   \<exists>h' m' rs. init_free_regions R C loc base n (of_nat i) h m = Inr (of_nat (i + n), h', m')
     \<and> items (free_regions m') = items (free_regions m) @ rs \<and> length rs = n
     \<and> (\<forall>j<n. numbered R loc base (i + j) (rs ! j))
     \<and> capacity (free_regions m') = capacity (free_regions m) \<and> (\<exists>q. m' = m\<lparr>free_regions := q\<rparr>)"
proof (induction n arbitrary: i h m)
  case 0
  have "\<exists>q. m = m\<lparr>free_regions := q\<rparr>" by (rule exI [of _ "free_regions m"]) simp
  then show ?case by simp
next
  case (Suc n)
  obtain r i1 h1 where 1: "new_region R loc base False (of_nat i) h = (r, i1, h1)" by (metis prod_cases3)
  have r: "numbered R loc base i r" "i1 = of_nat (Suc i)"
    using new_region_numbered [OF 1] by simp_all
  obtain r' q where p: "cb_push_back C r (free_regions m) = (True, r', q)"
      and q: "items q = items (free_regions m) @ [r]" "capacity q = capacity (free_regions m)"
    using push_back_room [of "free_regions m" r] Suc.prems by auto
  obtain h' m' rs where IH: "init_free_regions R C loc base n (of_nat (Suc i)) h1 (m\<lparr>free_regions := q\<rparr>) = Inr (of_nat (Suc i + n), h', m')"
      "items (free_regions m') = (items (free_regions m) @ [r]) @ rs" "length rs = n"
      "\<forall>j<n. numbered R loc base (Suc i + j) (rs ! j)" "capacity (free_regions m') = capacity (free_regions m)"
      "\<exists>q'. m' = m\<lparr>free_regions := q, free_regions := q'\<rparr>"
    using Suc.IH [of "m\<lparr>free_regions := q\<rparr>" "Suc i" h1] Suc.prems q by auto
  have "init_free_regions R C loc base (Suc n) (of_nat i) h m = Inr (of_nat (i + Suc n), h', m')"
    using 1 p r IH(1) by (simp add: algebra_simps)
  moreover have "\<forall>j<Suc n. numbered R loc base (i + j) ((r # rs) ! j)"
    using IH(4) r(1) by (auto simp: less_Suc_eq_0_disj)
  ultimately show ?case using IH by (intro exI [of _ h'] exI [of _ m'] exI [of _ "r # rs"]) auto
qed

lemma mset_even_odd:
  "mset (map (\<lambda>c. f (2 * c)) [0..<n]) + mset (map (\<lambda>c. f (2 * c + 1)) [0..<n]) = mset (map f [0..<2 * n])"
  by (induction n) simp_all

lemma numbered_valid: "numbered R loc base i r \<Longrightarrow> i < 2 ^ 32 - 1 \<Longrightarrow> \<not> rg_is_invalid R r"
proof
  assume n: "numbered R loc base i r" and i: "i < 2 ^ 32 - 1" and "rg_is_invalid R r"
  then have "(of_nat i :: u32) = - 1" by (simp add: numbered_fields [OF n] invalid_iff kInvalidIdx_def)
  then have "unat (of_nat i :: u32) = unat (- 1 :: u32)" by simp
  then show False using i by (simp add: unat_of_nat take_bit_nat_eq_self unsigned_minus_1_eq_mask mask_eq_exp_minus_1)
qed

lemma valid_ids_list:
  "\<forall>r \<in> set rs. \<not> rg_is_invalid R r \<Longrightarrow> valid_ids R (mset rs) = mset (map region_idx rs)"
  by (induction rs) simp_all

lemma RegionManager_ctor_spec:
  assumes "sz \<le> 2 ^ 41" and "2 * kNumSocket1CPUs < (unat sz + 1023) div 1024"
  shows "\<exists>m h'. RegionManager_ctor R C hugepage sz loc h = Inr (m, h') \<and> \<not> region_spin m
    \<and> length (items (free_regions m)) = (unat sz + 1023) div 1024 - 2 * kNumSocket1CPUs
    \<and> items (used_regions m) = [] \<and> items (nt_used_regions m) = []
    \<and> (\<forall>q \<in> {free_regions m, used_regions m, nt_used_regions m}. capacity q = capacity (cb_make C ((unat sz + 1023) div 1024)))
    \<and> local_cache_ptr m = (if loc then hugepage (of_nat ((unat sz + 1023) div 1024 * kSize)) else 0)
    \<and> (\<exists>rs. owned_regions items m = mset rs
        \<and> list_all2 (numbered R loc (local_cache_ptr m)) [0..<(unat sz + 1023) div 1024 - 2 * kNumSocket1CPUs + 2 * kNumCPUs] rs)"
proof -
  define c where "c = (unat sz + 1023) div 1024"
  define n where "n = c - 2 * kNumSocket1CPUs"
  have "sz \<le> 2 ^ 53" using assms(1) by (rule order_trans) (simp add: word_le_nat_alt)
  then have count: "free_regions_count sz = of_nat c" by (simp add: free_regions_count_exact c_def)
  have "unat sz \<le> 2 ^ 41" using assms(1) by (simp add: word_le_nat_alt)
  then have c31: "c \<le> 2 ^ 31" by (simp add: c_def)
  have c4: "2 * kNumSocket1CPUs < c" using assms(2) by (simp add: c_def)
  have sub: "double_sub (of_nat c) (of_nat (2 * kNumSocket1CPUs)) = of_nat n"
  proof -
    have "fl (of_int (int n)) = of_int (int n)" using c31 by (intro fl_of_int) (simp_all add: n_def)
    moreover have "of_nat c - of_nat (2 * kNumSocket1CPUs) = (of_int (int n) :: rat)"
      using c4 by (simp add: n_def of_nat_diff)
    ultimately show ?thesis by (simp add: double_sub_def)
  qed
  have mult: "double_to_u64 (double_mult (of_nat c) (of_nat kSize)) = of_nat (c * kSize)"
  proof -
    have "fl (of_int (int (c * kSize))) = of_int (int (c * kSize))"
      using c31 by (intro fl_of_int) (simp_all add: region_constants)
    then have "double_mult (of_nat c) (of_nat kSize) = of_nat (c * kSize)"
      by (simp add: double_mult_def)
    then show ?thesis by (simp add: double_to_u64_def del: of_nat_mult)
  qed
  define base where "base = (if loc then hugepage (double_to_u64 (double_mult (of_nat c) (of_nat kSize))) else 0)"
  define m0 where "m0 = \<lparr>region_spin = False, free_regions = cb_make C c, used_regions = cb_make C c,
    nt_used_regions = cb_make C c, core_local_free_regions = (\<lambda>_. rg_default R),
    core_local_free_nt_regions = (\<lambda>_. rg_default R), local_cache_ptr = base\<rparr>"
  have m0_base: "local_cache_ptr m0 = base" by (simp add: m0_def)
  obtain idx h1 m1 where core: "init_core_regions R loc base [0..<0 + kNumCPUs] (of_nat 0) h m0 = (idx, h1, m1)"
    by (metis prod_cases3)
  note frame = init_core_regions_frame [OF core] and num = init_core_regions_numbered [OF core]
  have idx: "idx = of_nat (2 * kNumCPUs)" using frame by simp
  have free1: "items (free_regions m1) = []" "n \<le> capacity (free_regions m1)"
    using frame make_items make_capacity [of c] by (simp_all add: m0_def n_def)
  obtain h2 m2 rs where free: "init_free_regions R C loc base n (of_nat (2 * kNumCPUs)) h1 m1 = Inr (of_nat (2 * kNumCPUs + n), h2, m2)"
      and rs: "items (free_regions m2) = rs" "length rs = n" "\<forall>j<n. numbered R loc base (2 * kNumCPUs + j) (rs ! j)"
      and cap: "capacity (free_regions m2) = capacity (free_regions m1)" and m2: "\<exists>q. m2 = m1\<lparr>free_regions := q\<rparr>"
    using init_free_regions_numbered [of m1 n loc base "2 * kNumCPUs" h1] free1 by auto
  have res: "RegionManager_ctor R C hugepage sz loc h = Inr (m2, h2)"
    using c4 core free
    by (simp add: RegionManager_ctor_def m0_base count sub base_def [symmetric] m0_def [symmetric] idx Let_def del: of_nat_mult split del: if_split)
  let ?core = "concat (map (\<lambda>d. [core_local_free_regions m2 d, core_local_free_nt_regions m2 d]) [0..<kNumCPUs])"
  have m2_core: "core_local_free_regions m2 = core_local_free_regions m1"
    "core_local_free_nt_regions m2 = core_local_free_nt_regions m1"
    and m2_frame: "used_regions m2 = cb_make C c" "nt_used_regions m2 = cb_make C c" "local_cache_ptr m2 = base" "\<not> region_spin m2"
    using m2 frame by (auto simp: m0_def)
  have core_list: "list_all2 (numbered R loc base) [0..<2 * k] (concat (map (\<lambda>d. [core_local_free_regions m2 d, core_local_free_nt_regions m2 d]) [0..<k]))"
    if "k \<le> kNumCPUs" for k
    using that num by (induction k) (auto simp: m2_core intro!: list_all2_appendI)
  have free_list: "list_all2 (numbered R loc base) [2 * kNumCPUs..<2 * kNumCPUs + n] rs"
    using rs(2,3) by (simp add: list_all2_conv_all_nth)
  have "owned_regions items m2 = mset (?core @ rs)"
  proof -
    have "mset (concat (map (\<lambda>d. [f d, g d]) [0..<k])) = mset (map f [0..<k]) + mset (map g [0..<k])" for f g :: "nat \<Rightarrow> Region" and k
      by (induction k) simp_all
    then show ?thesis using rs(1) by (simp add: owned_regions_def core_regions_def m2_frame make_items)
  qed
  moreover have "list_all2 (numbered R loc base) [0..<n + 2 * kNumCPUs] (?core @ rs)"
    using list_all2_appendI [OF core_list [of kNumCPUs] free_list] upt_add_eq_append [of 0 "2 * kNumCPUs" n]
    by (simp add: add.commute)
  ultimately have "\<exists>rs. owned_regions items m2 = mset rs \<and> list_all2 (numbered R loc (local_cache_ptr m2)) [0..<n + 2 * kNumCPUs] rs"
    using m2_frame by blast
  then show ?thesis
    using res rs(1,2) m2_frame make_items mult cap frame unfolding c_def [symmetric] n_def [symmetric]
    by (intro exI [of _ m2] exI [of _ h2]) (simp add: base_def m0_def)
qed

lemma numbered_ids:
  "list_all2 (numbered R loc base) xs rs \<Longrightarrow> map region_idx rs = map of_nat xs"
  by (induction rule: list_all2_induct) (simp_all add: numbered_fields)

lemma ctor_ids:
  assumes "sz \<le> 2 ^ 41" and "2 * kNumSocket1CPUs < (unat sz + 1023) div 1024"
    and "RegionManager_ctor R C hugepage sz loc h = Inr (m, h')"
  shows "region_ids R items m = mset (map of_nat [0..<(unat sz + 1023) div 1024 + 36])"
proof -
  let ?n = "(unat sz + 1023) div 1024"
  have N: "?n - 2 * kNumSocket1CPUs + 2 * kNumCPUs = ?n + 36"
    using assms(2) by (simp add: region_constants)
  have "unat sz \<le> 2 ^ 41" using assms(1) by (simp add: word_le_nat_alt)
  then have small: "?n + 36 < 2 ^ 32 - 1" by simp
  obtain rs where own: "owned_regions items m = mset rs"
      and num: "list_all2 (numbered R loc (local_cache_ptr m)) [0..<?n + 36] rs"
    using RegionManager_ctor_spec [OF assms(1,2), of hugepage loc h] assms(3) N by auto
  have "\<forall>r \<in> set rs. \<not> rg_is_invalid R r"
  proof
    fix r
    assume "r \<in> set rs"
    then obtain i where i: "i < length rs" "r = rs ! i" by (metis in_set_conv_nth)
    then have "i < ?n + 36" "numbered R loc (local_cache_ptr m) i r"
      using num by (auto simp: list_all2_conv_all_nth)
    then show "\<not> rg_is_invalid R r" using small by (intro numbered_valid) auto
  qed
  then show ?thesis
    unfolding region_ids_def own by (simp only: valid_ids_list numbered_ids [OF num])
qed

text \<open>With buffers that have room for the 36 surplus regions too, the manager is well formed.\<close>

lemma ctor_wf:
  assumes "sz \<le> 2 ^ 41" and "2 * kNumSocket1CPUs < (unat sz + 1023) div 1024"
    and "RegionManager_ctor R C hugepage sz loc h = Inr (m, h')"
    and "(unat sz + 1023) div 1024 + 36 \<le> capacity (cb_make C ((unat sz + 1023) div 1024))"
  shows "rm_wf R items capacity ((unat sz + 1023) div 1024 + 36) m"
proof -
  let ?n = "(unat sz + 1023) div 1024"
  note ids = ctor_ids [OF assms(1-3)]
  have m: "\<not> region_spin m" "items (used_regions m) = []" "items (nt_used_regions m) = []"
      "\<forall>q \<in> {free_regions m, used_regions m, nt_used_regions m}. capacity q = capacity (cb_make C ?n)"
      "length (items (free_regions m)) = ?n - 2 * kNumSocket1CPUs"
      "size (owned_regions items m) = ?n + 36"
    using RegionManager_ctor_spec [OF assms(1,2), of hugepage loc h] assms(3) assms(2)
    by (auto simp: region_constants dest: list_all2_lengthD)
  have "size (filter_mset (\<lambda>r. \<not> rg_is_invalid R r) (owned_regions items m)) = size (owned_regions items m)"
    using arg_cong [OF ids, of size] m(6) by (simp add: region_ids_def valid_ids_def)
  then have "size (filter_mset (rg_is_invalid R) (owned_regions items m)) = 0"
    using arg_cong [OF multiset_partition [of "owned_regions items m" "rg_is_invalid R"], of size]
    unfolding size_union by linarith
  then have "filter_mset (rg_is_invalid R) (owned_regions items m) = {#}" by simp
  then have "\<forall>r \<in># owned_regions items m. \<not> rg_is_invalid R r" by (metis count_empty count_filter_mset count_eq_zero_iff)
  then have "list_all (\<lambda>r. \<not> rg_is_invalid R r) (items (free_regions m))"
    by (auto simp: owned_regions_def list_all_iff)
  then show ?thesis using m assms(4) arg_cong [OF ids, of size] by (simp add: rm_wf_def rm_ok_def)
qed

end

text \<open>
  The constructor: a size of at most four regions ends the process with \<^verbatim>\<open>ENOSPC\<close>.
  Otherwise the manager starts unlocked with empty used queues and, from \<open>c\<close> regions'
  worth of memory, creates regions numbered \<open>0 .. c + 35\<close>, each exactly once: the macro
  that runs over the cores takes 40 per-core regions, while only 4 are deducted from the
  free ones.
\<close>

theorem RegionManager_ctor_regions:
  assumes "region_env R C items capacity" and "sz \<le> 2 ^ 41"
  shows "if (unat sz + 1023) div 1024 \<le> 4 then RegionManager_ctor R C hugepage sz loc h = Inl Exit_ENOSPC
    else (\<exists>m h'. RegionManager_ctor R C hugepage sz loc h = Inr (m, h') \<and> \<not> region_spin m
      \<and> length (items (free_regions m)) = (unat sz + 1023) div 1024 - 4
      \<and> items (used_regions m) = [] \<and> items (nt_used_regions m) = []
      \<and> region_ids R items m = mset (map of_nat [0..<(unat sz + 1023) div 1024 + 36]))"
proof (cases "(unat sz + 1023) div 1024 \<le> 4")
  case True
  have "sz \<le> 2 ^ 53" using assms(2) by (rule order_trans) (simp add: word_le_nat_alt)
  then have "free_regions_count sz \<le> of_nat (2 * kNumSocket1CPUs)"
    using True unfolding free_regions_count_exact [OF \<open>sz \<le> 2 ^ 53\<close>]
    by (simp only: of_nat_le_iff kNumSocket1CPUs_def)
  then show ?thesis using True by (simp add: RegionManager_ctor_def Let_def)
next
  case False
  then have n: "2 * kNumSocket1CPUs < (unat sz + 1023) div 1024" by (simp add: kNumSocket1CPUs_def)
  from region_env.RegionManager_ctor_spec [OF assms(1,2) n, of hugepage loc h]
    region_env.ctor_ids [OF assms(1,2) n, of hugepage loc h] False
  show ?thesis by (auto simp: kNumSocket1CPUs_def)
qed

text \<open>
  C32 (overrun): for the local cache, region \<open>i\<close> starts \<open>i\<close> region sizes after the huge page
  area, of which the constructor requested \<open>c\<close> region sizes; the regions numbered from
  \<open>c\<close> to \<open>c + 35\<close> therefore lie wholly behind the requested area.
\<close>

theorem cache_regions_overrun:
  assumes "region_env R C items capacity" and "sz \<le> 2 ^ 41" and "4 < (unat sz + 1023) div 1024"
    and "i < (unat sz + 1023) div 1024 + 36"
  shows "\<exists>m h' r. RegionManager_ctor R C hugepage sz True h = Inr (m, h')
    \<and> local_cache_ptr m = hugepage (of_nat ((unat sz + 1023) div 1024 * kSize))
    \<and> r \<in># owned_regions items m \<and> region_idx r = of_nat i
    \<and> buf_ptr r = local_cache_ptr m + of_nat (i * kSize)"
proof -
  let ?n = "(unat sz + 1023) div 1024"
  have n: "2 * kNumSocket1CPUs < ?n" using assms(3) by (simp add: kNumSocket1CPUs_def)
  have N: "?n - 2 * kNumSocket1CPUs + 2 * kNumCPUs = ?n + 36"
    using assms(3) by (simp add: region_constants)
  obtain m h' rs where m: "RegionManager_ctor R C hugepage sz True h = Inr (m, h')"
      "local_cache_ptr m = hugepage (of_nat (?n * kSize))" "owned_regions items m = mset rs"
      and num: "list_all2 (numbered R True (local_cache_ptr m)) [0..<?n + 36] rs"
    using region_env.RegionManager_ctor_spec [OF assms(1,2) n, of hugepage True h] N by auto
  have "numbered R True (local_cache_ptr m) i (rs ! i)" "rs ! i \<in> set rs"
    using num assms(4) by (auto simp: list_all2_conv_all_nth)
  moreover have "(ucast (of_nat i :: u32) :: u64) = of_nat i"
  proof -
    have "unat sz \<le> 2 ^ 41" using assms(2) by (simp add: word_le_nat_alt)
    then have "i < 2 ^ 32" using assms(4) by simp
    then show ?thesis by (simp add: unsigned_of_nat take_bit_nat_eq_self)
  qed
  ultimately show ?thesis using m
    by (intro exI [of _ m] exI [of _ h'] exI [of _ "rs ! i"]) (simp add: region_env.numbered_fields [OF assms(1)])
qed

section \<open>Consequences of the constructor's miscount\<close>

text \<open>The per-core regions of the given cores are found full, one after the other.\<close>

fun refill_cores ::
  "region_ops \<Rightarrow> 'q cb_ops \<Rightarrow> nat list \<Rightarrow> heap \<Rightarrow> 'q RegionManager \<Rightarrow> fm_error + (heap \<times> 'q RegionManager)" where
  "refill_cores R C [] h m = Inr (h, m)"
| "refill_cores R C (c # cs) h m =
     (case try_refill_core_local_free_region R C (\<lambda>nt. if nt then Nt_Slot c else Slot c) False (Some (Slot c)) h m of
        Inl e \<Rightarrow> Inl e | Inr (success, h, m) \<Rightarrow> refill_cores R C cs h m)"

context region_env
begin

lemma refill_step:
  assumes "\<not> rg_is_invalid R (get_slot m (Slot c))" and "\<not> rg_is_local R (get_slot m (Slot c))"
    and "cl False = Slot c"
  shows "if length (items (used_regions m)) < capacity (used_regions m)
    then \<exists>success m'. try_refill_core_local_free_region R C cl False (Some (Slot c)) h m = Inr (success, h, m')
      \<and> length (items (used_regions m')) = Suc (length (items (used_regions m)))
      \<and> capacity (used_regions m') = capacity (used_regions m)
      \<and> (\<forall>d. d \<noteq> c \<longrightarrow> get_slot m' (Slot d) = get_slot m (Slot d))
    else try_refill_core_local_free_region R C cl False (Some (Slot c)) h m = Inl Bug_On"
proof (cases "length (items (used_regions m)) < capacity (used_regions m)")
  case False
  then have "\<not> fst (cb_push_back C (get_slot m (Slot c)) (used_regions m))"
    by (intro push_back_full) simp
  then show ?thesis using False assms
    by (simp add: try_refill_core_local_free_region_def retire_region_def spin_lock_def split_def Let_def)
next
  case True
  then obtain r' q' where p: "cb_push_back C (get_slot m (Slot c)) (used_regions m) = (True, r', q')"
      and q: "items q' = items (used_regions m) @ [get_slot m (Slot c)]" "capacity q' = capacity (used_regions m)"
      and invalid: "rg_is_invalid R r'"
    using push_back_room by blast
  let ?m = "set_slot (m\<lparr>region_spin := True, used_regions := q'\<rparr>) (Slot c) r'"
  have retire: "retire_region R C (Slot c) h (spin_lock m) = Inr ?m"
    using p assms by (simp add: retire_region_def spin_lock_def)
  obtain success r q2 where pop: "cb_pop_front C r' (free_regions m) = (success, r, q2)" by (metis prod_cases3)
  show ?thesis using True retire invalid assms(3) q pop
    by (simp add: try_refill_core_local_free_region_def spin_unlock_def)
qed

lemma refill_cores_overflow:
  assumes "k \<le> n" and "length (items (used_regions m)) = k" and "capacity (used_regions m) = n"
    and "\<And>c. k \<le> c \<Longrightarrow> c \<le> n \<Longrightarrow> \<not> rg_is_invalid R (get_slot m (Slot c)) \<and> \<not> rg_is_local R (get_slot m (Slot c))"
  shows "refill_cores R C [k..<n + 1] h m = Inl Bug_On"
  using assms
proof (induction "n - k" arbitrary: k h m)
  case 0
  then show ?case using refill_step [of m k "\<lambda>nt. if nt then Nt_Slot k else Slot k" h] by simp
next
  case (Suc j)
  then have k: "k < n" and upt: "[k..<n + 1] = k # [Suc k..<n + 1]" by (simp_all add: upt_conv_Cons)
  obtain success m' where step: "try_refill_core_local_free_region R C (\<lambda>nt. if nt then Nt_Slot k else Slot k) False (Some (Slot k)) h m
        = Inr (success, h, m')"
      and m': "length (items (used_regions m')) = Suc k" "capacity (used_regions m') = n"
        "\<And>d. d \<noteq> k \<Longrightarrow> get_slot m' (Slot d) = get_slot m (Slot d)"
    using refill_step [of m k "\<lambda>nt. if nt then Nt_Slot k else Slot k" h] Suc.prems k by auto
  have "refill_cores R C [Suc k..<n + 1] h m' = Inl Bug_On"
    using Suc.hyps(2) Suc.prems(4) k m' by (intro Suc.hyps(1)) auto
  then show ?case using upt step by simp
qed

end


text \<open>
  Non-temporal refill: when no free region is left, refilling the non-temporal
  per-core region from itself fails, and still sets the non-temporal flag through a region
  that has just become invalid.
\<close>

theorem nt_refill_marks_invalid_region:
  assumes "region_env R C items capacity" and "rm_wf R items capacity N m"
    and "slot_core (cl True) < kNumCPUs" and "items (free_regions m) = []"
  shows "\<exists>r m'. rg_is_invalid R r \<and>
    try_refill_core_local_free_region R C cl True (Some (cl True)) h m = Inr (False, snd (rg_set_nt R r h), m')"
proof -
  have ok: "rm_ok R items capacity N (spin_lock m)" using assms(2) by (simp add: rm_wf_def spin_lock_def)
  obtain m1 where m1: "retire_region R C (cl True) h (spin_lock m) = Inr m1"
      "free_regions m1 = free_regions m" "rg_is_invalid R (get_slot m1 (cl True))"
    using region_env.retire_region_spec [OF assms(1) ok assms(3), of h] by (auto simp: spin_lock_def)
  have "cb_pop_front C (get_slot m1 (cl True)) (free_regions m1) = (False, get_slot m1 (cl True), free_regions m1)"
    using region_env.pop_front_Nil [OF assms(1)] assms(4) m1(2) by simp
  then show ?thesis using m1
    by (intro exI [of _ "get_slot m1 (cl True)"]) (simp add: try_refill_core_local_free_region_def split_def Let_def)
qed

section \<open>Instances\<close>

lemma layout_env: "region_env layout_regions ring_ops ring_items ring_cap"
  by (rule ring_regions.region_env_axioms)

text \<open>
  A manager with empty per-core regions, whose queues hold the given regions and have
  room for 50.
\<close>

definition demo_region :: "nat \<Rightarrow> Region" where
  "demo_region i = fst (rg_make layout_regions (of_nat i) True False (of_nat (1024 * (i + 1))) (\<lambda>_. 0))"

definition demo_queue :: "Region list \<Rightarrow> ring" where
  "demo_queue rs = \<lparr>ring_cells = (\<lambda>i. rs ! i), ring_head = 0, ring_cnt = length rs, ring_cap = 50\<rparr>"

definition demo_rm :: "Region list \<Rightarrow> Region list \<Rightarrow> Region list \<Rightarrow> ring RegionManager" where
  "demo_rm free used nt = \<lparr>region_spin = False, free_regions = demo_queue free, used_regions = demo_queue used,
     nt_used_regions = demo_queue nt, core_local_free_regions = (\<lambda>_. rg_default layout_regions),
     core_local_free_nt_regions = (\<lambda>_. rg_default layout_regions), local_cache_ptr = 0\<rparr>"

lemma demo_queue_items: "length rs \<le> 50 \<Longrightarrow> ring_items (demo_queue rs) = rs"
  by (auto simp: ring_items_def ring_size_def demo_queue_def intro: nth_equalityI)

lemma demo_queue_cap [simp]: "ring_cap (demo_queue rs) = 50"
  by (simp add: demo_queue_def)

lemma demo_region_simps [simp]:
  "region_idx (demo_region i) = of_nat i"
  "rg_is_invalid layout_regions (demo_region i) \<longleftrightarrow> of_nat i = kInvalidIdx"
  "rg_is_invalid layout_regions (rg_default layout_regions)"
  by (simp_all add: demo_region_def layout_regions_def)

lemma valid_ids_default:
  "valid_ids layout_regions (core_regions (demo_rm free used nt)) = {#}"
proof -
  have "filter_mset (\<lambda>r. \<not> rg_is_invalid layout_regions r) (mset (map (\<lambda>_. rg_default layout_regions) [0..<n])) = {#}" for n
    by (induction n) simp_all
  then show ?thesis by (simp add: valid_ids_def core_regions_def demo_rm_def)
qed

lemma demo_rm_wf: "rm_wf layout_regions ring_items ring_cap 50 (demo_rm [demo_region 0] [demo_region 1] [demo_region 2])"
  by (simp add: rm_wf_def rm_ok_def region_ids_split valid_ids_default)
     (simp add: demo_rm_def demo_queue_items kInvalidIdx_def)


lemma demo_gcable: "rg_is_gcable layout_regions (demo_region i) (\<lambda>_. 0)"
  by (simp add: layout_regions_def)

lemma demo_pop:
  "fst (pop_used_region layout_regions ring_ops 3 (\<lambda>_ _. 0) (demo_rm [demo_region 0] [demo_region 1] [demo_region 2]))
   = Some (demo_region 2)"
  using ring_regions.pop_used_static [of 3 "\<lambda>_. 0" "demo_rm [demo_region 0] [demo_region 1] [demo_region 2]"
      "fst (pop_used_region layout_regions ring_ops 3 (\<lambda>_ _. 0) (demo_rm [demo_region 0] [demo_region 1] [demo_region 2]))"]
  by (simp add: demo_rm_def demo_queue_items demo_gcable prod_eq_iff)

theorem pop_used_region_sound_witness:
  "\<exists>m'. pop_used_region layout_regions ring_ops 3 (\<lambda>_ _. 0) (demo_rm [demo_region 0] [demo_region 1] [demo_region 2])
      = (Some (demo_region 2), m') \<and> rm_wf layout_regions ring_items ring_cap 50 m'
    \<and> region_ids layout_regions ring_items (demo_rm [demo_region 0] [demo_region 1] [demo_region 2])
      = add_mset 2 (region_ids layout_regions ring_items m')"
proof -
  let ?p = "pop_used_region layout_regions ring_ops 3 (\<lambda>_ _. 0) (demo_rm [demo_region 0] [demo_region 1] [demo_region 2])"
  have p: "?p = (Some (demo_region 2), snd ?p)" using demo_pop by (metis prod.collapse)
  show ?thesis using pop_used_region_sound [OF layout_env demo_rm_wf p] p by auto
qed

theorem pop_used_region_choice_witness:
  "fst (pop_used_region layout_regions ring_ops 3 (\<lambda>_ _. 0) (demo_rm [] [demo_region 1, demo_region 4] [])) = Some (demo_region 1)"
proof -
  let ?p = "pop_used_region layout_regions ring_ops 3 (\<lambda>_ _. 0) (demo_rm [] [demo_region 1, demo_region 4] [])"
  have p: "?p = (fst ?p, snd ?p)" by simp
  show ?thesis
    using pop_used_region_choice [OF layout_env p] by (simp add: demo_rm_def demo_queue_items demo_gcable)
qed

theorem RegionManager_ctor_regions_witness:
  "\<exists>m h'. RegionManager_ctor layout_regions ring_ops (\<lambda>_. 4096) 16384 True (\<lambda>_. 0) = Inr (m, h')
     \<and> length (ring_items (free_regions m)) = 12
     \<and> region_ids layout_regions ring_items m = mset (map of_nat [0..<52])"
proof -
  have "(16384 :: u64) \<le> 2 ^ 41" by simp
  from RegionManager_ctor_regions [OF layout_env this, of "\<lambda>_. 4096" True "\<lambda>_. 0"] show ?thesis by auto
qed

theorem cache_regions_overrun_witness:
  "\<exists>m h' r. RegionManager_ctor layout_regions ring_ops (\<lambda>_. 4096) 16384 True (\<lambda>_. 0) = Inr (m, h')
    \<and> r \<in># owned_regions ring_items m \<and> buf_ptr r = local_cache_ptr m + 52224"
proof -
  have "(16384 :: u64) \<le> 2 ^ 41" "4 < (unat (16384 :: u64) + 1023) div 1024"
    "51 < (unat (16384 :: u64) + 1023) div 1024 + 36" by simp_all
  from cache_regions_overrun [OF layout_env this, of "\<lambda>_. 4096" "\<lambda>_. 0"] show ?thesis
    by (auto simp: kSize_def kShift_def)
qed

text \<open>Buffers of exactly the capacity asked for.\<close>

definition tight_ops :: "ring cb_ops" where
  "tight_ops = ring_ops\<lparr>cb_make := (\<lambda>n. (cb_make ring_ops n)\<lparr>ring_cap := n\<rparr>)\<rparr>"

lemma tight_sel:
  "cb_push_back tight_ops = cb_push_back ring_ops" "cb_push_front tight_ops = cb_push_front ring_ops"
  "cb_pop_front tight_ops = cb_pop_front ring_ops" "ring_items (cb_make tight_ops n) = []" "ring_cap (cb_make tight_ops n) = n"
  by (simp_all add: tight_ops_def ring_ops_def ring_items_def ring_size_def)

lemma tight_regions: "region_env layout_regions tight_ops ring_items ring_cap"
proof
  show "length (ring_items q) < ring_cap q \<Longrightarrow> \<exists>r' q'. cb_push_back tight_ops r q = (True, r', q')
      \<and> ring_items q' = ring_items q @ [r] \<and> ring_cap q' = ring_cap q \<and> rg_is_invalid layout_regions r'" for q r
    using ring_regions.push_back_room [of q r] by (simp add: tight_sel)
  show "length (ring_items q) < ring_cap q \<Longrightarrow> \<exists>r' q'. cb_push_front tight_ops r q = (True, r', q')
      \<and> ring_items q' = r # ring_items q \<and> ring_cap q' = ring_cap q \<and> rg_is_invalid layout_regions r'" for q r
    using ring_regions.push_front_room [of q r] by (simp add: tight_sel)
  show "ring_items q = x # xs \<Longrightarrow> \<exists>q'. cb_pop_front tight_ops r q = (True, x, q') \<and> ring_items q' = xs \<and> ring_cap q' = ring_cap q" for q x xs r
    using ring_regions.pop_front_Cons [of q x xs r] by (simp add: tight_sel)
qed (use ring_regions.invalid_iff ring_regions.make_idx ring_regions.make_buf ring_regions.set_nt_idx ring_regions.reset_idx
      ring_regions.alloc_idx ring_regions.alloc_invalid ring_regions.push_back_full ring_regions.pop_front_Nil ring_regions.items_bounded
    in \<open>simp_all add: tight_sel del: length_ring_items\<close>)


theorem nt_refill_marks_invalid_region_witness:
  "\<exists>r m'. rg_is_invalid layout_regions r \<and>
    try_refill_core_local_free_region layout_regions ring_ops (\<lambda>nt. if nt then Nt_Slot 0 else Slot 0) True (Some (Nt_Slot 0))
      (\<lambda>_. 0) (demo_rm [] [] []) = Inr (False, snd (rg_set_nt layout_regions r (\<lambda>_. 0)), m')"
proof -
  have "rm_wf layout_regions ring_items ring_cap 50 (demo_rm [] [] [])"
    by (simp add: rm_wf_def rm_ok_def region_ids_split valid_ids_default) (simp add: demo_rm_def demo_queue_items)
  from nt_refill_marks_invalid_region [OF layout_env this, of "\<lambda>nt. if nt then Nt_Slot 0 else Slot 0" "\<lambda>_. 0"]
  show ?thesis by (auto simp: kNumCPUs_def demo_rm_def demo_queue_items)
qed

end
