(* ===== verification/Fm_Pointer.thy ===== *)
theory Fm_Pointer
  imports Fm_Prelude
begin

text \<open>
  Far-memory pointers (\<^verbatim>\<open>aifm_changes/pointer.hpp\<close>), the objects they point to and the
  device that holds the objects swapped out. The header gives the pointer format and its
  constants. The bodies of the methods, the object layout and the device are outside the
  repository: they are the parameters \<open>ptr_ops\<close>, \<open>object_ops\<close> and \<open>device_ops\<close>, and what
  the manager relies on are the locales \<open>object_env\<close>, \<open>ptr_env\<close> and \<open>device_env\<close>. Each is
  interpreted on an instance, the one of the pointers on the documented format.
\<close>

section \<open>Constants of FarMemPtrMeta\<close>

definition kMetaSize :: nat where "kMetaSize = 8"
definition kEvacuationPos :: nat where "kEvacuationPos = 2"
definition kObjectIDBitPos :: nat where "kObjectIDBitPos = 26"
definition kObjectIDBitSize :: nat where "kObjectIDBitSize = 38"
definition kObjectDataAddrPos :: nat where "kObjectDataAddrPos = 2"
definition kObjectDataAddrSize :: nat where "kObjectDataAddrSize = 6"
definition kDirtyClear :: u32 where "kDirtyClear = 0x400"
definition kPresentClear :: u32 where "kPresentClear = 0x100"
definition kHotClear :: u32 where "kHotClear = 0x80"
definition kEvacuationSet :: u32 where "kEvacuationSet = 0x10000"
definition kObjIDLenPosShift :: nat where "kObjIDLenPosShift = 9"
definition kObjectDataAddrBitPos :: nat where "kObjectDataAddrBitPos = 17"
definition kObjectSizeBitPos :: nat where "kObjectSizeBitPos = 10"
definition kHotPos :: nat where "kHotPos = 0"
definition kPresentPos :: nat where "kPresentPos = 1"
definition kHotThresh :: nat where "kHotThresh = 2"
definition kDSIDPos :: nat where "kDSIDPos = 0"
definition kSharedBitPos :: nat where "kSharedBitPos = 9"
definition kNull :: u64 where "kNull = ucast kPresentClear"
definition kNullMask :: u64 where "kNullMask = push_bit (8 * kPresentPos) (NOT 0)"

lemmas meta_constants = kMetaSize_def kEvacuationPos_def kObjectIDBitPos_def kObjectIDBitSize_def
  kObjectDataAddrPos_def kObjectDataAddrSize_def kDirtyClear_def kPresentClear_def kHotClear_def
  kEvacuationSet_def kObjIDLenPosShift_def kObjectDataAddrBitPos_def kObjectSizeBitPos_def kHotPos_def
  kPresentPos_def kHotThresh_def kDSIDPos_def kSharedBitPos_def kNull_def kNullMask_def

section \<open>Objects\<close>

text \<open>
  The methods of \<^verbatim>\<open>Object\<close>: an object is an address and its fields lie in local memory.
  \<open>ob_init\<close> writes data structure id, data length and object id; the bytes of the id are
  passed as a list.
\<close>

record object_ops =
  ob_kHeaderSize :: nat
  ob_init :: "u8 \<Rightarrow> u16 \<Rightarrow> u8 list \<Rightarrow> addr \<Rightarrow> heap \<Rightarrow> heap"
  ob_set_obj_id :: "u8 list \<Rightarrow> addr \<Rightarrow> heap \<Rightarrow> heap"
  ob_get_data_addr :: "addr \<Rightarrow> addr"
  ob_get_data_len :: "heap \<Rightarrow> addr \<Rightarrow> u16"
  ob_get_ds_id :: "heap \<Rightarrow> addr \<Rightarrow> u8"
  ob_get_obj_id :: "heap \<Rightarrow> addr \<Rightarrow> addr"
  ob_get_obj_id_len :: "heap \<Rightarrow> addr \<Rightarrow> u8"
  ob_get_ptr_addr :: "heap \<Rightarrow> addr \<Rightarrow> addr"
  ob_size :: "heap \<Rightarrow> addr \<Rightarrow> u16"
  ob_is_freed :: "heap \<Rightarrow> addr \<Rightarrow> bool"
  ob_free :: "addr \<Rightarrow> heap \<Rightarrow> heap"

text \<open>The object id as bytes, and what an object holds: data structure, id and data.\<close>

definition obj_id_bytes :: "object_ops \<Rightarrow> heap \<Rightarrow> addr \<Rightarrow> u8 list" where
  "obj_id_bytes Ob h a = rd_bytes h (ob_get_obj_id Ob h a) (unat (ob_get_obj_id_len Ob h a))"

definition obj_data :: "object_ops \<Rightarrow> heap \<Rightarrow> addr \<Rightarrow> u8 list" where
  "obj_data Ob h a = rd_bytes h (ob_get_data_addr Ob a) (unat (ob_get_data_len Ob h a))"

definition obj_view :: "object_ops \<Rightarrow> heap \<Rightarrow> addr \<Rightarrow> u8 \<times> u8 list \<times> u8 list" where
  "obj_view Ob h a = (ob_get_ds_id Ob h a, obj_id_bytes Ob h a, obj_data Ob h a)"

text \<open>The object belongs to the pointer at \<open>p\<close>.\<close>

definition owned_by :: "object_ops \<Rightarrow> heap \<Rightarrow> addr \<Rightarrow> addr \<Rightarrow> bool" where
  "owned_by Ob h a p \<longleftrightarrow> ob_get_ptr_addr Ob h a = p \<and> \<not> ob_is_freed Ob h a"

text \<open>The size fits the 16 bits of \<^verbatim>\<open>Object::size()\<close>.\<close>

definition obj_ok :: "object_ops \<Rightarrow> heap \<Rightarrow> addr \<Rightarrow> bool" where
  "obj_ok Ob h a \<longleftrightarrow> ob_kHeaderSize Ob + length (obj_data Ob h a) + length (obj_id_bytes Ob h a) < 2 ^ 16"

text \<open>
  An object occupies header, data and id; everything about it is read from these bytes,
  wherever they are. Its pointer's address, by which a freed object is told, is in the header
  and not written by the constructor.
\<close>

locale object_env =
  fixes Ob :: object_ops
  assumes data_addr: "ob_get_data_addr Ob a = a + of_nat (ob_kHeaderSize Ob)"
    and size_view: "obj_ok Ob h a \<Longrightarrow> unat (ob_size Ob h a) = ob_kHeaderSize Ob + length (obj_data Ob h a) + length (obj_id_bytes Ob h a)"
    and view_bytes: "obj_ok Ob h a \<Longrightarrow> rd_bytes h' a' (unat (ob_size Ob h a)) = rd_bytes h a (unat (ob_size Ob h a)) \<Longrightarrow>
      obj_view Ob h' a' = obj_view Ob h a \<and> ob_size Ob h' a' = ob_size Ob h a \<and> ob_is_freed Ob h' a' = ob_is_freed Ob h a"
    and init_view: "length oid < 256 \<Longrightarrow> ob_kHeaderSize Ob + unat len + length oid < 2 ^ 16 \<Longrightarrow>
      obj_view Ob (ob_init Ob ds len oid a h) a = (ds, oid, rd_bytes h (ob_get_data_addr Ob a) (unat len))"
    and init_outside: "outside a (ob_kHeaderSize Ob + unat len + length oid) x \<Longrightarrow> ob_init Ob ds len oid a h x = h x"
    and header_owner: "(\<And>i. i < ob_kHeaderSize Ob \<Longrightarrow> h' (a + of_nat i) = h (a + of_nat i)) \<Longrightarrow>
      ob_get_ptr_addr Ob h' a = ob_get_ptr_addr Ob h a \<and> ob_is_freed Ob h' a = ob_is_freed Ob h a"
    and init_owner: "length oid < 256 \<Longrightarrow> ob_kHeaderSize Ob + unat len + length oid < 2 ^ 16 \<Longrightarrow>
      ob_get_ptr_addr Ob (ob_init Ob ds len oid a h) a = ob_get_ptr_addr Ob h a
      \<and> ob_is_freed Ob (ob_init Ob ds len oid a h) a = ob_is_freed Ob h a"
begin

lemma data_len_bytes: "length (obj_data Ob h a) = unat (ob_get_data_len Ob h a)"
  by (simp add: obj_data_def)

lemma view_ok: "obj_view Ob h' a' = obj_view Ob h a \<Longrightarrow> obj_ok Ob h' a' = obj_ok Ob h a"
  by (simp add: obj_ok_def obj_view_def)

lemma view_size:
  "obj_view Ob h' a' = obj_view Ob h a \<Longrightarrow> obj_ok Ob h a \<Longrightarrow> ob_size Ob h' a' = ob_size Ob h a"
  using size_view [of h a] size_view [of h' a'] view_ok [of h' a' h a]
  by (simp add: obj_view_def word_unat_eq_iff)

lemma view_agree:
  "obj_ok Ob h a \<Longrightarrow> (\<And>i. i < unat (ob_size Ob h a) \<Longrightarrow> h' (a + of_nat i) = h (a + of_nat i)) \<Longrightarrow>
   obj_view Ob h' a = obj_view Ob h a \<and> ob_size Ob h' a = ob_size Ob h a \<and> ob_is_freed Ob h' a = ob_is_freed Ob h a"
  by (rule view_bytes) (simp_all add: rd_bytes_def)

lemma view_memcpy:
  assumes "obj_ok Ob h a" and "unat (ob_size Ob h a) \<le> n" and "n \<le> 2 ^ 64"
  shows "obj_view Ob (memcpy h a' a n) a' = obj_view Ob h a \<and> ob_size Ob (memcpy h a' a n) a' = ob_size Ob h a"
proof -
  have all: "rd_bytes (memcpy h a' a n) a' n = rd_bytes h a n"
    unfolding memcpy_def by (rule rd_wr_same) (use assms(3) in simp_all)
  have "rd_bytes (memcpy h a' a n) a' (unat (ob_size Ob h a)) = rd_bytes h a (unat (ob_size Ob h a))"
    using arg_cong [OF all, of "take (unat (ob_size Ob h a))"] assms(2) by (simp only: take_rd_bytes)
  from view_bytes [OF assms(1) this] show ?thesis by blast
qed

end

section \<open>Pointers\<close>

text \<open>
  The methods of \<^verbatim>\<open>FarMemPtrMeta\<close> on the 64-bit word of a pointer. The ones that make a
  pointer refer to an object also get the pointer's address and the memory, since the
  object's header has a field for it.
\<close>

record ptr_ops =
  pt_is_present :: "u64 \<Rightarrow> bool"
  pt_is_evacuation :: "u64 \<Rightarrow> bool"
  pt_is_shared :: "u64 \<Rightarrow> bool"
  pt_is_hot :: "u64 \<Rightarrow> bool"
  pt_is_dirty :: "u64 \<Rightarrow> bool"
  pt_is_nt :: "heap \<Rightarrow> u64 \<Rightarrow> bool"
  pt_get_object_id :: "u64 \<Rightarrow> u64"
  pt_get_object_size :: "u64 \<Rightarrow> u16"
  pt_get_ds_id :: "u64 \<Rightarrow> u8"
  pt_get_object_addr :: "u64 \<Rightarrow> addr"
  pt_init :: "bool \<Rightarrow> addr \<Rightarrow> addr \<Rightarrow> u64 \<times> heap \<Rightarrow> u64 \<times> heap"
  pt_set_present :: "addr \<Rightarrow> addr \<Rightarrow> u64 \<times> heap \<Rightarrow> u64 \<times> heap"
  pt_gc_copy :: "addr \<Rightarrow> addr \<Rightarrow> u64 \<times> heap \<Rightarrow> u64 \<times> heap"
  pt_set_evacuation :: "u64 \<Rightarrow> u64"
  pt_gc_wb :: "u8 \<Rightarrow> u16 \<Rightarrow> u64 \<Rightarrow> u64 \<Rightarrow> u64"

text \<open>An object address the pointer word can hold.\<close>

definition addressable :: "object_ops \<Rightarrow> addr \<Rightarrow> bool" where
  "addressable Ob a \<longleftrightarrow> unat a + ob_kHeaderSize Ob < 2 ^ 47"

locale ptr_env = object_env Ob for Ob :: object_ops +
  fixes P :: ptr_ops
  assumes set_present: "addressable Ob a \<Longrightarrow> pt_set_present P p a (m, h) = (m', h') \<Longrightarrow>
      pt_is_present P m' \<and> pt_get_object_addr P m' = a \<and> pt_is_shared P m' = pt_is_shared P m"
    and set_present_heap: "pt_set_present P p a (m, h) = (m', h') \<Longrightarrow>
      obj_view Ob h' a = obj_view Ob h a \<and> ob_size Ob h' a = ob_size Ob h a
      \<and> (\<forall>x. outside a (ob_kHeaderSize Ob) x \<longrightarrow> h' x = h x)"
    and set_present_owner: "p \<noteq> 0 \<Longrightarrow> pt_set_present P p a (m, h) = (m', h') \<Longrightarrow> owned_by Ob h' a p"
    and gc_copy_owner: "p \<noteq> 0 \<Longrightarrow> pt_gc_copy P p a (m, h) = (m', h') \<Longrightarrow> owned_by Ob h' a p"
    and ptr_init_owner: "p \<noteq> 0 \<Longrightarrow> pt_init P shared p a (m, h) = (m', h') \<Longrightarrow> owned_by Ob h' a p"
    and gc_copy: "addressable Ob a \<Longrightarrow> pt_gc_copy P p a (m, h) = (m', h') \<Longrightarrow>
      pt_is_present P m' \<and> pt_get_object_addr P m' = a \<and> pt_is_shared P m' = pt_is_shared P m
      \<and> pt_is_dirty P m' = pt_is_dirty P m \<and> \<not> pt_is_evacuation P m'"
    and gc_copy_heap: "pt_gc_copy P p a (m, h) = (m', h') \<Longrightarrow>
      obj_view Ob h' a = obj_view Ob h a \<and> ob_size Ob h' a = ob_size Ob h a
      \<and> (\<forall>x. outside a (ob_kHeaderSize Ob) x \<longrightarrow> h' x = h x)"
    and init: "addressable Ob a \<Longrightarrow> pt_init P shared p a (m, h) = (m', h') \<Longrightarrow>
      pt_is_present P m' \<and> pt_get_object_addr P m' = a \<and> pt_is_shared P m' = shared \<and> pt_is_dirty P m'"
    and init_heap: "pt_init P shared p a (m, h) = (m', h') \<Longrightarrow>
      obj_view Ob h' a = obj_view Ob h a \<and> ob_size Ob h' a = ob_size Ob h a
      \<and> (\<forall>x. outside a (ob_kHeaderSize Ob) x \<longrightarrow> h' x = h x)"
    and set_evacuation: "pt_is_present P m \<Longrightarrow> pt_is_evacuation P (pt_set_evacuation P m)
      \<and> pt_is_present P (pt_set_evacuation P m) \<and> pt_get_object_addr P (pt_set_evacuation P m) = pt_get_object_addr P m
      \<and> pt_is_shared P (pt_set_evacuation P m) = pt_is_shared P m \<and> pt_is_dirty P (pt_set_evacuation P m) = pt_is_dirty P m"
    and gc_wb: "oid < 2 ^ 38 \<Longrightarrow> \<not> pt_is_present P (pt_gc_wb P ds sz oid m)
      \<and> pt_get_ds_id P (pt_gc_wb P ds sz oid m) = ds \<and> pt_get_object_size P (pt_gc_wb P ds sz oid m) = sz
      \<and> pt_get_object_id P (pt_gc_wb P ds sz oid m) = oid \<and> pt_is_shared P (pt_gc_wb P ds sz oid m) = pt_is_shared P m"

section \<open>The device\<close>

text \<open>
  \<^verbatim>\<open>read_object\<close> returns the stored length and fills the buffer, \<^verbatim>\<open>write_object\<close> stores.
  \<open>contents\<close> is what the device holds, by data structure and object id.
\<close>

record 'd device_ops =
  dv_read_object :: "u8 \<Rightarrow> u8 list \<Rightarrow> 'd \<Rightarrow> u16 \<times> u8 list \<times> 'd"
  dv_write_object :: "u8 \<Rightarrow> u8 list \<Rightarrow> u8 list \<Rightarrow> 'd \<Rightarrow> 'd"

locale device_env =
  fixes D :: "'d device_ops" and contents :: "'d \<Rightarrow> u8 \<times> u8 list \<Rightarrow> u8 list option"
  assumes read_stored: "contents d (ds, oid) = Some bs \<Longrightarrow> \<exists>d'. dv_read_object D ds oid d = (of_nat (length bs), bs, d')
      \<and> contents d' = contents d"
    and write_stored: "length bs < 2 ^ 16 \<Longrightarrow> contents (dv_write_object D ds oid bs d) = (contents d)((ds, oid) \<mapsto> bs)"

section \<open>An object layout\<close>

text \<open>
  A header of 12 bytes (back pointer, data length, data structure, id length), the data,
  the id. An object without back pointer is freed.
\<close>

definition bo_header :: nat where "bo_header = 12"

definition bo_len :: "heap \<Rightarrow> addr \<Rightarrow> u16" where
  "bo_len h a = ucast (h (a + 8)) OR push_bit 8 (ucast (h (a + 9)))"

definition bo_fields :: "u8 \<Rightarrow> u16 \<Rightarrow> u8 list \<Rightarrow> u8 list" where
  "bo_fields ds len oid = [ucast len, ucast (drop_bit 8 len), ds, of_nat (length oid)]"

lemma length_bo_fields [simp]: "length (bo_fields ds len oid) = 4"
  by (simp add: bo_fields_def)

definition byte_objects :: object_ops where
  "byte_objects = \<lparr>
     ob_kHeaderSize = bo_header,
     ob_init = (\<lambda>ds len oid a h. wr_bytes (wr_bytes h (a + 8) (bo_fields ds len oid)) (a + 12 + of_nat (unat len)) oid),
     ob_set_obj_id = (\<lambda>oid a h. wr_bytes h (a + 12 + of_nat (unat (bo_len h a))) oid),
     ob_get_data_addr = (\<lambda>a. a + of_nat bo_header),
     ob_get_data_len = bo_len,
     ob_get_ds_id = (\<lambda>h a. h (a + 10)),
     ob_get_obj_id = (\<lambda>h a. a + 12 + of_nat (unat (bo_len h a))),
     ob_get_obj_id_len = (\<lambda>h a. h (a + 11)),
     ob_get_ptr_addr = rd_u64,
     ob_size = (\<lambda>h a. of_nat (12 + unat (bo_len h a) + unat (h (a + 11)))),
     ob_is_freed = (\<lambda>h a. rd_u64 h a = 0),
     ob_free = (\<lambda>a h. wr_bytes h a (replicate 8 0))\<rparr>"

lemma bo_len_bytes: "bo_len h a = len \<longleftrightarrow> h (a + 8) = ucast len \<and> h (a + 9) = ucast (drop_bit 8 len)"
proof -
  have l: "bit (bo_len h a) i \<longleftrightarrow> (if i < 8 then bit (h (a + 8)) i else bit (h (a + 9)) (i - 8))" if "i < 16" for i
    using that bit_imp_le_length [of "h (a + 8)" i]
    by (auto simp: bo_len_def bit_or_iff bit_ucast_iff bit_push_bit_iff)
  show ?thesis
  proof
    assume len: "bo_len h a = len"
    show "h (a + 8) = ucast len \<and> h (a + 9) = ucast (drop_bit 8 len)"
    proof (intro conjI bit_word_eqI)
      show "bit (h (a + 8)) i = bit (ucast len :: u8) i" if "i < LENGTH(8)" for i
        using l [of i] that len by (simp add: bit_ucast_iff)
      show "bit (h (a + 9)) i = bit (ucast (drop_bit 8 len) :: u8) i" if "i < LENGTH(8)" for i
        using l [of "i + 8"] that len by (simp add: bit_ucast_iff bit_drop_bit_eq add.commute)
    qed
  next
    assume h: "h (a + 8) = ucast len \<and> h (a + 9) = ucast (drop_bit 8 len)"
    show "bo_len h a = len"
      by (rule bit_word_eqI) (use l h in \<open>auto simp: bit_ucast_iff bit_drop_bit_eq not_less\<close>)
  qed
qed

lemma wr_bytes_at: "i < length bs \<Longrightarrow> length bs \<le> 2 ^ 64 \<Longrightarrow> wr_bytes h a bs (a + of_nat i) = bs ! i"
  by (simp add: wr_bytes_def unat_of_nat_u64)

lemma wr_bytes_before:
  "i < k \<Longrightarrow> k + length bs \<le> 2 ^ 64 \<Longrightarrow> wr_bytes h (a + of_nat k) bs (a + of_nat i) = h (a + of_nat i)"
proof -
  assume i: "i < k" and k: "k + length bs \<le> 2 ^ 64"
  have "unat (of_nat i - of_nat k :: u64) = 2 ^ 64 + i - k" if "k < 2 ^ 64"
  proof -
    have "(of_nat i - of_nat k :: u64) = of_nat (2 ^ 64 + i - k)"
      using that i by (simp add: of_nat_diff)
    moreover have "2 ^ 64 + i - k < 2 ^ 64" using i by simp
    ultimately show ?thesis by (simp only: unat_of_nat_u64)
  qed
  then show ?thesis using i k by (cases "bs = []") (auto simp: wr_bytes_def algebra_simps)
qed

lemma wr_bytes_empty [simp]: "wr_bytes h a [] = h"
  by (simp add: wr_bytes_def)

lemma rd_bytes_nth: "i < n \<Longrightarrow> rd_bytes h a n ! i = h (a + of_nat i)"
  by (simp add: rd_bytes_def)

lemma bo_view_agree:
  assumes "\<And>i. 8 \<le> i \<Longrightarrow> i < 12 + unat (bo_len h a) + unat (h (a + 11)) \<Longrightarrow> h' (a' + of_nat i) = h (a + of_nat i)"
  shows "bo_len h' a' = bo_len h a" "h' (a' + 10) = h (a + 10)" "h' (a' + 11) = h (a + 11)"
    "obj_view byte_objects h' a' = obj_view byte_objects h a"
proof -
  have at: "h' (a' + 8) = h (a + 8)" "h' (a' + 9) = h (a + 9)" "h' (a' + 10) = h (a + 10)" "h' (a' + 11) = h (a + 11)"
    using assms [of 8] assms [of 9] assms [of 10] assms [of 11] by simp_all
  then show len: "bo_len h' a' = bo_len h a" by (simp add: bo_len_def)
  show "h' (a' + 10) = h (a + 10)" "h' (a' + 11) = h (a + 11)" by (rule at)+
  have "h' (a' + 12 + of_nat i) = h (a + 12 + of_nat i)" if "i < unat (bo_len h a) + unat (h (a + 11))" for i
    using assms [of "12 + i"] that by (simp add: add.assoc)
  moreover have "h' (a' + 12 + of_nat (unat (bo_len h a)) + of_nat i) = h (a + 12 + of_nat (unat (bo_len h a)) + of_nat i)"
    if "i < unat (h (a + 11))" for i
    using assms [of "12 + unat (bo_len h a) + i"] that by (simp add: add.assoc)
  ultimately show "obj_view byte_objects h' a' = obj_view byte_objects h a"
    using at len by (simp add: obj_view_def obj_id_bytes_def obj_data_def byte_objects_def bo_header_def rd_bytes_def
        del: of_nat_unat)
qed

lemma bo_agree:
  assumes "\<And>i. i < 12 + unat (bo_len h a) + unat (h (a + 11)) \<Longrightarrow> h' (a' + of_nat i) = h (a + of_nat i)"
  shows "bo_len h' a' = bo_len h a" "h' (a' + 10) = h (a + 10)" "h' (a' + 11) = h (a + 11)"
    "rd_u64 h' a' = rd_u64 h a" "obj_view byte_objects h' a' = obj_view byte_objects h a"
proof -
  show "bo_len h' a' = bo_len h a" "h' (a' + 10) = h (a + 10)" "h' (a' + 11) = h (a + 11)"
    "obj_view byte_objects h' a' = obj_view byte_objects h a"
    using bo_view_agree [of h a h' a'] assms by blast+
  show "rd_u64 h' a' = rd_u64 h a"
    unfolding rd_u64_def rd_bytes_def by (intro arg_cong [where f = u64_of_bytes] map_cong) (use assms in auto)
qed

lemma bo_init_fields:
  fixes h :: heap and a :: addr and ds :: u8
  assumes "length oid < 256" and "12 + unat len + length oid < 2 ^ 16"
  defines "h' \<equiv> ob_init byte_objects ds len oid a h"
  shows "bo_len h' a = len" "h' (a + 10) = ds" "unat (h' (a + 11)) = length oid"
    "rd_bytes h' (a + 12) (unat len) = rd_bytes h (a + 12) (unat len)"
    "rd_bytes h' (a + 12 + of_nat (unat len)) (length oid) = oid"
proof -
  let ?h1 = "wr_bytes h (a + 8) (bo_fields ds len oid)"
  have h': "h' = wr_bytes ?h1 (a + of_nat (12 + unat len)) oid"
    by (simp add: h'_def byte_objects_def add.assoc)
  have old: "h' (a + of_nat i) = ?h1 (a + of_nat i)" if "i < 12 + unat len" for i
    unfolding h' by (rule wr_bytes_before) (use that assms(2) in simp_all)
  have field: "?h1 (a + of_nat (8 + i)) = bo_fields ds len oid ! i" if "i < 4" for i
    using wr_bytes_at [of i "bo_fields ds len oid" h "a + 8"] that by (simp add: bo_fields_def add.assoc)
  have "h' (a + 8) = ucast len" "h' (a + 9) = ucast (drop_bit 8 len)" "h' (a + 10) = ds" "h' (a + 11) = of_nat (length oid)"
    using old [of 8] field [of 0] old [of 9] field [of 1] old [of 10] field [of 2] old [of 11] field [of 3]
    by (simp_all add: bo_fields_def)
  then show "bo_len h' a = len" "h' (a + 10) = ds" "unat (h' (a + 11)) = length oid"
    using assms(1) by (simp_all add: bo_len_bytes unat_of_nat take_bit_nat_eq_self)
  show "rd_bytes h' (a + 12 + of_nat (unat len)) (length oid) = oid"
    unfolding h' using rd_wr_same [of "length oid" oid ?h1 "a + of_nat (12 + unat len)"] assms(1) by (simp add: add.assoc)
  have "h' (a + 12 + of_nat i) = h (a + 12 + of_nat i)" if "i < unat len" for i
  proof -
    have "outside (a + 8) 4 (a + of_nat (12 + i))"
    proof -
      have "(a + of_nat (12 + i)) - (a + 8) = (of_nat (4 + i) :: u64)" by simp
      then show ?thesis using that assms(2) unat_of_nat_u64 [of "4 + i"] by (simp add: outside_def)
    qed
    then have "?h1 (a + of_nat (12 + i)) = h (a + of_nat (12 + i))"
      by (intro wr_bytes_outside) (simp add: bo_fields_def numeral_eq_Suc)
    then show ?thesis using old [of "12 + i"] that by (simp add: add.assoc)
  qed
  then show "rd_bytes h' (a + 12) (unat len) = rd_bytes h (a + 12) (unat len)"
    by (simp add: rd_bytes_def del: of_nat_unat)
qed

lemma bo_size:
  assumes "obj_ok byte_objects h a"
  shows "unat (ob_size byte_objects h a) = 12 + unat (bo_len h a) + unat (h (a + 11))"
proof -
  have "12 + unat (bo_len h a) + unat (h (a + 11)) < 2 ^ 16"
    using assms by (simp add: obj_ok_def obj_data_def obj_id_bytes_def byte_objects_def bo_header_def)
  moreover have "ob_size byte_objects h a = of_nat (12 + unat (bo_len h a) + unat (h (a + 11)))"
    by (simp only: byte_objects_def object_ops.simps)
  ultimately show ?thesis by (simp only: unat_of_nat_u16)
qed

interpretation bytes: object_env byte_objects
proof
  fix h a
  assume ok: "obj_ok byte_objects h a"
  show "unat (ob_size byte_objects h a)
      = ob_kHeaderSize byte_objects + length (obj_data byte_objects h a) + length (obj_id_bytes byte_objects h a)"
    using bo_size [OF ok] by (simp add: obj_data_def obj_id_bytes_def byte_objects_def bo_header_def)
  fix h' a'
  assume eq: "rd_bytes h' a' (unat (ob_size byte_objects h a)) = rd_bytes h a (unat (ob_size byte_objects h a))"
  have "h' (a' + of_nat i) = h (a + of_nat i)" if "i < 12 + unat (bo_len h a) + unat (h (a + 11))" for i
    using arg_cong [OF eq, of "\<lambda>bs. bs ! i"] that by (simp add: bo_size [OF ok] rd_bytes_nth)
  note agree = bo_agree [of h a h' a', OF this]
  show "obj_view byte_objects h' a' = obj_view byte_objects h a \<and> ob_size byte_objects h' a' = ob_size byte_objects h a
      \<and> ob_is_freed byte_objects h' a' = ob_is_freed byte_objects h a"
    using agree by (simp add: byte_objects_def)
next
  fix oid :: "u8 list" and len :: u16 and ds :: u8 and a :: addr and h :: heap
  assume l: "length oid < 256" and fit: "ob_kHeaderSize byte_objects + unat len + length oid < 2 ^ 16"
  have fit': "12 + unat len + length oid < 2 ^ 16" using fit by (simp add: byte_objects_def bo_header_def)
  note f = bo_init_fields [OF l fit', of ds a h]
  have "ob_get_ds_id byte_objects = (\<lambda>h a. h (a + 10))" "ob_get_data_len byte_objects = bo_len"
      "ob_get_obj_id byte_objects = (\<lambda>h a. a + 12 + of_nat (unat (bo_len h a)))"
      "ob_get_obj_id_len byte_objects = (\<lambda>h a. h (a + 11))" "ob_get_data_addr byte_objects = (\<lambda>a. a + 12)"
    by (simp_all add: byte_objects_def bo_header_def)
  then show "obj_view byte_objects (ob_init byte_objects ds len oid a h) a
      = (ds, oid, rd_bytes h (ob_get_data_addr byte_objects a) (unat len))"
    using f by (simp add: obj_view_def obj_id_bytes_def obj_data_def del: of_nat_unat)
next
  fix a :: addr and len :: u16 and oid :: "u8 list" and x ds h
  assume out: "outside a (ob_kHeaderSize byte_objects + unat len + length oid) x"
  then have far: "12 + unat len + length oid \<le> unat (x - a)" by (simp add: outside_def byte_objects_def bo_header_def)
  have "outside (a + 8) 4 x" "outside (a + 12 + of_nat (unat len)) (length oid) x"
    using outside_sub [of a "12 + unat len + length oid" x 8 4]
      outside_sub [of a "12 + unat len + length oid" x "12 + unat len" "length oid"] far
    by (simp_all add: outside_def add.assoc del: of_nat_unat)
  then show "ob_init byte_objects ds len oid a h x = h x"
    by (simp add: byte_objects_def wr_bytes_outside del: of_nat_unat)
next
  fix h h' :: heap and a :: addr
  assume "\<And>i. i < ob_kHeaderSize byte_objects \<Longrightarrow> h' (a + of_nat i) = h (a + of_nat i)"
  then have "rd_u64 h' a = rd_u64 h a"
    unfolding rd_u64_def rd_bytes_def by (intro arg_cong [where f = u64_of_bytes] map_cong) (auto simp: byte_objects_def bo_header_def)
  then show "ob_get_ptr_addr byte_objects h' a = ob_get_ptr_addr byte_objects h a \<and> ob_is_freed byte_objects h' a = ob_is_freed byte_objects h a"
    by (simp add: byte_objects_def)
next
  fix oid :: "u8 list" and len :: u16 and ds :: u8 and a :: addr and h :: heap
  assume fit: "length oid < 256" "ob_kHeaderSize byte_objects + unat len + length oid < 2 ^ 16"
  have "ob_init byte_objects ds len oid a h (a + of_nat i) = h (a + of_nat i)" if "i < 8" for i
  proof -
    have "wr_bytes (wr_bytes h (a + 8) (bo_fields ds len oid)) (a + of_nat (12 + unat len)) oid (a + of_nat i)
        = wr_bytes h (a + 8) (bo_fields ds len oid) (a + of_nat i)"
      using that fit by (intro wr_bytes_before) (simp_all add: byte_objects_def bo_header_def)
    moreover have "wr_bytes h (a + of_nat 8) (bo_fields ds len oid) (a + of_nat i) = h (a + of_nat i)"
      using that by (intro wr_bytes_before) simp_all
    ultimately show ?thesis by (simp add: byte_objects_def add.assoc)
  qed
  then have "rd_u64 (ob_init byte_objects ds len oid a h) a = rd_u64 h a"
    unfolding rd_u64_def rd_bytes_def by (intro arg_cong [where f = u64_of_bytes] map_cong) auto
  then show "ob_get_ptr_addr byte_objects (ob_init byte_objects ds len oid a h) a = ob_get_ptr_addr byte_objects h a
      \<and> ob_is_freed byte_objects (ob_init byte_objects ds len oid a h) a = ob_is_freed byte_objects h a"
    by (simp add: byte_objects_def)
qed (simp_all add: byte_objects_def)

section \<open>The documented pointer format\<close>

text \<open>
  Format I is a present pointer: \<^verbatim>\<open>!H\<close>, \<^verbatim>\<open>S\<close>, \<^verbatim>\<open>!D\<close> and \<^verbatim>\<open>E\<close> are the bits of the
  constants above, the data address starts at bit 17. Format II is an absent one: data
  structure, \<^verbatim>\<open>!P\<close>, \<^verbatim>\<open>S\<close>, object size from bit 10, object id from bit 26.
\<close>

definition shared_bit :: "u64 \<Rightarrow> u64" where
  "shared_bit m = m AND push_bit kSharedBitPos 1"

definition to_word :: "addr \<Rightarrow> u64" where
  "to_word a = push_bit kObjectDataAddrBitPos (a + of_nat bo_header)"

definition link_object :: "addr \<Rightarrow> addr \<Rightarrow> heap \<Rightarrow> heap" where
  "link_object p a h = wr_bytes h a (u64_bytes p)"

definition format_ptrs :: ptr_ops where
  "format_ptrs = \<lparr>
     pt_is_present = (\<lambda>m. m AND ucast kPresentClear = 0),
     pt_is_evacuation = (\<lambda>m. m AND ucast kEvacuationSet \<noteq> 0),
     pt_is_shared = (\<lambda>m. shared_bit m \<noteq> 0),
     pt_is_hot = (\<lambda>m. m AND ucast kHotClear = 0),
     pt_is_dirty = (\<lambda>m. m AND ucast kDirtyClear = 0),
     pt_is_nt = (\<lambda>h m. h ((drop_bit kObjectDataAddrBitPos m div 1024) * 1024 + 4) \<noteq> 0),
     pt_get_object_id = drop_bit kObjectIDBitPos,
     pt_get_object_size = (\<lambda>m. ucast (drop_bit kObjectSizeBitPos m)),
     pt_get_ds_id = (\<lambda>m. ucast (drop_bit (8 * kDSIDPos) m)),
     pt_get_object_addr = (\<lambda>m. drop_bit kObjectDataAddrBitPos m - of_nat bo_header),
     pt_init = (\<lambda>shared p a (m, h). (to_word a OR (if shared then push_bit kSharedBitPos 1 else 0), link_object p a h)),
     pt_set_present = (\<lambda>p a (m, h). (to_word a OR shared_bit m OR ucast kDirtyClear, link_object p a h)),
     pt_gc_copy = (\<lambda>p a (m, h). (to_word a OR shared_bit m OR (m AND ucast kDirtyClear) OR ucast kHotClear, link_object p a h)),
     pt_set_evacuation = (\<lambda>m. m OR ucast kEvacuationSet),
     pt_gc_wb = (\<lambda>ds sz oid m. ucast ds OR ucast kPresentClear OR shared_bit m
        OR push_bit kObjectSizeBitPos (ucast sz) OR push_bit kObjectIDBitPos oid)\<rparr>"

definition flag :: "nat \<Rightarrow> u64" where
  "flag n = 2 ^ n"

lemma and_flag: "m AND flag n = 0 \<longleftrightarrow> \<not> bit m n"
  unfolding flag_def by (metis and_exp_eq_0_iff_not_bit)

lemma bit_flag: "bit (flag n) i \<longleftrightarrow> i = n \<and> n < 64"
  by (auto simp: flag_def bit_exp_iff possible_bit_def)

lemma flag_bits:
  "(ucast kPresentClear :: u64) = flag 8" "(ucast kEvacuationSet :: u64) = flag 16"
  "(ucast kHotClear :: u64) = flag 7" "(ucast kDirtyClear :: u64) = flag 10"
  "(2 :: u64) ^ kSharedBitPos = flag 9"
  by (simp_all add: meta_constants flag_def)

lemma bit_shared_bit: "bit (shared_bit m) i \<longleftrightarrow> i = 9 \<and> bit m 9"
  by (auto simp: shared_bit_def flag_bits bit_and_iff bit_flag)

lemma format_bits:
  "pt_is_present format_ptrs m \<longleftrightarrow> \<not> bit m 8" "pt_is_evacuation format_ptrs m \<longleftrightarrow> bit m 16"
  "pt_is_shared format_ptrs m \<longleftrightarrow> bit m 9" "pt_is_dirty format_ptrs m \<longleftrightarrow> \<not> bit m 10"
  "pt_is_hot format_ptrs m \<longleftrightarrow> \<not> bit m 7"
  by (simp_all add: format_ptrs_def shared_bit_def flag_bits and_flag)

lemma format_fields:
  "pt_get_object_addr format_ptrs m = drop_bit kObjectDataAddrBitPos m - of_nat bo_header"
  "pt_get_object_id format_ptrs m = drop_bit 26 m" "pt_get_object_size format_ptrs m = ucast (drop_bit 10 m)"
  "pt_get_ds_id format_ptrs m = ucast m"
  by (simp_all add: format_ptrs_def meta_constants)

lemma small_no_bit: "unat (y :: 'a :: len word) < 2 ^ k \<Longrightarrow> bit y i \<Longrightarrow> i < k"
proof -
  assume "unat y < 2 ^ k" "bit y i"
  then have "take_bit k y = y" by (metis take_bit_nat_eq_self unsigned_take_bit_eq word_unat_eq_iff)
  then show ?thesis using \<open>bit y i\<close> by (metis bit_take_bit_iff)
qed

lemma drop_push_word:
  assumes "unat (y :: u64) < 2 ^ (64 - k)" and "\<And>n. bit r n \<Longrightarrow> n < k" and "k \<le> 64"
  shows "drop_bit k (push_bit k y OR r) = y"
proof (rule bit_word_eqI)
  fix i
  assume "i < LENGTH(64)"
  have "\<not> bit r (k + i)" using assms(2) [of "k + i"] by auto
  moreover have "bit y i \<Longrightarrow> i < 64 - k" using small_no_bit [OF assms(1)] .
  ultimately show "bit (drop_bit k (push_bit k y OR r)) i = bit y i"
    using assms(3) by (auto simp: bit_drop_bit_eq bit_or_iff bit_push_bit_iff)
qed

lemma word_addr:
  assumes "addressable byte_objects a" and "\<And>n. bit r n \<Longrightarrow> n < 17"
  shows "drop_bit kObjectDataAddrBitPos (to_word a OR r) - of_nat bo_header = a"
proof -
  have "unat a + 12 < 2 ^ 47" using assms(1) by (simp add: addressable_def byte_objects_def bo_header_def)
  then have "unat (a + of_nat bo_header) < 2 ^ 47" by (simp add: bo_header_def unat_plus_if_size word_size)
  then have "drop_bit 17 (push_bit 17 (a + of_nat bo_header) OR r) = a + of_nat bo_header"
    by (intro drop_push_word) (use assms(2) in auto)
  then show ?thesis by (simp add: to_word_def kObjectDataAddrBitPos_def)
qed

lemma to_word_bit [simp]: "n < 17 \<Longrightarrow> \<not> bit (to_word a) n"
  by (simp add: to_word_def bit_push_bit_iff kObjectDataAddrBitPos_def)

lemmas word_bits = format_bits flag_bits bit_or_iff bit_and_iff bit_flag bit_shared_bit

lemma link_view:
  "obj_view byte_objects (link_object p a h) a = obj_view byte_objects h a
   \<and> ob_size byte_objects (link_object p a h) a = ob_size byte_objects h a
   \<and> (\<forall>x. outside a (ob_kHeaderSize byte_objects) x \<longrightarrow> link_object p a h x = h x)"
proof -
  have "link_object p a h (a + of_nat i) = h (a + of_nat i)"
    if "8 \<le> i" "i < 12 + unat (bo_len h a) + unat (h (a + 11))" for i
  proof -
    have "unat (bo_len h a) < 2 ^ 16" "unat (h (a + 11)) < 2 ^ 8"
      using unsigned_less [of "bo_len h a"] unsigned_less [of "h (a + 11)"] by simp_all
    then have "i < 2 ^ 64" using that(2) by simp
    then have "outside a 8 (a + of_nat i)" using that(1) by (simp add: outside_def unat_of_nat_u64)
    then show ?thesis by (simp add: link_object_def wr_bytes_outside)
  qed
  note agree = bo_view_agree [of h a "link_object p a h" a, OF this]
  have "link_object p a h x = h x" if "outside a (ob_kHeaderSize byte_objects) x" for x
    using that by (simp add: link_object_def wr_bytes_outside outside_def byte_objects_def bo_header_def)
  then show ?thesis using agree by (simp add: byte_objects_def)
qed

lemma link_owned: "p \<noteq> 0 \<Longrightarrow> owned_by byte_objects (link_object p a h) a p"
proof -
  have "rd_bytes (link_object p a h) a 8 = u64_bytes p" unfolding link_object_def by (rule rd_wr_same) simp_all
  then have "rd_u64 (link_object p a h) a = p" by (rule rd_u64_bytes)
  then show "p \<noteq> 0 \<Longrightarrow> ?thesis" by (simp add: owned_by_def byte_objects_def)
qed

definition wb_bits :: "u8 \<Rightarrow> u16 \<Rightarrow> u64 \<Rightarrow> u64 \<Rightarrow> nat \<Rightarrow> bool" where
  "wb_bits ds sz oid m i \<longleftrightarrow> i < 64 \<and> (bit ds i \<or> i = 8 \<or> (i = 9 \<and> bit m 9) \<or> (10 \<le> i \<and> bit sz (i - 10))
     \<or> (26 \<le> i \<and> bit oid (i - 26)))"

lemma bit_gc_wb: "bit (pt_gc_wb format_ptrs ds sz oid m) i \<longleftrightarrow> wb_bits ds sz oid m i"
proof -
  have "pt_gc_wb format_ptrs ds sz oid m
      = ucast ds OR flag 8 OR shared_bit m OR push_bit 10 (ucast sz) OR push_bit 26 oid"
    by (simp add: format_ptrs_def flag_bits kObjectSizeBitPos_def kObjectIDBitPos_def)
  then show ?thesis
    by (auto simp: wb_bits_def word_bits bit_ucast_iff bit_push_bit_iff dest: bit_imp_le_length)
qed

lemma wb_word:
  fixes ds :: u8 and sz :: u16 and m :: u64
  assumes "oid < 2 ^ 38"
  defines "w \<equiv> pt_gc_wb format_ptrs ds sz oid m"
  shows "bit w 8 \<and> bit w 9 = bit m 9 \<and> ucast w = ds \<and> ucast (drop_bit 10 w) = sz \<and> drop_bit 26 w = oid"
proof -
  have small: "bit ds i \<Longrightarrow> i < 8" "bit sz i \<Longrightarrow> i < 16" for i
    using bit_imp_le_length [of ds i] bit_imp_le_length [of sz i] by simp_all
  have bits: "bit w i \<longleftrightarrow> wb_bits ds sz oid m i" for i unfolding w_def by (rule bit_gc_wb)
  have id_bound: "bit oid i \<Longrightarrow> i < 38" for i
    using small_no_bit [of oid 38 i] assms(1) by (simp add: word_less_nat_alt)
  have "drop_bit 26 w = oid"
    by (rule bit_word_eqI) (use small id_bound in \<open>force simp: bits wb_bits_def bit_drop_bit_eq\<close>)
  moreover have "(ucast (drop_bit 10 w) :: u16) = sz"
    by (rule bit_word_eqI) (use small in \<open>force simp: bits wb_bits_def bit_drop_bit_eq bit_ucast_iff\<close>)
  moreover have "(ucast w :: u8) = ds"
    by (rule bit_word_eqI) (use small in \<open>force simp: bits wb_bits_def bit_ucast_iff\<close>)
  moreover have "bit w 8" "bit w 9 = bit m 9" using small(1) [of 9] by (auto simp: bits wb_bits_def)
  ultimately show ?thesis by simp
qed

lemma absent_word:
  assumes "\<not> pt_is_present format_ptrs m"
  shows "pt_gc_wb format_ptrs (pt_get_ds_id format_ptrs m) (pt_get_object_size format_ptrs m)
    (pt_get_object_id format_ptrs m) m = m"
proof (rule bit_word_eqI)
  fix i
  assume i: "i < LENGTH(64)"
  have m8: "bit m 8" using assms by (simp add: format_bits)
  consider "i < 8" | "i = 8" | "i = 9" | "10 \<le> i" "i < 26" | "26 \<le> i" by linarith
  then show "bit (pt_gc_wb format_ptrs (pt_get_ds_id format_ptrs m) (pt_get_object_size format_ptrs m)
      (pt_get_object_id format_ptrs m) m) i = bit m i"
    using i m8 by cases (auto simp: bit_gc_wb wb_bits_def format_fields bit_ucast_iff bit_drop_bit_eq)
qed

interpretation format_ptr: ptr_env byte_objects format_ptrs
proof
  fix a p :: addr and m m' :: u64 and h h' :: heap and shared ds sz oid
  have view: "obj_view byte_objects (link_object p a h) a = obj_view byte_objects h a
      \<and> ob_size byte_objects (link_object p a h) a = ob_size byte_objects h a
      \<and> (\<forall>x. outside a (ob_kHeaderSize byte_objects) x \<longrightarrow> link_object p a h x = h x)" for p a h
    by (rule link_view)
  { assume "pt_set_present format_ptrs p a (m, h) = (m', h')"
    then show "obj_view byte_objects h' a = obj_view byte_objects h a \<and> ob_size byte_objects h' a = ob_size byte_objects h a
      \<and> (\<forall>x. outside a (ob_kHeaderSize byte_objects) x \<longrightarrow> h' x = h x)"
      using view by (auto simp: format_ptrs_def) }
  { assume "pt_gc_copy format_ptrs p a (m, h) = (m', h')"
    then show "obj_view byte_objects h' a = obj_view byte_objects h a \<and> ob_size byte_objects h' a = ob_size byte_objects h a
      \<and> (\<forall>x. outside a (ob_kHeaderSize byte_objects) x \<longrightarrow> h' x = h x)"
      using view by (auto simp: format_ptrs_def) }
  { assume "pt_init format_ptrs shared p a (m, h) = (m', h')"
    then show "obj_view byte_objects h' a = obj_view byte_objects h a \<and> ob_size byte_objects h' a = ob_size byte_objects h a
      \<and> (\<forall>x. outside a (ob_kHeaderSize byte_objects) x \<longrightarrow> h' x = h x)"
      using view by (auto simp: format_ptrs_def) }
  { assume "p \<noteq> 0" "pt_set_present format_ptrs p a (m, h) = (m', h')"
    then show "owned_by byte_objects h' a p" using link_owned by (auto simp: format_ptrs_def) }
  { assume "p \<noteq> 0" "pt_gc_copy format_ptrs p a (m, h) = (m', h')"
    then show "owned_by byte_objects h' a p" using link_owned by (auto simp: format_ptrs_def) }
  { assume "p \<noteq> 0" "pt_init format_ptrs shared p a (m, h) = (m', h')"
    then show "owned_by byte_objects h' a p" using link_owned by (auto simp: format_ptrs_def) }
  assume a: "addressable byte_objects a"
  note addr = word_addr [OF a]
  { assume "pt_set_present format_ptrs p a (m, h) = (m', h')"
    then have m': "m' = to_word a OR (shared_bit m OR ucast kDirtyClear)" by (simp add: format_ptrs_def or.assoc)
    show "pt_is_present format_ptrs m' \<and> pt_get_object_addr format_ptrs m' = a
       \<and> pt_is_shared format_ptrs m' = pt_is_shared format_ptrs m"
      proof -
      have "pt_get_object_addr format_ptrs m' = a"
        unfolding m' format_fields(1) by (rule addr) (auto simp: word_bits split: if_splits)
      then show ?thesis unfolding m' by (auto simp: word_bits)
    qed }
  { assume "pt_gc_copy format_ptrs p a (m, h) = (m', h')"
    then have m': "m' = to_word a OR (shared_bit m OR (m AND ucast kDirtyClear) OR ucast kHotClear)"
      by (simp add: format_ptrs_def or.assoc)
    show "pt_is_present format_ptrs m' \<and> pt_get_object_addr format_ptrs m' = a
       \<and> pt_is_shared format_ptrs m' = pt_is_shared format_ptrs m
       \<and> pt_is_dirty format_ptrs m' = pt_is_dirty format_ptrs m \<and> \<not> pt_is_evacuation format_ptrs m'"
      proof -
      have "pt_get_object_addr format_ptrs m' = a"
        unfolding m' format_fields(1) by (rule addr) (auto simp: word_bits split: if_splits)
      then show ?thesis unfolding m'
      by (auto simp: word_bits)
    qed }
  { assume "pt_init format_ptrs shared p a (m, h) = (m', h')"
    then have m': "m' = to_word a OR (if shared then flag 9 else 0)"
      by (cases shared) (auto simp: format_ptrs_def flag_bits)
    show "pt_is_present format_ptrs m' \<and> pt_get_object_addr format_ptrs m' = a
       \<and> pt_is_shared format_ptrs m' = shared \<and> pt_is_dirty format_ptrs m'"
      proof -
      have "pt_get_object_addr format_ptrs m' = a"
        unfolding m' format_fields(1) by (rule addr) (auto simp: word_bits split: if_splits)
      then show ?thesis unfolding m' 
      by (auto simp: word_bits)
    qed }
next
  fix m :: u64
  have keep: "drop_bit kObjectDataAddrBitPos (m OR flag 16) = drop_bit kObjectDataAddrBitPos m"
    by (rule bit_word_eqI) (auto simp: bit_drop_bit_eq word_bits kObjectDataAddrBitPos_def)
  assume "pt_is_present format_ptrs m"
  then show "pt_is_evacuation format_ptrs (pt_set_evacuation format_ptrs m)
      \<and> pt_is_present format_ptrs (pt_set_evacuation format_ptrs m)
      \<and> pt_get_object_addr format_ptrs (pt_set_evacuation format_ptrs m) = pt_get_object_addr format_ptrs m
      \<and> pt_is_shared format_ptrs (pt_set_evacuation format_ptrs m) = pt_is_shared format_ptrs m
      \<and> pt_is_dirty format_ptrs (pt_set_evacuation format_ptrs m) = pt_is_dirty format_ptrs m"
  proof -
    have "pt_set_evacuation format_ptrs m = m OR flag 16" by (simp add: format_ptrs_def flag_bits)
    then show ?thesis using keep \<open>pt_is_present format_ptrs m\<close> by (simp add: word_bits format_fields(1))
  qed
next
  fix oid m :: u64 and ds :: u8 and sz :: u16
  assume "oid < 2 ^ 38"
  from wb_word [OF this, of ds sz m] show "\<not> pt_is_present format_ptrs (pt_gc_wb format_ptrs ds sz oid m)
      \<and> pt_get_ds_id format_ptrs (pt_gc_wb format_ptrs ds sz oid m) = ds
      \<and> pt_get_object_size format_ptrs (pt_gc_wb format_ptrs ds sz oid m) = sz
      \<and> pt_get_object_id format_ptrs (pt_gc_wb format_ptrs ds sz oid m) = oid
      \<and> pt_is_shared format_ptrs (pt_gc_wb format_ptrs ds sz oid m) = pt_is_shared format_ptrs m"
    by (simp only: format_bits format_fields) simp
qed

lemma null_word: "bit kNull 8 \<and> kNull AND kNullMask = kNull"
  by (simp add: kNull_def kNullMask_def kPresentClear_def kPresentPos_def mask_eq_exp_minus_1)

text \<open>
  Pointer format: in the documented format of an absent pointer the fields tile the
  word. Writing back any data structure, size and 38-bit object id leaves an absent pointer
  from which the three are read back, and an absent pointer is determined by its fields
  and its shared bit. The null word is an absent pointer.
\<close>

theorem absent_format_tiles:
  shows "oid < 2 ^ kObjectIDBitSize \<Longrightarrow>
      \<not> pt_is_present format_ptrs (pt_gc_wb format_ptrs ds sz oid m)
      \<and> pt_get_ds_id format_ptrs (pt_gc_wb format_ptrs ds sz oid m) = ds
      \<and> pt_get_object_size format_ptrs (pt_gc_wb format_ptrs ds sz oid m) = sz
      \<and> pt_get_object_id format_ptrs (pt_gc_wb format_ptrs ds sz oid m) = oid
      \<and> (\<not> pt_is_present format_ptrs m \<longrightarrow> pt_gc_wb format_ptrs (pt_get_ds_id format_ptrs m)
          (pt_get_object_size format_ptrs m) (pt_get_object_id format_ptrs m) m = m)
      \<and> \<not> pt_is_present format_ptrs kNull \<and> kNull AND kNullMask = kNull"
  by (use format_ptr.gc_wb [of oid ds sz m] absent_word [of m] null_word in
    \<open>auto simp: kObjectIDBitSize_def format_bits\<close>)

theorem absent_format_tiles_witness:
  "pt_get_object_id format_ptrs (pt_gc_wb format_ptrs 7 100 (2 ^ 38 - 1) 0) = 2 ^ 38 - 1"
  using absent_format_tiles [of "2 ^ 38 - 1" 7 100 0] by (simp add: kObjectIDBitSize_def)

section \<open>A device\<close>

definition map_device :: "(u8 \<times> u8 list \<Rightarrow> u8 list option) device_ops" where
  "map_device = \<lparr>
     dv_read_object = (\<lambda>ds oid d. case d (ds, oid) of None \<Rightarrow> (0, [], d) | Some bs \<Rightarrow> (of_nat (length bs), bs, d)),
     dv_write_object = (\<lambda>ds oid bs d. d((ds, oid) \<mapsto> bs))\<rparr>"

interpretation map_dev: device_env map_device "\<lambda>d. d"
  by unfold_locales (simp_all add: map_device_def)

end
