(* ===== verification/Fm_State.thy ===== *)
theory Fm_State
  imports Fm_RegionManager Fm_Pointer
begin

text \<open>
  The state of the far-memory manager (\<^verbatim>\<open>FarMemManager\<close> and the variables
  \<^verbatim>\<open>aifm_changes/manager.cpp\<close> shares with it) and what it uses from outside the repository.

  Pointer words (\<open>metas\<close>) are kept apart from the bytes of the regions (\<open>heap\<close>): a C++
  pointer object never overlaps a region. \<open>obj_locks\<close> are the ids held in the object
  locker, \<open>cur_slot\<close> the per-core regions of the running core, \<open>preempt_cnt\<close> the depth of
  \<^verbatim>\<open>preempt_disable\<close>. A notifier is the address of a function, 0 when none is set.
\<close>

section \<open>State\<close>

record ('q, 'd) fm_state =
  heap :: heap
  metas :: "addr \<Rightarrow> u64"
  next_ptrs :: "addr \<Rightarrow> addr"
  cache_region_manager :: "'q RegionManager"
  far_mem_region_manager :: "'q RegionManager"
  device :: 'd
  obj_locks :: "u8 list set"
  preempt_cnt :: int
  cur_slot :: "bool \<Rightarrow> slot"
  almost_empty :: bool
  gc_lock :: bool
  gc_master_active :: bool
  gc_master_spawned :: bool
  pending_gcs :: int
  from_regions :: "Region list"
  available_ds_ids :: "u8 list"
  evac_notifiers :: "u8 \<Rightarrow> addr"
  copy_notifiers :: "u8 \<Rightarrow> addr"
  expected_status :: nat
  self_th_status :: nat
  prioritized_status :: nat
  global_prioritizing :: bool

section \<open>The world outside\<close>

text \<open>
  What the manager calls: the methods of regions, buffers, objects, pointers and the
  device, the traversal of the ring of a shared pointer, the notifiers, \<^verbatim>\<open>deref\<close>, the
  inline checks of the manager's own header, and the points where other threads run. \<open>lock_wait\<close> and
  \<open>condvar_wait\<close> return the state in which the lock is free or the signal has arrived, and
  \<open>None\<close> when that never happens.
\<close>

record ('q, 'd) ext =
  Rg :: region_ops
  Cb :: "'q cb_ops"
  Ob :: object_ops
  Pt :: ptr_ops
  Dv :: "'d device_ops"
  traverse :: "(addr \<Rightarrow> addr) \<Rightarrow> addr \<Rightarrow> addr list"
  evac_fn :: "addr \<Rightarrow> addr \<Rightarrow> (u32 \<Rightarrow> ('q, 'd) fm_state \<Rightarrow> ('q, 'd) fm_state) \<Rightarrow> ('q, 'd) fm_state \<Rightarrow> bool \<times> ('q, 'd) fm_state"
  copy_fn :: "addr \<Rightarrow> addr \<Rightarrow> addr \<Rightarrow> ('q, 'd) fm_state \<Rightarrow> ('q, 'd) fm_state"
  gc_check :: "('q, 'd) fm_state \<Rightarrow> ('q, 'd) fm_state"
  condvar_wait :: "('q, 'd) fm_state \<Rightarrow> ('q, 'd) fm_state option"
  lock_wait :: "u8 list \<Rightarrow> ('q, 'd) fm_state \<Rightarrow> ('q, 'd) fm_state option"
  is_in_deref_scope :: "('q, 'd) fm_state \<Rightarrow> bool"
  deref_fn :: "addr \<Rightarrow> ('q, 'd) fm_state \<Rightarrow> (fm_error + ('q, 'd) fm_state) option"
  kVanillaPtrDSID :: u8
  kVanillaPtrObjectIDSize :: u8

section \<open>Locks, preemption and pointer updates\<close>

definition preempt_disable :: "('q, 'd) fm_state \<Rightarrow> ('q, 'd) fm_state" where
  "preempt_disable s = s\<lparr>preempt_cnt := preempt_cnt s + 1\<rparr>"

definition preempt_enable :: "('q, 'd) fm_state \<Rightarrow> ('q, 'd) fm_state" where
  "preempt_enable s = s\<lparr>preempt_cnt := preempt_cnt s - 1\<rparr>"

definition lock_object :: "('q, 'd) ext \<Rightarrow> u8 list \<Rightarrow> ('q, 'd) fm_state \<Rightarrow> (fm_error + ('q, 'd) fm_state) option" where
  "lock_object E oid s =
     (case lock_wait E oid s of None \<Rightarrow> None
      | Some s \<Rightarrow> Some (Inr (s\<lparr>obj_locks := insert oid (obj_locks s)\<rparr>)))"

definition unlock_object :: "u8 list \<Rightarrow> ('q, 'd) fm_state \<Rightarrow> ('q, 'd) fm_state" where
  "unlock_object oid s = s\<lparr>obj_locks := obj_locks s - {oid}\<rparr>"

text \<open>A method of the pointer at \<open>p\<close> that may write the header of the object it refers to.\<close>

definition upd_ptr :: "(u64 \<times> heap \<Rightarrow> u64 \<times> heap) \<Rightarrow> addr \<Rightarrow> ('q, 'd) fm_state \<Rightarrow> ('q, 'd) fm_state" where
  "upd_ptr f p s = (let (m, h) = f (metas s p, heap s) in s\<lparr>metas := (metas s)(p := m), heap := h\<rparr>)"

definition upd_meta :: "(u64 \<Rightarrow> u64) \<Rightarrow> addr \<Rightarrow> ('q, 'd) fm_state \<Rightarrow> ('q, 'd) fm_state" where
  "upd_meta f p s = s\<lparr>metas := (metas s)(p := f (metas s p))\<rparr>"

text \<open>
  The pointers an operation on \<open>p\<close> reaches: \<open>p\<close> itself, or all of the ring that shares the
  object.
\<close>

definition ptr_targets :: "('q, 'd) ext \<Rightarrow> addr \<Rightarrow> ('q, 'd) fm_state \<Rightarrow> addr list" where
  "ptr_targets E p s = (if \<not> pt_is_shared (Pt E) (metas s p) then [p] else traverse E (next_ptrs s) p)"

definition inc_ref_cnt :: "('q, 'd) ext \<Rightarrow> addr \<Rightarrow> int \<Rightarrow> ('q, 'd) fm_state \<Rightarrow> ('q, 'd) fm_state" where
  "inc_ref_cnt E a delta s = s\<lparr>heap := rg_atomic_inc_ref_cnt (Rg E) a delta (heap s)\<rparr>"

lemmas state_ops = preempt_disable_def preempt_enable_def unlock_object_def upd_meta_def inc_ref_cnt_def

section \<open>Object bytes\<close>

text \<open>
  The bytes of a region behind its header hold objects. \<open>placed a n\<close>: the \<open>n\<close> bytes from
  \<open>a\<close> lie in one region, behind its header.
\<close>

definition body :: "addr \<Rightarrow> bool" where
  "body x \<longleftrightarrow> kHeaderSize \<le> unat x mod kSize"

definition placed :: "addr \<Rightarrow> nat \<Rightarrow> bool" where
  "placed a n \<longleftrightarrow> kHeaderSize \<le> unat a mod kSize \<and> unat a mod kSize + n \<le> kSize"

lemma kSize_val: "kSize = 1024"
  by (simp add: kSize_def kShift_def)

lemma region_end: "unat (a :: addr) div kSize * kSize + kSize \<le> 2 ^ 64"
proof -
  have "unat a < 2 ^ 64" using unsigned_less [of a] by simp
  then have "unat a div kSize < 2 ^ 54" by (simp add: kSize_val less_mult_imp_div_less)
  then show ?thesis by (simp add: kSize_val)
qed

lemma placed_body:
  assumes "placed a n" and "i < n"
  shows "body (a + of_nat i)"
proof -
  have fit: "unat a mod kSize + i < kSize" using assms by (simp add: placed_def)
  have "unat a + i < 2 ^ 64"
  proof -
    have "unat a = unat a div kSize * kSize + unat a mod kSize" by simp
    moreover note region_end [of a]
    ultimately show ?thesis using fit by linarith
  qed
  then have "unat (a + of_nat i) = unat a + i"
    by (simp add: unat_word_ariths unat_of_nat_u64)
  moreover have "(unat a + i) mod kSize = unat a mod kSize + i"
    using fit by (metis mod_add_left_eq mod_less)
  ultimately show ?thesis using assms by (simp add: body_def placed_def)
qed

text \<open>
  The laws about regions that the objects rely on: an allocated object is placed in a
  region, at an address a pointer can hold, and the methods of a region write only
  headers.
\<close>

definition only_headers :: "heap \<Rightarrow> heap \<Rightarrow> bool" where
  "only_headers h h' \<longleftrightarrow> (\<forall>x. body x \<longrightarrow> h' x = h x)"

lemma only_headers_refl [simp]: "only_headers h h"
  by (simp add: only_headers_def)

lemma only_headers_trans: "only_headers h h1 \<Longrightarrow> only_headers h1 h2 \<Longrightarrow> only_headers h h2"
  by (simp add: only_headers_def)

locale region_layout =
  fixes R :: region_ops and Obj :: object_ops
  assumes alloc_placed: "rg_allocate_object R sz r h = (Some a, r', h') \<Longrightarrow>
      placed a (unat sz) \<and> addressable Obj a"
    and alloc_headers: "rg_allocate_object R sz r h = (res, r', h') \<Longrightarrow> only_headers h h'"
    and set_nt_headers: "rg_set_nt R r h = (r', h') \<Longrightarrow> only_headers h h'"
    and reset_headers: "rg_reset R r h = (r', h') \<Longrightarrow> only_headers h h'"
    and ref_cnt_headers: "only_headers h (rg_atomic_inc_ref_cnt R a d h)"

section \<open>The documented layout meets the laws\<close>

lemma header_not_body:
  assumes "unat b mod kSize = 0" and "body x" and "i + n \<le> kHeaderSize"
  shows "outside (b + of_nat i) n x"
proof (rule ccontr)
  assume "\<not> outside (b + of_nat i) n x"
  then have lt: "unat (x - (b + of_nat i)) < n" by (simp add: outside_def)
  define k where "k = unat (x - (b + of_nat i))"
  have x: "x = b + of_nat (i + k)"
    by (simp add: k_def)
  have "unat b + (i + k) < 2 ^ 64"
  proof -
    have "unat b = unat b div kSize * kSize" using assms(1) div_mult_mod_eq [of "unat b" kSize] by simp
    moreover have "i + k < kSize" using lt assms(3) by (simp add: k_def kHeaderSize_def kSize_val)
    moreover note region_end [of b]
    ultimately show ?thesis by linarith
  qed
  then have "unat x = unat b + (i + k)" unfolding x by (simp add: unat_word_ariths unat_of_nat_u64)
  then have "unat x mod kSize = i + k"
    using assms(1,3) lt by (auto simp: kSize_val kHeaderSize_def k_def mod_add_left_eq [symmetric, of "unat b"] simp del: mod_add_left_eq)
  then show False using assms(2,3) lt by (simp add: body_def k_def)
qed

lemma wr_header_only: "i + length bs \<le> kHeaderSize \<Longrightarrow> only_headers h (wr_header h b i bs)"
  by (auto simp: only_headers_def wr_header_def buf_ok_def intro!: wr_bytes_outside header_not_body)

lemma layout_alloc_placed:
  assumes "rg_allocate_object layout_regions sz r h = (Some a, r', h')"
  shows "placed a (unat sz) \<and> addressable byte_objects a"
proof -
  let ?f = "unat (first_free_byte_idx r)"
  from assms have c: "\<not> kSize < ?f + bump_size sz" "?f < kSize" "kHeaderSize \<le> ?f" "buf_ptr r = 0 \<or> buf_ok (buf_ptr r)"
      and a: "a = region_base r + ucast (first_free_byte_idx r)"
    by (auto simp: layout_regions_def split: if_splits)
  have sz: "unat sz \<le> bump_size sz" by (simp add: bump_size_def) 
  have f: "unat (ucast (first_free_byte_idx r) :: u64) = ?f" 
  proof -
    have "?f < 2 ^ 64" using c by (simp add: kSize_val)
    then show ?thesis by (simp add: unsigned_ucast_eq take_bit_nat_eq_self)
  qed
  have b: "unat (region_base r) mod kSize = 0 \<and> unat (region_base r) < 2 ^ 46"
  proof (cases "buf_ptr r = 0")
    case True
    have i: "unat (region_idx r) < 2 ^ 32" using unsigned_less [of "region_idx r"] by simp
    then have "unat (of_nat (unat (region_idx r) * kSize) :: u64) = unat (region_idx r) * kSize"
      by (intro unat_of_nat_u64) (simp add: kSize_val)
    then show ?thesis using True i by (simp add: region_base_def kSize_val)
  next
    case False
    then show ?thesis using c by (simp add: region_base_def buf_ok_def)
  qed
  then have ua: "unat a = unat (region_base r) + ?f"
    using c unfolding a by (simp add: unat_word_ariths f kSize_val)
  then have "unat a mod kSize = ?f mod kSize" using b by (metis add.left_neutral mod_add_left_eq)
  then have m: "unat a mod kSize = ?f" using c by simp
  have "unat a + 12 < 2 ^ 47" using ua b c by (simp add: kSize_val)
  then show ?thesis using m c sz by (simp add: placed_def addressable_def byte_objects_def bo_header_def)
qed

interpretation layout: region_layout layout_regions byte_objects
proof
  show "rg_allocate_object layout_regions sz r h = (Some a, r', h') \<Longrightarrow> placed a (unat sz) \<and> addressable byte_objects a"
    for sz r h a r' h' by (rule layout_alloc_placed)
  show "only_headers h (rg_atomic_inc_ref_cnt layout_regions a d h)" for h a d
  proof -
    have "unat (ref_cnt_addr a) mod kSize = 0"
    proof -
      have "unat (a div 1024) = unat a div 1024" by (simp add: unat_div)
      then have "unat ((a div 1024) * 1024) = unat a div 1024 * 1024"
        using unat_u64_less [of a] div_times_less_eq_dividend [of "unat a" 1024] by (simp add: unat_word_ariths)
      then show ?thesis by (simp add: ref_cnt_addr_def kSize_val)
    qed
    then show ?thesis
      using header_not_body [of "ref_cnt_addr a" _ 0 1]
      by (auto simp: only_headers_def layout_regions_def kHeaderSize_def intro!: wr_bytes_outside)
  qed
qed (auto simp: layout_regions_def kHeaderSize_def kNtPos_def split: if_splits intro!: wr_header_only)
end
