(* ===== verification/Fm_Alloc.thy ===== *)
theory Fm_Alloc
  imports Fm_State
begin

text \<open>
  Allocation in the local cache and in far memory (\<^verbatim>\<open>allocate_local_object\<close>,
  \<^verbatim>\<open>allocate_local_object_nb\<close>, \<^verbatim>\<open>allocate_remote_object\<close>) and the wait of a mutator for
  the collector. The retry loops may run forever: they are partial functions into
  \<open>option\<close>, and \<open>None\<close> is a call that never returns.
\<close>

section \<open>Waiting for the collector\<close>

text \<open>The condition variable releases \<^verbatim>\<open>gc_lock_\<close> while it waits.\<close>

partial_function (option) wait_cache_loop ::
  "('q, 'd) ext \<Rightarrow> ('q, 'd) fm_state \<Rightarrow> (fm_error + ('q, 'd) fm_state) option" where
  "wait_cache_loop E s =
     (case condvar_wait E (s\<lparr>gc_lock := False\<rparr>) of
        None \<Rightarrow> None
      | Some s' \<Rightarrow>
          (if almost_empty s' then wait_cache_loop E (s'\<lparr>gc_lock := True\<rparr>)
           else Some (Inr (s'\<lparr>gc_lock := True\<rparr>))))"

definition mutator_wait_for_gc_cache ::
  "('q, 'd) ext \<Rightarrow> ('q, 'd) fm_state \<Rightarrow> (fm_error + ('q, 'd) fm_state) option" where
  "mutator_wait_for_gc_cache E s =
     (let s = s\<lparr>gc_lock := True\<rparr>
      in if \<not> almost_empty s then Some (Inr (s\<lparr>gc_lock := False\<rparr>))
         else if is_in_deref_scope E s then Some (Inl Exit_ENOSPC)
         else and_then (wait_cache_loop E s) (\<lambda>s. Some (Inr (s\<lparr>gc_lock := False\<rparr>))))"

definition mutator_wait_for_gc_far_mem :: "('q, 'd) fm_state \<Rightarrow> ('q, 'd) fm_state" where
  "mutator_wait_for_gc_far_mem s = s"

section \<open>One attempt\<close>

text \<open>
  \<^verbatim>\<open>allocate_object\<close> on the running core's region of a manager, and the refill of that
  region.
\<close>

definition try_local :: "('q, 'd) ext \<Rightarrow> bool \<Rightarrow> u16 \<Rightarrow> ('q, 'd) fm_state \<Rightarrow> addr option \<times> ('q, 'd) fm_state" where
  "try_local E nt sz s =
     (let sl = cur_slot s nt;
          (res, r, h) = rg_allocate_object (Rg E) sz (get_slot (cache_region_manager s) sl) (heap s)
      in (res, s\<lparr>heap := h, cache_region_manager := set_slot (cache_region_manager s) sl r\<rparr>))"

definition refill_local :: "('q, 'd) ext \<Rightarrow> bool \<Rightarrow> ('q, 'd) fm_state \<Rightarrow> fm_error + (bool \<times> ('q, 'd) fm_state)" where
  "refill_local E nt s =
     (case try_refill_core_local_free_region (Rg E) (Cb E) (cur_slot s) nt (Some (cur_slot s nt)) (heap s) (cache_region_manager s) of
        Inl e \<Rightarrow> Inl e
      | Inr (success, h, m) \<Rightarrow> Inr (success, s\<lparr>heap := h, cache_region_manager := m\<rparr>))"

definition try_remote :: "('q, 'd) ext \<Rightarrow> bool \<Rightarrow> u16 \<Rightarrow> ('q, 'd) fm_state \<Rightarrow> addr option \<times> ('q, 'd) fm_state" where
  "try_remote E nt sz s =
     (let sl = cur_slot s nt;
          (res, r, h) = rg_allocate_object (Rg E) sz (get_slot (far_mem_region_manager s) sl) (heap s)
      in (res, s\<lparr>heap := h, far_mem_region_manager := set_slot (far_mem_region_manager s) sl r\<rparr>))"

definition refill_remote :: "('q, 'd) ext \<Rightarrow> bool \<Rightarrow> ('q, 'd) fm_state \<Rightarrow> fm_error + (bool \<times> ('q, 'd) fm_state)" where
  "refill_remote E nt s =
     (case try_refill_core_local_free_region (Rg E) (Cb E) (cur_slot s) nt (Some (cur_slot s nt)) (heap s) (far_mem_region_manager s) of
        Inl e \<Rightarrow> Inl e
      | Inr (success, h, m) \<Rightarrow> Inr (success, s\<lparr>heap := h, far_mem_region_manager := m\<rparr>))"

section \<open>The operations\<close>

text \<open>The retry loop returns the address and whether the per-core region was refilled.\<close>

partial_function (option) retry_allocate_local ::
  "('q, 'd) ext \<Rightarrow> bool \<Rightarrow> u16 \<Rightarrow> bool \<Rightarrow> ('q, 'd) fm_state \<Rightarrow> (fm_error + (addr \<times> bool \<times> ('q, 'd) fm_state)) option" where
  "retry_allocate_local E nt sz refilled s =
     (case try_local E nt sz s of
        (Some a, s) \<Rightarrow> Some (Inr (a, refilled, s))
      | (None, s) \<Rightarrow>
          (case refill_local E nt s of
             Inl e \<Rightarrow> Some (Inl e)
           | Inr (success, s) \<Rightarrow>
               (if success then retry_allocate_local E nt sz True s
                else and_then (mutator_wait_for_gc_cache E (preempt_enable s))
                       (\<lambda>s. retry_allocate_local E nt sz True (preempt_disable s)))))"

definition leave_allocation :: "('q, 'd) ext \<Rightarrow> bool \<Rightarrow> ('q, 'd) fm_state \<Rightarrow> ('q, 'd) fm_state" where
  "leave_allocation E refilled s = preempt_enable (if refilled then gc_check E s else s)"

definition allocate_local_object ::
  "('q, 'd) ext \<Rightarrow> bool \<Rightarrow> u16 \<Rightarrow> ('q, 'd) fm_state \<Rightarrow> (fm_error + (addr \<times> ('q, 'd) fm_state)) option" where
  "allocate_local_object E nt sz s =
     and_then (retry_allocate_local E nt sz False (preempt_disable s))
       (\<lambda>(a, refilled, s). Some (Inr (a, leave_allocation E refilled s)))"

partial_function (option) retry_allocate_local_nb ::
  "('q, 'd) ext \<Rightarrow> bool \<Rightarrow> u16 \<Rightarrow> bool \<Rightarrow> ('q, 'd) fm_state \<Rightarrow>
   (fm_error + (addr option \<times> bool \<times> ('q, 'd) fm_state)) option" where
  "retry_allocate_local_nb E nt sz refilled s =
     (case try_local E nt sz s of
        (Some a, s) \<Rightarrow> Some (Inr (Some a, refilled, s))
      | (None, s) \<Rightarrow>
          (case refill_local E nt s of
             Inl e \<Rightarrow> Some (Inl e)
           | Inr (success, s) \<Rightarrow>
               (if \<not> success then Some (Inr (None, True, s))
                else retry_allocate_local_nb E nt sz True s)))"

definition allocate_local_object_nb ::
  "('q, 'd) ext \<Rightarrow> bool \<Rightarrow> u16 \<Rightarrow> ('q, 'd) fm_state \<Rightarrow> (fm_error + (addr option \<times> ('q, 'd) fm_state)) option" where
  "allocate_local_object_nb E nt sz s =
     and_then (retry_allocate_local_nb E nt sz False (preempt_disable s))
       (\<lambda>(res, refilled, s). Some (Inr (res, leave_allocation E refilled s)))"

partial_function (option) retry_allocate_far_mem ::
  "('q, 'd) ext \<Rightarrow> bool \<Rightarrow> u16 \<Rightarrow> ('q, 'd) fm_state \<Rightarrow> (fm_error + (addr \<times> ('q, 'd) fm_state)) option" where
  "retry_allocate_far_mem E nt sz s =
     (case try_remote E nt sz s of
        (Some a, s) \<Rightarrow> Some (Inr (a, s))
      | (None, s) \<Rightarrow>
          (case refill_remote E nt s of
             Inl e \<Rightarrow> Some (Inl e)
           | Inr (success, s) \<Rightarrow>
               retry_allocate_far_mem E nt sz
                 (if \<not> success then preempt_disable (mutator_wait_for_gc_far_mem (preempt_enable s)) else s)))"

definition allocate_remote_object ::
  "('q, 'd) ext \<Rightarrow> bool \<Rightarrow> u16 \<Rightarrow> ('q, 'd) fm_state \<Rightarrow> (fm_error + (addr \<times> ('q, 'd) fm_state)) option" where
  "allocate_remote_object E nt sz s =
     and_then (retry_allocate_far_mem E nt sz (preempt_disable s)) (\<lambda>(a, s). Some (Inr (a, preempt_enable s)))"

section \<open>The contract of the manager's surroundings\<close>

text \<open>
  All laws about the code outside the repository, and about \<^verbatim>\<open>gc_check\<close>, which runs with
  preemption disabled: it may record that the cache is almost empty and spawn a collector,
  but it does not collect.
\<close>

locale manager_env =
  region_env "Rg E" "Cb E" items capacity + region_layout "Rg E" "Ob E" +
  ptr_env "Ob E" "Pt E" + device_env "Dv E" contents
  for E :: "('q, 'd) ext" and items :: "'q \<Rightarrow> Region list" and capacity :: "'q \<Rightarrow> nat"
    and contents :: "'d \<Rightarrow> u8 \<times> u8 list \<Rightarrow> u8 list option" +
  assumes gc_check_flags: "\<exists>b c. gc_check E s = s\<lparr>almost_empty := b, gc_master_spawned := c\<rparr>"

text \<open>
  \<open>cache_ok\<close>: the cache's manager is well formed and the running core is one of the
  \<open>kNumCPUs\<close>. \<open>cache_step\<close>: what allocating does to the state: regions move between the
  queues and the cores, headers are written, and nothing else.
\<close>

definition cache_ok :: "('q, 'd) ext \<Rightarrow> ('q \<Rightarrow> Region list) \<Rightarrow> ('q \<Rightarrow> nat) \<Rightarrow> nat \<Rightarrow> ('q, 'd) fm_state \<Rightarrow> bool" where
  "cache_ok E items capacity N s \<longleftrightarrow>
     rm_wf (Rg E) items capacity N (cache_region_manager s) \<and> (\<forall>nt. slot_core (cur_slot s nt) < kNumCPUs)"

definition cache_step :: "('q, 'd) ext \<Rightarrow> ('q \<Rightarrow> Region list) \<Rightarrow> ('q \<Rightarrow> nat) \<Rightarrow> nat \<Rightarrow> ('q, 'd) fm_state \<Rightarrow> ('q, 'd) fm_state \<Rightarrow> bool" where
  "cache_step E items capacity N s s' \<longleftrightarrow>
     (\<exists>h m. s' = s\<lparr>heap := h, cache_region_manager := m\<rparr> \<and> only_headers (heap s) h
        \<and> rm_wf (Rg E) items capacity N m
        \<and> region_ids (Rg E) items m = region_ids (Rg E) items (cache_region_manager s))"

lemma cache_step_refl: "cache_ok E items capacity N s \<Longrightarrow> cache_step E items capacity N s s"
  unfolding cache_step_def cache_ok_def
  by (intro exI [of _ "heap s"] exI [of _ "cache_region_manager s"]) simp

lemma cache_step_trans:
  assumes "cache_step E items capacity N s s1" and "cache_step E items capacity N s1 s2"
  shows "cache_step E items capacity N s s2"
proof -
  from assms(1) obtain h m where 1: "s1 = s\<lparr>heap := h, cache_region_manager := m\<rparr>" "only_headers (heap s) h"
      "region_ids (Rg E) items m = region_ids (Rg E) items (cache_region_manager s)"
    unfolding cache_step_def by blast
  from assms(2) obtain h' m' where 2: "s2 = s1\<lparr>heap := h', cache_region_manager := m'\<rparr>" "only_headers (heap s1) h'"
      "rm_wf (Rg E) items capacity N m'" "region_ids (Rg E) items m' = region_ids (Rg E) items (cache_region_manager s1)"
    unfolding cache_step_def by blast
  have "s2 = s\<lparr>heap := h', cache_region_manager := m'\<rparr>" using 1 2 by simp
  moreover have "only_headers (heap s) h'" using 1 2 by (auto intro: only_headers_trans)
  ultimately show ?thesis using 1 2 unfolding cache_step_def by auto
qed

lemma cache_step_ok: "cache_step E items capacity N s s' \<Longrightarrow> cache_ok E items capacity N s \<Longrightarrow> cache_ok E items capacity N s'"
  by (auto simp: cache_step_def cache_ok_def)

context manager_env
begin

lemma slot_update_keeps:
  assumes "rm_wf (Rg E) items capacity N m" and "slot_core sl < kNumCPUs"
    and "region_idx r = region_idx (get_slot m sl)"
  shows "rm_wf (Rg E) items capacity N (set_slot m sl r)
    \<and> region_ids (Rg E) items (set_slot m sl r) = region_ids (Rg E) items m"
proof -
  have "valid_ids (Rg E) (core_regions (set_slot m sl r)) + valid_ids (Rg E) {#get_slot m sl#}
      = valid_ids (Rg E) (core_regions m) + valid_ids (Rg E) {#get_slot m sl#}"
    using core_ids_set_slot [OF assms(2), of "Rg E" m r] assms(3) by (simp add: invalid_iff)
  then have "region_ids (Rg E) items (set_slot m sl r) = region_ids (Rg E) items m"
    by (simp add: region_ids_split)
  then show ?thesis using assms(1) by (simp add: rm_wf_def rm_ok_def)
qed

lemma refill_headers:
  "try_refill_core_local_free_region (Rg E) (Cb E) cl nt full h m = Inr (success, h', m') \<Longrightarrow> only_headers h h'"
  using set_nt_headers
  by (auto simp: try_refill_core_local_free_region_def Let_def split: sum.splits if_splits prod.splits)

lemma try_local_spec:
  assumes "try_local E nt sz s = (res, s')" and "cache_ok E items capacity N s"
  shows "cache_step E items capacity N s s'"
    and "free_regions (cache_region_manager s') = free_regions (cache_region_manager s)"
    and "res = Some a \<Longrightarrow> placed a (unat sz) \<and> addressable (Ob E) a"
proof -
  let ?m = "cache_region_manager s" and ?sl = "cur_slot s nt"
  obtain r h where al: "rg_allocate_object (Rg E) sz (get_slot ?m ?sl) (heap s) = (res, r, h)"
      and s': "s' = s\<lparr>heap := h, cache_region_manager := set_slot ?m ?sl r\<rparr>"
    using assms(1) by (auto simp: try_local_def Let_def split: prod.splits)
  have ok: "rm_wf (Rg E) items capacity N ?m" "slot_core ?sl < kNumCPUs" using assms(2) by (simp_all add: cache_ok_def)
  show "cache_step E items capacity N s s'"
    unfolding cache_step_def s' using slot_update_keeps [OF ok alloc_idx [OF al]] alloc_headers [OF al] by blast
  show "free_regions (cache_region_manager s') = free_regions ?m" by (simp add: s')
  show "res = Some a \<Longrightarrow> placed a (unat sz) \<and> addressable (Ob E) a" using alloc_placed al by blast
qed

lemma refill_local_spec:
  assumes "cache_ok E items capacity N s"
  shows "\<exists>success s'. refill_local E nt s = Inr (success, s') \<and> cache_step E items capacity N s s'
    \<and> (success \<longleftrightarrow> items (free_regions (cache_region_manager s)) \<noteq> [])
    \<and> length (items (free_regions (cache_region_manager s'))) = length (items (free_regions (cache_region_manager s))) - 1"
proof -
  let ?m = "cache_region_manager s"
  have ok: "rm_wf (Rg E) items capacity N ?m" "slot_core (cur_slot s nt) < kNumCPUs" using assms by (simp_all add: cache_ok_def)
  obtain success h' m' where r: "try_refill_core_local_free_region (Rg E) (Cb E) (cur_slot s) nt (Some (cur_slot s nt)) (heap s) ?m
        = Inr (success, h', m')" "rm_wf (Rg E) items capacity N m'" "region_ids (Rg E) items m' = region_ids (Rg E) items ?m"
      "success \<longleftrightarrow> items (free_regions ?m) \<noteq> []" "length (items (free_regions m')) = length (items (free_regions ?m)) - 1"
    using refill_spec [where cl = "cur_slot s" and nt = nt and full = "Some (cur_slot s nt)" and h = "heap s", OF ok] ok(2) by blast
  then have "refill_local E nt s = Inr (success, s\<lparr>heap := h', cache_region_manager := m'\<rparr>)"
    by (simp add: refill_local_def)
  then show ?thesis using r refill_headers [OF r(1)] unfolding cache_step_def by auto
qed

lemma retry_nb_spec:
  assumes "cache_ok E items capacity N s"
  shows "\<exists>res refilled' s'. retry_allocate_local_nb E nt sz refilled s = Some (Inr (res, refilled', s'))
    \<and> cache_step E items capacity N s s'
    \<and> (case res of None \<Rightarrow> items (free_regions (cache_region_manager s')) = []
       | Some a \<Rightarrow> placed a (unat sz) \<and> addressable (Ob E) a)"
  using assms
proof (induction "length (items (free_regions (cache_region_manager s)))" arbitrary: s refilled rule: less_induct)
  case less
  obtain res s1 where one: "try_local E nt sz s = (res, s1)" by fastforce
  note 1 = try_local_spec [OF one less.prems]
  show ?case
  proof (cases res)
    case (Some a)
    have "retry_allocate_local_nb E nt sz refilled s = Some (Inr (Some a, refilled, s1))"
      using one Some by (subst retry_allocate_local_nb.simps) simp
    then show ?thesis using 1 Some by auto
  next
    case None
    have ok1: "cache_ok E items capacity N s1" using 1(1) less.prems by (rule cache_step_ok)
    obtain success s2 where two: "refill_local E nt s1 = Inr (success, s2)" "cache_step E items capacity N s1 s2"
        "success \<longleftrightarrow> items (free_regions (cache_region_manager s1)) \<noteq> []"
        "length (items (free_regions (cache_region_manager s2))) = length (items (free_regions (cache_region_manager s1))) - 1"
      using refill_local_spec [OF ok1] by blast
    have step: "cache_step E items capacity N s s2" using 1(1) two(2) by (rule cache_step_trans)
    show ?thesis
    proof (cases success)
      case False
      have "retry_allocate_local_nb E nt sz refilled s = Some (Inr (None, True, s2))"
        using one None two(1) False by (subst retry_allocate_local_nb.simps) simp
      then show ?thesis using step two(3,4) False by auto
    next
      case True
      have dec: "length (items (free_regions (cache_region_manager s2))) < length (items (free_regions (cache_region_manager s)))"
        using True two(3,4) 1(2) by (simp add: length_greater_0_conv [symmetric] del: length_greater_0_conv)
      have ok2: "cache_ok E items capacity N s2" using two(2) ok1 by (rule cache_step_ok)
      have "retry_allocate_local_nb E nt sz refilled s = retry_allocate_local_nb E nt sz True s2"
        using one None two(1) True by (subst retry_allocate_local_nb.simps) simp
      then show ?thesis using less.hyps [OF dec ok2, of True] step by (auto intro: cache_step_trans)
    qed
  qed
qed

lemma gc_check_obtain:
  obtains b c where "gc_check E s = s\<lparr>almost_empty := b, gc_master_spawned := c\<rparr>"
  using gc_check_flags by blast

lemma leave_allocation_frame:
  assumes "cache_step E items capacity N (preempt_disable s) s1"
  shows "\<exists>h m b c. leave_allocation E refilled s1
      = s\<lparr>heap := h, cache_region_manager := m, almost_empty := b, gc_master_spawned := c\<rparr>
    \<and> only_headers (heap s) h \<and> rm_wf (Rg E) items capacity N m
    \<and> region_ids (Rg E) items m = region_ids (Rg E) items (cache_region_manager s)
    \<and> m = cache_region_manager s1"
proof -
  obtain h m where s1: "s1 = (preempt_disable s)\<lparr>heap := h, cache_region_manager := m\<rparr>"
      and hm: "only_headers (heap s) h" "rm_wf (Rg E) items capacity N m"
        "region_ids (Rg E) items m = region_ids (Rg E) items (cache_region_manager s)"
    using assms unfolding cache_step_def by (auto simp: preempt_disable_def)
  obtain b c where g: "gc_check E s1 = s1\<lparr>almost_empty := b, gc_master_spawned := c\<rparr>" by (rule gc_check_obtain)
  show ?thesis
  proof (cases refilled)
    case True
    then have "leave_allocation E refilled s1 = s\<lparr>heap := h, cache_region_manager := m, almost_empty := b, gc_master_spawned := c\<rparr>"
      by (simp add: leave_allocation_def g) (simp add: s1 state_ops)
    then show ?thesis using hm s1 by auto
  next
    case False
    then have "leave_allocation E refilled s1 = s\<lparr>heap := h, cache_region_manager := m,
        almost_empty := almost_empty s, gc_master_spawned := gc_master_spawned s\<rparr>"
      by (simp add: leave_allocation_def s1 state_ops)
    then show ?thesis using hm s1 by (intro exI conjI) (assumption | simp)+
  qed
qed

end

text \<open>What an allocation may change: \<open>cache_step\<close> and the two flags of \<^verbatim>\<open>gc_check\<close>.\<close>

definition alloc_frame :: "('q, 'd) ext \<Rightarrow> ('q \<Rightarrow> Region list) \<Rightarrow> ('q \<Rightarrow> nat) \<Rightarrow> nat \<Rightarrow> ('q, 'd) fm_state \<Rightarrow> ('q, 'd) fm_state \<Rightarrow> bool" where
  "alloc_frame E items capacity N s s' \<longleftrightarrow>
     (\<exists>h m b c. s' = s\<lparr>heap := h, cache_region_manager := m, almost_empty := b, gc_master_spawned := c\<rparr>
        \<and> only_headers (heap s) h \<and> rm_wf (Rg E) items capacity N m
        \<and> region_ids (Rg E) items m = region_ids (Rg E) items (cache_region_manager s))"

lemma alloc_frame_fields:
  assumes "alloc_frame E items capacity N s s'"
  shows "metas s' = metas s" "device s' = device s" "obj_locks s' = obj_locks s" "preempt_cnt s' = preempt_cnt s"
    "next_ptrs s' = next_ptrs s" "cur_slot s' = cur_slot s" "far_mem_region_manager s' = far_mem_region_manager s"
    "only_headers (heap s) (heap s')" "rm_wf (Rg E) items capacity N (cache_region_manager s')"
    "region_ids (Rg E) items (cache_region_manager s') = region_ids (Rg E) items (cache_region_manager s)"
    "evac_notifiers s' = evac_notifiers s" "copy_notifiers s' = copy_notifiers s"
    "from_regions s' = from_regions s" "available_ds_ids s' = available_ds_ids s"
  using assms by (auto simp: alloc_frame_def)

lemma alloc_frame_ok: "alloc_frame E items capacity N s s' \<Longrightarrow> cache_ok E items capacity N s \<Longrightarrow> cache_ok E items capacity N s'"
  using alloc_frame_fields [of E items capacity N s s'] by (simp add: cache_ok_def)

context manager_env
begin

lemma allocate_nb_spec:
  assumes "cache_ok E items capacity N s"
  shows "\<exists>res s'. allocate_local_object_nb E nt sz s = Some (Inr (res, s')) \<and> alloc_frame E items capacity N s s'
    \<and> (case res of None \<Rightarrow> items (free_regions (cache_region_manager s')) = []
       | Some a \<Rightarrow> placed a (unat sz) \<and> addressable (Ob E) a)"
proof -
  have ok: "cache_ok E items capacity N (preempt_disable s)" using assms by (simp add: cache_ok_def preempt_disable_def)
  obtain res refilled s1 where r: "retry_allocate_local_nb E nt sz False (preempt_disable s) = Some (Inr (res, refilled, s1))"
      and st: "cache_step E items capacity N (preempt_disable s) s1"
      and res: "case res of None \<Rightarrow> items (free_regions (cache_region_manager s1)) = []
         | Some a \<Rightarrow> placed a (unat sz) \<and> addressable (Ob E) a"
    using retry_nb_spec [OF ok] by blast
  obtain h m b c where leave: "leave_allocation E refilled s1
        = s\<lparr>heap := h, cache_region_manager := m, almost_empty := b, gc_master_spawned := c\<rparr>"
      "only_headers (heap s) h" "rm_wf (Rg E) items capacity N m"
      "region_ids (Rg E) items m = region_ids (Rg E) items (cache_region_manager s)" "m = cache_region_manager s1"
    using leave_allocation_frame [OF st] by blast
  have "alloc_frame E items capacity N s (leave_allocation E refilled s1)"
    unfolding alloc_frame_def using leave by blast
  moreover have "cache_region_manager (leave_allocation E refilled s1) = cache_region_manager s1" using leave by simp
  ultimately show ?thesis using r res by (auto simp: allocate_local_object_nb_def split: option.splits)
qed

end


section \<open>The blocking variant\<close>

lemma retry_blocking:
  assumes "retry_allocate_local_nb E nt sz refilled s = Some (Inr (Some a, refilled', s'))"
  shows "retry_allocate_local E nt sz refilled s = Some (Inr (a, refilled', s'))"
proof -
  have "\<forall>a refilled' s'. y = Inr (Some a, refilled', s') \<longrightarrow>
      retry_allocate_local E nt sz refilled s = Some (Inr (a, refilled', s'))"
    if "retry_allocate_local_nb E nt sz refilled s = Some y" for y
  proof (rule retry_allocate_local_nb.raw_induct [OF _ that], goal_cases)
    case (1 f E nt sz refilled s y)
    show ?case
      by (subst retry_allocate_local.simps)
        (use 1 in \<open>auto split: prod.splits option.splits sum.splits if_splits\<close>)
  qed
  then show ?thesis using assms by blast
qed

lemma blocking_agrees:
  assumes "allocate_local_object_nb E nt sz s = Some (Inr (Some a, s'))"
  shows "allocate_local_object E nt sz s = Some (Inr (a, s'))"
proof -
  obtain refilled s1 where "retry_allocate_local_nb E nt sz False (preempt_disable s) = Some (Inr (Some a, refilled, s1))"
      "s' = leave_allocation E refilled s1"
    using assms by (auto simp: allocate_local_object_nb_def and_then_Some_Inr)
  then show ?thesis by (simp add: allocate_local_object_def retry_blocking)
qed

text \<open>
  Blocking allocation: where the non-blocking variant finds an address, the blocking
  one returns the same address in the same state.
\<close>

theorem blocking_allocation_agrees:
  assumes "allocate_local_object_nb E nt sz s = Some (Inr (Some a, s'))"
  shows "allocate_local_object E nt sz s = Some (Inr (a, s'))"
  by (rule blocking_agrees [OF assms])

section \<open>Objects no region can hold\<close>

lemma retry_oversize:
  assumes "\<And>r h. fst (rg_allocate_object (Rg E) sz r h) = None"
    and "retry_allocate_local E nt sz refilled s = Some y"
  shows "\<exists>e. y = Inl e"
proof -
  have "(\<forall>r h. fst (rg_allocate_object (Rg E) sz r h) = None) \<longrightarrow> (\<exists>e. y = Inl e)"
  proof (rule retry_allocate_local.raw_induct [OF _ assms(2)], goal_cases)
    case (1 f E nt sz refilled s y)
    then show ?case
      by (auto simp: and_then_def try_local_def Let_def split_def split: option.splits sum.splits if_splits)
  qed
  then show ?thesis using assms(1) by blast
qed

lemma nb_oversize:
  assumes "\<And>r h. fst (rg_allocate_object (Rg E) sz r h) = None" and "allocate_local_object_nb E nt sz s = Some (Inr (res, s'))"
  shows "res = None"
proof (rule ccontr)
  assume "res \<noteq> None"
  then obtain a refilled s1 where "retry_allocate_local_nb E nt sz False (preempt_disable s) = Some (Inr (Some a, refilled, s1))"
    using assms(2) by (auto simp: allocate_local_object_nb_def and_then_Some_Inr)
  from retry_oversize [OF assms(1) retry_blocking [OF this]] show False by simp
qed

text \<open>
  C25 (objects no region can hold): a size no region ever has room for empties the free list
  region by region. The non-blocking variant then gives up with no free region left, and
  the blocking one never returns an address.
\<close>

theorem oversize_drains_cache:
  assumes "manager_env E items capacity contents" and "cache_ok E items capacity N s"
    and "\<And>r h. fst (rg_allocate_object (Rg E) sz r h) = None"
  shows "\<exists>s'. allocate_local_object_nb E nt sz s = Some (Inr (None, s')) \<and> items (free_regions (cache_region_manager s')) = []
    \<and> (\<forall>a s'. allocate_local_object E nt sz s \<noteq> Some (Inr (a, s')))"
proof -
  have never: "allocate_local_object E nt sz s \<noteq> Some (Inr (a, s'))" for a s'
    using retry_oversize [OF assms(3)] by (fastforce simp: allocate_local_object_def and_then_Some_Inr)
  obtain res s' where r: "allocate_local_object_nb E nt sz s = Some (Inr (res, s'))"
      and res: "case res of None \<Rightarrow> items (free_regions (cache_region_manager s')) = []
       | Some a \<Rightarrow> placed a (unat sz) \<and> addressable (Ob E) a"
    using manager_env.allocate_nb_spec [OF assms(1,2)] by blast
  have "res = None" using nb_oversize [OF assms(3) r] .
  then show ?thesis using r res never by auto
qed

section \<open>Far memory\<close>

text \<open>The far-memory counterpart of \<open>cache_ok\<close> and \<open>cache_step\<close>.\<close>

definition far_ok :: "('q, 'd) ext \<Rightarrow> ('q \<Rightarrow> Region list) \<Rightarrow> ('q \<Rightarrow> nat) \<Rightarrow> nat \<Rightarrow> ('q, 'd) fm_state \<Rightarrow> bool" where
  "far_ok E items capacity N s \<longleftrightarrow>
     rm_wf (Rg E) items capacity N (far_mem_region_manager s) \<and> (\<forall>nt. slot_core (cur_slot s nt) < kNumCPUs)"

definition far_step :: "('q, 'd) ext \<Rightarrow> ('q \<Rightarrow> Region list) \<Rightarrow> ('q \<Rightarrow> nat) \<Rightarrow> nat \<Rightarrow> ('q, 'd) fm_state \<Rightarrow> ('q, 'd) fm_state \<Rightarrow> bool" where
  "far_step E items capacity N s s' \<longleftrightarrow>
     (\<exists>h m. s' = s\<lparr>heap := h, far_mem_region_manager := m\<rparr> \<and> only_headers (heap s) h
        \<and> rm_wf (Rg E) items capacity N m
        \<and> region_ids (Rg E) items m = region_ids (Rg E) items (far_mem_region_manager s))"

lemma far_step_trans:
  assumes "far_step E items capacity N s s1" and "far_step E items capacity N s1 s2"
  shows "far_step E items capacity N s s2"
proof -
  from assms(1) obtain h m where 1: "s1 = s\<lparr>heap := h, far_mem_region_manager := m\<rparr>" "only_headers (heap s) h"
      "region_ids (Rg E) items m = region_ids (Rg E) items (far_mem_region_manager s)"
    unfolding far_step_def by blast
  from assms(2) obtain h' m' where 2: "s2 = s1\<lparr>heap := h', far_mem_region_manager := m'\<rparr>" "only_headers (heap s1) h'"
      "rm_wf (Rg E) items capacity N m'" "region_ids (Rg E) items m' = region_ids (Rg E) items (far_mem_region_manager s1)"
    unfolding far_step_def by blast
  have "s2 = s\<lparr>heap := h', far_mem_region_manager := m'\<rparr>" using 1 2 by simp
  moreover have "only_headers (heap s) h'" using 1 2 by (auto intro: only_headers_trans)
  ultimately show ?thesis using 1 2 unfolding far_step_def by auto
qed

lemma far_step_ok: "far_step E items capacity N s s' \<Longrightarrow> far_ok E items capacity N s \<Longrightarrow> far_ok E items capacity N s'"
  by (auto simp: far_step_def far_ok_def)

text \<open>
  Between \<open>s\<close> and \<open>s'\<close> an object of \<open>sz\<close> bytes was allocated in far memory, whose address has
  the bytes \<open>oidb\<close>.
\<close>

definition far_drawn :: "('q, 'd) ext \<Rightarrow> u16 \<Rightarrow> u8 list \<Rightarrow> ('q, 'd) fm_state \<Rightarrow> ('q, 'd) fm_state \<Rightarrow> bool" where
  "far_drawn E sz oidb s s' \<longleftrightarrow> (\<exists>u u' r. allocate_remote_object E False sz u = Some (Inr (r, u')) \<and> oidb = u64_bytes r
     \<and> far_mem_region_manager u = far_mem_region_manager s \<and> cur_slot u = cur_slot s
     \<and> far_mem_region_manager s' = far_mem_region_manager u' \<and> cur_slot s' = cur_slot u')"

lemma far_wait_noop [simp]: "preempt_disable (mutator_wait_for_gc_far_mem (preempt_enable s)) = s"
  by (simp add: mutator_wait_for_gc_far_mem_def state_ops)

context manager_env
begin

lemma try_remote_spec:
  assumes "try_remote E nt sz s = (res, s')" and "far_ok E items capacity N s"
  shows "far_step E items capacity N s s'"
    and "free_regions (far_mem_region_manager s') = free_regions (far_mem_region_manager s)"
    and "res = Some a \<Longrightarrow> placed a (unat sz) \<and> addressable (Ob E) a"
proof -
  let ?m = "far_mem_region_manager s" and ?sl = "cur_slot s nt"
  obtain r h where al: "rg_allocate_object (Rg E) sz (get_slot ?m ?sl) (heap s) = (res, r, h)"
      and s': "s' = s\<lparr>heap := h, far_mem_region_manager := set_slot ?m ?sl r\<rparr>"
    using assms(1) by (auto simp: try_remote_def Let_def split: prod.splits)
  have ok: "rm_wf (Rg E) items capacity N ?m" "slot_core ?sl < kNumCPUs" using assms(2) by (simp_all add: far_ok_def)
  show "far_step E items capacity N s s'"
    unfolding far_step_def s' using slot_update_keeps [OF ok alloc_idx [OF al]] alloc_headers [OF al] by blast
  show "free_regions (far_mem_region_manager s') = free_regions ?m" by (simp add: s')
  show "res = Some a \<Longrightarrow> placed a (unat sz) \<and> addressable (Ob E) a" using alloc_placed al by blast
qed

lemma refill_remote_spec:
  assumes "far_ok E items capacity N s"
  shows "\<exists>success s'. refill_remote E nt s = Inr (success, s') \<and> far_step E items capacity N s s'
    \<and> (success \<longleftrightarrow> items (free_regions (far_mem_region_manager s)) \<noteq> [])
    \<and> (success \<longleftrightarrow> \<not> rg_is_invalid (Rg E) (get_slot (far_mem_region_manager s') (cur_slot s' nt)))
    \<and> length (items (free_regions (far_mem_region_manager s'))) = length (items (free_regions (far_mem_region_manager s))) - 1"
proof -
  let ?m = "far_mem_region_manager s"
  have ok: "rm_wf (Rg E) items capacity N ?m" "slot_core (cur_slot s nt) < kNumCPUs" using assms by (simp_all add: far_ok_def)
  obtain success h' m' where r: "try_refill_core_local_free_region (Rg E) (Cb E) (cur_slot s) nt (Some (cur_slot s nt)) (heap s) ?m
        = Inr (success, h', m')" "rm_wf (Rg E) items capacity N m'" "region_ids (Rg E) items m' = region_ids (Rg E) items ?m"
      "success \<longleftrightarrow> \<not> rg_is_invalid (Rg E) (get_slot m' (cur_slot s nt))"
      "success \<longleftrightarrow> items (free_regions ?m) \<noteq> []" "length (items (free_regions m')) = length (items (free_regions ?m)) - 1"
    using refill_spec [where cl = "cur_slot s" and nt = nt and full = "Some (cur_slot s nt)" and h = "heap s", OF ok] ok(2) by blast
  then have "refill_remote E nt s = Inr (success, s\<lparr>heap := h', far_mem_region_manager := m'\<rparr>)"
    by (simp add: refill_remote_def)
  then show ?thesis using r refill_headers [OF r(1)] unfolding far_step_def by auto
qed

lemma retry_far_spec:
  assumes "retry_allocate_far_mem E nt sz s = Some y" and "far_ok E items capacity N s"
  shows "\<exists>a s'. y = Inr (a, s') \<and> far_step E items capacity N s s' \<and> placed a (unat sz) \<and> addressable (Ob E) a"
proof -
  have "E' = E \<longrightarrow> far_ok E' items capacity N s \<longrightarrow>
      (\<exists>a s'. y = Inr (a, s') \<and> far_step E' items capacity N s s' \<and> placed a (unat sz) \<and> addressable (Ob E') a)"
    if "retry_allocate_far_mem E' nt sz s = Some y" for E'
  proof (rule retry_allocate_far_mem.raw_induct [OF _ that], goal_cases)
    case (1 f E' nt sz s y)
    show ?case
    proof (intro impI)
      assume E: "E' = E" and ok: "far_ok E' items capacity N s"
      obtain res s1 where one: "try_remote E nt sz s = (res, s1)" by fastforce
      note t = try_remote_spec [OF one ok [unfolded E]]
      have ok1: "far_ok E items capacity N s1" using far_step_ok [OF t(1)] ok E by simp
      obtain success s2 where two: "refill_remote E nt s1 = Inr (success, s2)" "far_step E items capacity N s1 s2"
        using refill_remote_spec [OF ok1] by blast
      have ok2: "far_ok E items capacity N s2" using far_step_ok [OF two(2) ok1] .
      have step: "far_step E items capacity N s s2" using t(1) two(2) by (rule far_step_trans)
      show "\<exists>a s'. y = Inr (a, s') \<and> far_step E' items capacity N s s' \<and> placed a (unat sz) \<and> addressable (Ob E') a"
      proof (cases res)
        case (Some a)
        then show ?thesis using 1(2) one t E by auto
      next
        case None
        then have "f E nt sz s2 = Some y" using 1(2) one two(1) E by (simp split: if_splits)
        then show ?thesis using 1(1) [of E nt sz s2 y] ok2 step E by (auto intro: far_step_trans)
      qed
    qed
  qed
  then show ?thesis using assms by blast
qed

lemma retry_far_stuck:
  assumes "far_ok E items capacity N s" and "items (free_regions (far_mem_region_manager s)) = []"
    and "fst (try_remote E nt sz s) = None"
  shows "retry_allocate_far_mem E nt sz s = None"
proof (rule ccontr)
  assume "retry_allocate_far_mem E nt sz s \<noteq> None"
  then obtain y where "retry_allocate_far_mem E nt sz s = Some y" by blast
  then have "E = E \<longrightarrow> \<not> (far_ok E items capacity N s \<and> items (free_regions (far_mem_region_manager s)) = []
      \<and> fst (try_remote E nt sz s) = None)"
  proof (rule retry_allocate_far_mem.raw_induct [where P = "\<lambda>E' nt sz s y. E' = E \<longrightarrow> \<not> (far_ok E items capacity N s
      \<and> items (free_regions (far_mem_region_manager s)) = [] \<and> fst (try_remote E nt sz s) = None)", rotated], goal_cases)
    case (1 f E' nt sz s y)
    show ?case
    proof (intro impI notI)
      assume E: "E' = E" and stuck: "far_ok E items capacity N s \<and> items (free_regions (far_mem_region_manager s)) = []
        \<and> fst (try_remote E nt sz s) = None"
      obtain s1 where one: "try_remote E nt sz s = (None, s1)" using stuck by (metis prod.collapse)
      have ok: "far_ok E items capacity N s" using stuck by simp
      note t = try_remote_spec [OF one ok]
      have ok1: "far_ok E items capacity N s1" using far_step_ok [OF t(1) ok] .
      obtain success s2 where two: "refill_remote E nt s1 = Inr (success, s2)" "far_step E items capacity N s1 s2"
          "success \<longleftrightarrow> items (free_regions (far_mem_region_manager s1)) \<noteq> []"
          "success \<longleftrightarrow> \<not> rg_is_invalid (Rg E) (get_slot (far_mem_region_manager s2) (cur_slot s2 nt))"
          "length (items (free_regions (far_mem_region_manager s2))) = length (items (free_regions (far_mem_region_manager s1))) - 1"
        using refill_remote_spec [OF ok1] by blast
      have fail: "\<not> success" "items (free_regions (far_mem_region_manager s2)) = []"
        using two(3,5) t(2) stuck by simp_all
      then have "rg_allocate_object (Rg E) sz (get_slot (far_mem_region_manager s2) (cur_slot s2 nt)) (heap s2)
          = (None, get_slot (far_mem_region_manager s2) (cur_slot s2 nt), heap s2)"
        using two(4) by (intro alloc_invalid) simp
      then have "fst (try_remote E nt sz s2) = None" by (simp add: try_remote_def Let_def)
      moreover have "far_ok E items capacity N s2" using far_step_ok [OF two(2) ok1] .
      moreover have "f E nt sz s2 = Some y" using 1(2) one two(1) E by (simp split: if_splits)
      ultimately show False using 1(1) [of E nt sz s2 y] fail by simp
    qed
  qed
  then show False using assms by simp
qed

end

text \<open>
  C26 (far memory exhausted): when the free list of far memory is empty and the core's
  region cannot hold the object, \<^verbatim>\<open>allocate_remote_object\<close> never returns: collecting far
  memory is not implemented, and the loop retries the same failing steps for ever.
\<close>

theorem remote_exhausted_diverges:
  assumes "manager_env E items capacity contents" and "far_ok E items capacity N s"
    and "items (free_regions (far_mem_region_manager s)) = []"
    and "fst (rg_allocate_object (Rg E) sz (get_slot (far_mem_region_manager s) (cur_slot s nt)) (heap s)) = None"
  shows "allocate_remote_object E nt sz s = None"
proof -
  have "retry_allocate_far_mem E nt sz (preempt_disable s) = None"
    by (rule manager_env.retry_far_stuck [OF assms(1), where N = N])
       (use assms(2-4) in \<open>simp_all add: far_ok_def preempt_disable_def try_remote_def Let_def split_def\<close>)
  then show ?thesis by (simp add: allocate_remote_object_def)
qed

context manager_env
begin

lemma remote_spec:
  assumes "far_ok E items capacity N s" and "allocate_remote_object E nt sz s = Some y"
  shows "\<exists>a s'. y = Inr (a, s') \<and> far_step E items capacity N s s' \<and> placed a (unat sz) \<and> addressable (Ob E) a"
proof -
  have ok: "far_ok E items capacity N (preempt_disable s)" using assms(1) by (simp add: far_ok_def preempt_disable_def)
  obtain z where z: "retry_allocate_far_mem E nt sz (preempt_disable s) = Some z"
    using assms(2) by (cases "retry_allocate_far_mem E nt sz (preempt_disable s)") (auto simp: allocate_remote_object_def)
  obtain a s1 where a: "z = Inr (a, s1)" "far_step E items capacity N (preempt_disable s) s1"
      "placed a (unat sz)" "addressable (Ob E) a" using retry_far_spec [OF z ok] by blast
  then obtain h m where hm: "s1 = (preempt_disable s)\<lparr>heap := h, far_mem_region_manager := m\<rparr>" "only_headers (heap s) h"
      "rm_wf (Rg E) items capacity N m" "region_ids (Rg E) items m = region_ids (Rg E) items (far_mem_region_manager s)"
    unfolding far_step_def by (auto simp: preempt_disable_def)
  have "preempt_enable s1 = s\<lparr>heap := h, far_mem_region_manager := m\<rparr>" using hm by (simp add: state_ops)
  then have "far_step E items capacity N s (preempt_enable s1)" unfolding far_step_def using hm by blast
  then show ?thesis using z a assms(2) by (auto simp: allocate_remote_object_def)
qed

text \<open>A refill of the exhausted temporal region puts the front free region in its place.\<close>

lemma refill_front:
  assumes wf: "rm_wf (Rg E) items capacity N m" and sl: "slot_core (cl False) < kNumCPUs" and front: "items (free_regions m) = x # xs"
  shows "\<exists>m'. try_refill_core_local_free_region (Rg E) (Cb E) cl False (Some (cl False)) h m = Inr (True, h, m')
    \<and> get_slot m' (cl False) = x"
proof -
  have ok: "rm_ok (Rg E) items capacity N (spin_lock m)" using wf by (simp add: rm_wf_def spin_lock_def)
  obtain m1 where m1: "retire_region (Rg E) (Cb E) (cl False) h (spin_lock m) = Inr m1"
      "free_regions m1 = free_regions m" "rg_is_invalid (Rg E) (get_slot m1 (cl False))"
    using retire_region_spec [OF ok sl, of h] by (auto simp: spin_lock_def)
  obtain q where "cb_pop_front (Cb E) (get_slot m1 (cl False)) (free_regions m1) = (True, x, q)"
    using pop_front_Cons [of "free_regions m1" x xs] m1(2) front by metis
  then have "try_refill_core_local_free_region (Rg E) (Cb E) cl False (Some (cl False)) h m
      = Inr (True, h, spin_unlock (set_slot (m1\<lparr>free_regions := q\<rparr>) (cl False) x))"
    using m1 by (simp add: try_refill_core_local_free_region_def)
  then show ?thesis by (simp add: spin_unlock_def)
qed

lemma remote_returns:
  assumes ok: "far_ok E items capacity N s"
    and room: "fst (rg_allocate_object (Rg E) sz (get_slot (far_mem_region_manager s) (cur_slot s False)) (heap s)) \<noteq> None
      \<or> (\<exists>x xs. items (free_regions (far_mem_region_manager s)) = x # xs \<and> (\<forall>h. fst (rg_allocate_object (Rg E) sz x h) \<noteq> None))"
  shows "\<exists>y. allocate_remote_object E False sz s = Some y"
proof -
  let ?s = "preempt_disable s"
  have ok': "far_ok E items capacity N ?s" using ok by (simp add: far_ok_def preempt_disable_def)
  obtain res s1 where one: "try_remote E False sz ?s = (res, s1)" by fastforce
  have "\<exists>a s'. retry_allocate_far_mem E False sz ?s = Some (Inr (a, s'))"
  proof (cases res)
    case (Some a)
    then show ?thesis using one by (subst retry_allocate_far_mem.simps) simp
  next
    case None
    note t = try_remote_spec [OF one ok']
    have ok1: "far_ok E items capacity N s1" using far_step_ok [OF t(1) ok'] .
    have "fst (rg_allocate_object (Rg E) sz (get_slot (far_mem_region_manager s) (cur_slot s False)) (heap s)) = None"
      using one None by (auto simp: try_remote_def preempt_disable_def Let_def split: prod.splits)
    then obtain x xs where x: "items (free_regions (far_mem_region_manager s1)) = x # xs" "\<forall>h. fst (rg_allocate_object (Rg E) sz x h) \<noteq> None"
      using room t(2) by (auto simp: preempt_disable_def)
    obtain m' where m': "try_refill_core_local_free_region (Rg E) (Cb E) (cur_slot s1) False (Some (cur_slot s1 False)) (heap s1)
          (far_mem_region_manager s1) = Inr (True, heap s1, m')" "get_slot m' (cur_slot s1 False) = x"
      using refill_front [where cl = "cur_slot s1" and h = "heap s1" and N = N, OF _ _ x(1)] ok1 by (auto simp: far_ok_def)
    let ?s2 = "s1\<lparr>heap := heap s1, far_mem_region_manager := m'\<rparr>"
    have two: "refill_remote E False s1 = Inr (True, ?s2)" using m' by (simp add: refill_remote_def)
    obtain a s3 where three: "try_remote E False sz ?s2 = (Some a, s3)"
      using x(2) m'(2) by (auto simp: try_remote_def Let_def split_def)
    have "retry_allocate_far_mem E False sz ?s2 = Some (Inr (a, s3))"
      using three by (subst retry_allocate_far_mem.simps) simp
    then have "retry_allocate_far_mem E False sz ?s = Some (Inr (a, s3))"
      using one None two by (subst retry_allocate_far_mem.simps) simp
    then show ?thesis by blast
  qed
  then show ?thesis by (auto simp: allocate_remote_object_def)
qed

lemma nb_returns_address:
  assumes ok: "cache_ok E items capacity N s"
    and room: "fst (rg_allocate_object (Rg E) sz (get_slot (cache_region_manager s) (cur_slot s False)) (heap s)) \<noteq> None
      \<or> (\<exists>x xs. items (free_regions (cache_region_manager s)) = x # xs \<and> (\<forall>h. fst (rg_allocate_object (Rg E) sz x h) \<noteq> None))"
  shows "\<exists>a s'. allocate_local_object_nb E False sz s = Some (Inr (Some a, s'))"
proof -
  let ?s = "preempt_disable s"
  have ok': "cache_ok E items capacity N ?s" using ok by (simp add: cache_ok_def preempt_disable_def)
  obtain res s1 where one: "try_local E False sz ?s = (res, s1)" by fastforce
  have "\<exists>a r s'. retry_allocate_local_nb E False sz False ?s = Some (Inr (Some a, r, s'))"
  proof (cases res)
    case (Some a)
    then have "retry_allocate_local_nb E False sz False ?s = Some (Inr (Some a, False, s1))"
      using one by (subst retry_allocate_local_nb.simps) simp
    then show ?thesis by blast
  next
    case None
    note t = try_local_spec [OF one ok']
    have ok1: "cache_ok E items capacity N s1" using cache_step_ok [OF t(1) ok'] .
    have "fst (rg_allocate_object (Rg E) sz (get_slot (cache_region_manager s) (cur_slot s False)) (heap s)) = None"
      using one None by (auto simp: try_local_def preempt_disable_def Let_def split: prod.splits)
    then obtain x xs where x: "items (free_regions (cache_region_manager s1)) = x # xs" "\<forall>h. fst (rg_allocate_object (Rg E) sz x h) \<noteq> None"
      using room t(2) by (auto simp: preempt_disable_def)
    obtain m' where m': "try_refill_core_local_free_region (Rg E) (Cb E) (cur_slot s1) False (Some (cur_slot s1 False)) (heap s1)
          (cache_region_manager s1) = Inr (True, heap s1, m')" "get_slot m' (cur_slot s1 False) = x"
      using refill_front [where cl = "cur_slot s1" and h = "heap s1" and N = N, OF _ _ x(1)] ok1 by (auto simp: cache_ok_def)
    let ?s2 = "s1\<lparr>heap := heap s1, cache_region_manager := m'\<rparr>"
    have two: "refill_local E False s1 = Inr (True, ?s2)" using m' by (simp add: refill_local_def)
    obtain a s3 where three: "try_local E False sz ?s2 = (Some a, s3)"
      using x(2) m'(2) by (auto simp: try_local_def Let_def split_def)
    have "retry_allocate_local_nb E False sz True ?s2 = Some (Inr (Some a, True, s3))"
      using three by (subst retry_allocate_local_nb.simps) simp
    then have "retry_allocate_local_nb E False sz False ?s = Some (Inr (Some a, True, s3))"
      using one None two by (subst retry_allocate_local_nb.simps) simp
    then show ?thesis by blast
  qed
  then show ?thesis by (auto simp: allocate_local_object_nb_def)
qed

lemma local_returns:
  assumes ok: "cache_ok E items capacity N s"
    and room: "fst (rg_allocate_object (Rg E) sz (get_slot (cache_region_manager s) (cur_slot s False)) (heap s)) \<noteq> None
      \<or> (\<exists>x xs. items (free_regions (cache_region_manager s)) = x # xs \<and> (\<forall>h. fst (rg_allocate_object (Rg E) sz x h) \<noteq> None))"
  shows "\<exists>a s'. allocate_local_object E False sz s = Some (Inr (a, s')) \<and> alloc_frame E items capacity N s s'
    \<and> placed a (unat sz) \<and> addressable (Ob E) a"
proof -
  obtain a s' where nb: "allocate_local_object_nb E False sz s = Some (Inr (Some a, s'))" using nb_returns_address [OF assms] by blast
  then have "allocate_local_object E False sz s = Some (Inr (a, s'))" by (rule blocking_agrees)
  then show ?thesis using allocate_nb_spec [OF ok, of False sz] nb by auto
qed

end

text \<open>
  C27 (allocation returns): an object that fits the core's current region, or else the free
  region the refill takes next, is placed without waiting for anybody, in the cache as in
  far memory; nothing but the regions of that memory, region headers and the collector's
  flags change, and preemption is balanced.
\<close>

theorem allocation_returns:
  assumes "manager_env E items capacity contents"
    and "cache_ok E items capacity N s" and "far_ok E items capacity M s"
    and "\<forall>m \<in> {cache_region_manager s, far_mem_region_manager s}.
      fst (rg_allocate_object (Rg E) sz (get_slot m (cur_slot s False)) (heap s)) \<noteq> None
      \<or> (\<exists>x xs. items (free_regions m) = x # xs \<and> (\<forall>h. fst (rg_allocate_object (Rg E) sz x h) \<noteq> None))"
  shows "(\<exists>a s'. allocate_local_object E False sz s = Some (Inr (a, s')) \<and> alloc_frame E items capacity N s s'
      \<and> placed a (unat sz) \<and> addressable (Ob E) a)
    \<and> (\<exists>a s'. allocate_remote_object E False sz s = Some (Inr (a, s')) \<and> far_step E items capacity M s s'
      \<and> placed a (unat sz) \<and> addressable (Ob E) a)"
proof
  show "\<exists>a s'. allocate_local_object E False sz s = Some (Inr (a, s')) \<and> alloc_frame E items capacity N s s'
      \<and> placed a (unat sz) \<and> addressable (Ob E) a"
    using assms(4) by (intro manager_env.local_returns [OF assms(1,2)]) blast
  obtain y where "allocate_remote_object E False sz s = Some y"
    using assms(4) manager_env.remote_returns [OF assms(1,3)] by blast
  then show "\<exists>a s'. allocate_remote_object E False sz s = Some (Inr (a, s')) \<and> far_step E items capacity M s s'
      \<and> placed a (unat sz) \<and> addressable (Ob E) a"
    using manager_env.remote_spec [OF assms(1,3)] by blast
qed

section \<open>Instances\<close>

text \<open>
  The documented layouts, a map as device, and surroundings in which no other thread runs:
  a held lock or a full cache is waited for in vain.
\<close>

definition demo_ext :: "(ring, u8 \<times> u8 list \<Rightarrow> u8 list option) ext" where
  "demo_ext = \<lparr>Rg = layout_regions, Cb = ring_ops, Ob = byte_objects, Pt = format_ptrs, Dv = map_device,
     traverse = (\<lambda>next p. if next p = p then [p] else [p, next p]),
     evac_fn = (\<lambda>f a wr s. (False, s)), copy_fn = (\<lambda>f a b s. s), gc_check = (\<lambda>s. s),
     condvar_wait = (\<lambda>s. None), lock_wait = (\<lambda>oid s. if oid \<in> obj_locks s then None else Some s),
     is_in_deref_scope = (\<lambda>s. False), deref_fn = (\<lambda>p s. Some (Inr s)), kVanillaPtrDSID = 255, kVanillaPtrObjectIDSize = 8\<rparr>"

lemma demo_ext_simps [simp]:
  "Rg demo_ext = layout_regions" "Cb demo_ext = ring_ops" "Ob demo_ext = byte_objects" "Pt demo_ext = format_ptrs"
  "Dv demo_ext = map_device" "gc_check demo_ext s = s" "condvar_wait demo_ext s = None"
  "lock_wait demo_ext oid s = (if oid \<in> obj_locks s then None else Some s)"
  "traverse demo_ext next p = (if next p = p then [p] else [p, next p])"
  "kVanillaPtrDSID demo_ext = 255" "kVanillaPtrObjectIDSize demo_ext = 8"
  by (simp_all add: demo_ext_def)

interpretation demo: manager_env demo_ext ring_items ring_cap "\<lambda>d. d"
proof (intro manager_env.intro manager_env_axioms.intro)
  show "region_env (Rg demo_ext) (Cb demo_ext) ring_items ring_cap" by (simp add: ring_regions.region_env_axioms)
  show "region_layout (Rg demo_ext) (Ob demo_ext)" by (simp add: layout.region_layout_axioms)
  show "ptr_env (Ob demo_ext) (Pt demo_ext)" by (simp add: format_ptr.ptr_env_axioms)
  show "device_env (Dv demo_ext) (\<lambda>d. d)" by (simp add: map_dev.device_env_axioms)
  show "\<exists>b c. gc_check demo_ext s = s\<lparr>almost_empty := b, gc_master_spawned := c\<rparr>" for s
    by (intro exI [of _ "almost_empty s"] exI [of _ "gc_master_spawned s"]) simp
qed

lemma demo_env: "manager_env demo_ext ring_items ring_cap (\<lambda>d. d)"
  by (rule demo.manager_env_axioms)

text \<open>
  A manager on core 3 whose cache has the free regions \<open>fs\<close>, one used and one
  non-temporal used region, and whose far memory has the free regions \<open>gs\<close>.
\<close>

definition far_region :: "nat \<Rightarrow> Region" where
  "far_region i = fst (rg_make layout_regions (of_nat i) False False 0 (\<lambda>_. 0))"

definition demo_fm :: "Region list \<Rightarrow> Region list \<Rightarrow> (ring, u8 \<times> u8 list \<Rightarrow> u8 list option) fm_state" where
  "demo_fm fs gs = \<lparr>heap = (\<lambda>_. 0), metas = (\<lambda>_. kNull), next_ptrs = (\<lambda>p. p),
     cache_region_manager = demo_rm fs [demo_region 1] [demo_region 2], far_mem_region_manager = demo_rm gs [] [],
     device = Map.empty, obj_locks = {}, preempt_cnt = 0, cur_slot = (\<lambda>nt. if nt then Nt_Slot 3 else Slot 3),
     almost_empty = False, gc_lock = False, gc_master_active = False, gc_master_spawned = False, pending_gcs = 0,
     from_regions = [], available_ds_ids = [], evac_notifiers = (\<lambda>_. 0), copy_notifiers = (\<lambda>_. 0),
     expected_status = 0, self_th_status = 0, prioritized_status = 0, global_prioritizing = False\<rparr>"

lemma demo_fm_simps [simp]:
  "heap (demo_fm fs gs) = (\<lambda>_. 0)" "metas (demo_fm fs gs) = (\<lambda>_. kNull)" "next_ptrs (demo_fm fs gs) = (\<lambda>p. p)"
  "cache_region_manager (demo_fm fs gs) = demo_rm fs [demo_region 1] [demo_region 2]"
  "far_mem_region_manager (demo_fm fs gs) = demo_rm gs [] []"
  "device (demo_fm fs gs) = Map.empty" "obj_locks (demo_fm fs gs) = {}" "preempt_cnt (demo_fm fs gs) = 0"
  "cur_slot (demo_fm fs gs) = (\<lambda>nt. if nt then Nt_Slot 3 else Slot 3)" "almost_empty (demo_fm fs gs) = False"
  "evac_notifiers (demo_fm fs gs) = (\<lambda>_. 0)" "copy_notifiers (demo_fm fs gs) = (\<lambda>_. 0)"
  "from_regions (demo_fm fs gs) = []" "available_ds_ids (demo_fm fs gs) = []"
  by (simp_all add: demo_fm_def)

lemma far_region_simps [simp]:
  "region_idx (far_region i) = of_nat i" "rg_is_invalid layout_regions (far_region i) \<longleftrightarrow> of_nat i = kInvalidIdx"
  by (simp_all add: far_region_def layout_regions_def)

lemma demo_cache_ok: "cache_ok demo_ext ring_items ring_cap 50 (demo_fm [demo_region 0] gs)"
  using demo_rm_wf by (simp add: cache_ok_def kNumCPUs_def)

lemma demo_far_ok:
  "far_ok demo_ext ring_items ring_cap 50 (demo_fm fs [far_region 0])" "far_ok demo_ext ring_items ring_cap 50 (demo_fm fs [])"
  by (simp_all add: far_ok_def kNumCPUs_def rm_wf_def rm_ok_def region_ids_split valid_ids_default)
     (simp_all add: demo_rm_def demo_queue_items kInvalidIdx_def)

lemma demo_slot [simp]: "get_slot (demo_rm fs us ns) sl = rg_default layout_regions"
  by (cases sl) (simp_all add: get_slot.simps demo_rm_def)

lemma demo_free [simp]: "length fs \<le> 50 \<Longrightarrow> ring_items (free_regions (demo_rm fs us ns)) = fs"
  by (simp add: demo_rm_def demo_queue_items)

lemma demo_alloc:
  "fst (rg_allocate_object layout_regions 16 (demo_region 0) h) = Some (1024 + 6)"
  "fst (rg_allocate_object layout_regions 16 (far_region 0) h) = Some 6"
  by (simp_all add: demo_region_def far_region_def layout_regions_def kObjectPos_def kHeaderSize_def kSize_val
      bump_size_def buf_ok_def region_base_def kInvalidIdx_def)

lemma layout_oversize: "1018 < unat sz \<Longrightarrow> fst (rg_allocate_object layout_regions sz r h) = None"
proof -
  assume big: "1018 < unat sz"
  have "unat sz \<le> bump_size sz" by (simp add: bump_size_def)
  then show ?thesis using big by (auto simp: layout_regions_def kHeaderSize_def kSize_val)
qed


theorem allocation_returns_witness:
  "(\<exists>a s'. allocate_local_object demo_ext False 16 (demo_fm [demo_region 0] [far_region 0]) = Some (Inr (a, s')) \<and> placed a 16)
   \<and> (\<exists>a s'. allocate_remote_object demo_ext False 16 (demo_fm [demo_region 0] [far_region 0]) = Some (Inr (a, s')))"
proof -
  let ?s = "demo_fm [demo_region 0] [far_region 0]"
  have "\<forall>m \<in> {cache_region_manager ?s, far_mem_region_manager ?s}.
      fst (rg_allocate_object (Rg demo_ext) 16 (get_slot m (cur_slot ?s False)) (heap ?s)) \<noteq> None
      \<or> (\<exists>x xs. ring_items (free_regions m) = x # xs \<and> (\<forall>h. fst (rg_allocate_object (Rg demo_ext) 16 x h) \<noteq> None))"
    by (simp add: demo_alloc)
  from allocation_returns [OF demo_env demo_cache_ok demo_far_ok(1) this] show ?thesis by auto
qed

theorem blocking_allocation_agrees_witness:
  "\<exists>a s'. allocate_local_object_nb demo_ext False 16 (demo_fm [demo_region 0] []) = Some (Inr (Some a, s'))
    \<and> allocate_local_object demo_ext False 16 (demo_fm [demo_region 0] []) = Some (Inr (a, s'))"
proof -
  have "\<exists>a s'. allocate_local_object_nb demo_ext False 16 (demo_fm [demo_region 0] []) = Some (Inr (Some a, s'))"
    by (rule demo.nb_returns_address [OF demo_cache_ok]) (simp add: demo_alloc)
  then show ?thesis using blocking_allocation_agrees by blast
qed

theorem oversize_drains_cache_witness:
  "\<exists>s'. allocate_local_object_nb demo_ext False 1019 (demo_fm [demo_region 0] []) = Some (Inr (None, s'))
    \<and> ring_items (free_regions (cache_region_manager s')) = []
    \<and> (\<nexists>a s'. allocate_local_object demo_ext False 1019 (demo_fm [demo_region 0] []) = Some (Inr (a, s')))"
proof -
  have "fst (rg_allocate_object (Rg demo_ext) 1019 r h) = None" for r h by (simp add: layout_oversize)
  from oversize_drains_cache [OF demo_env demo_cache_ok [of "[]"] this, of False] show ?thesis by blast
qed

theorem remote_exhausted_diverges_witness:
  "allocate_remote_object demo_ext False 16 (demo_fm [demo_region 0] []) = None"
  by (rule remote_exhausted_diverges [OF demo_env demo_far_ok(2)]) (simp_all add: layout_regions_def)

end
