(* ===== verification/Fm_Swap.thy ===== *)
theory Fm_Swap
  imports Fm_Alloc DSwap_Pager
begin

text \<open>
  Moving objects between the local cache and far memory: \<^verbatim>\<open>swap_in\<close>, \<^verbatim>\<open>swap_out\<close>, and the
  operations that create and resize the object of a unique pointer. The build is the one
  without \<^verbatim>\<open>STW_GC\<close>. Preemption is enabled on entry, as the code asserts.
\<close>

section \<open>swap_in\<close>

text \<open>Fetching the object into the allocated space \<open>a\<close> and making every pointer to it present.\<close>

definition fetch_object :: "('q, 'd) ext \<Rightarrow> u64 \<Rightarrow> addr \<Rightarrow> addr \<Rightarrow> ('q, 'd) fm_state \<Rightarrow> ('q, 'd) fm_state" where
  "fetch_object E obj_id p a s =
     (let ds = pt_get_ds_id (Pt E) (metas s p);
          (len, bs, d) = dv_read_object (Dv E) ds (u64_bytes obj_id) (device s);
          s = s\<lparr>device := d, heap := wr_bytes (heap s) (ob_get_data_addr (Ob E) a) bs\<rparr>;
          s = s\<lparr>heap := ob_init (Ob E) ds len (u64_bytes obj_id) a (heap s)\<rparr>;
          s = fold (\<lambda>t. upd_ptr (pt_set_present (Pt E) t a) t) (ptr_targets E p s) s
      in inc_ref_cnt E a (-1) s)"

definition swap_in :: "('q, 'd) ext \<Rightarrow> bool \<Rightarrow> addr \<Rightarrow> ('q, 'd) fm_state \<Rightarrow> (fm_error + ('q, 'd) fm_state) option" where
  "swap_in E nt p s =
     (let obj_id = pt_get_object_id (Pt E) (metas s p)
      in if pt_is_present (Pt E) (metas s p) then Some (Inr s)
         else and_then (lock_object E (u64_bytes obj_id) s) (\<lambda>s.
           and_then
             (if \<not> pt_is_present (Pt E) (metas s p)
              then and_then (allocate_local_object E nt (pt_get_object_size (Pt E) (metas s p)) s)
                     (\<lambda>(a, s). Some (Inr (fetch_object E obj_id p a s)))
              else Some (Inr s))
             (\<lambda>s. Some (Inr (unlock_object (u64_bytes obj_id) s)))))"

section \<open>swap_out\<close>

text \<open>Hot, non-temporal and dirty, of one pointer or of the whole ring.\<close>

definition evacuation_flags :: "('q, 'd) ext \<Rightarrow> addr \<Rightarrow> ('q, 'd) fm_state \<Rightarrow> bool \<times> bool \<times> bool" where
  "evacuation_flags E p s =
     (if \<not> pt_is_shared (Pt E) (metas s p)
      then (pt_is_hot (Pt E) (metas s p), pt_is_nt (Pt E) (heap s) (metas s p), pt_is_dirty (Pt E) (metas s p))
      else fold (\<lambda>t (hot, nt, dirty). (hot \<or> pt_is_hot (Pt E) (metas s t), nt \<and> pt_is_nt (Pt E) (heap s) (metas s t),
               dirty \<or> pt_is_dirty (Pt E) (metas s t)))
             (traverse E (next_ptrs s) p) (False, True, False))"

text \<open>A hot object is copied to the new place \<open>a'\<close> in the cache.\<close>

definition copy_object :: "('q, 'd) ext \<Rightarrow> addr \<Rightarrow> addr \<Rightarrow> u16 \<Rightarrow> addr \<Rightarrow> ('q, 'd) fm_state \<Rightarrow> ('q, 'd) fm_state" where
  "copy_object E p obj sz a' s =
     (let notifier = copy_notifiers s (ob_get_ds_id (Ob E) (heap s) obj);
          s = (if notifier \<noteq> 0
               then (let s = s\<lparr>heap := memcpy (heap s) a' obj (ob_kHeaderSize (Ob E))\<rparr>;
                         s = s\<lparr>heap := ob_set_obj_id (Ob E) (obj_id_bytes (Ob E) (heap s) obj) a' (heap s)\<rparr>
                     in copy_fn E notifier a' obj s)
               else s\<lparr>heap := memcpy (heap s) a' obj (unat sz)\<rparr>);
          s = fold (\<lambda>t. upd_ptr (pt_gc_copy (Pt E) t a') t) (ptr_targets E p s) s
      in inc_ref_cnt E a' (-1) s)"

text \<open>\<^verbatim>\<open>write_object_fn\<close>: store the object's data, unless the far copy is up to date.\<close>

definition write_object :: "('q, 'd) ext \<Rightarrow> u8 \<Rightarrow> nat \<Rightarrow> addr \<Rightarrow> addr \<Rightarrow> bool \<Rightarrow> u32 \<Rightarrow> ('q, 'd) fm_state \<Rightarrow> ('q, 'd) fm_state" where
  "write_object E ds_id obj_id_len obj_id data_ptr dirty data_len s =
     (if dirty
      then s\<lparr>device := dv_write_object (Dv E) ds_id (rd_bytes (heap s) obj_id obj_id_len)
               (rd_bytes (heap s) data_ptr (unat data_len)) (device s)\<rparr>
      else s)"

text \<open>Everything else leaves the cache: write it back and make its pointers absent.\<close>

definition evict_object :: "('q, 'd) ext \<Rightarrow> addr \<Rightarrow> addr \<Rightarrow> bool \<Rightarrow> ('q, 'd) fm_state \<Rightarrow> ('q, 'd) fm_state" where
  "evict_object E p obj dirty s =
     (let obj_id = ob_get_obj_id (Ob E) (heap s) obj;
          obj_id_len = unat (ob_get_obj_id_len (Ob E) (heap s) obj);
          obj_size = ob_size (Ob E) (heap s) obj;
          ds_id = ob_get_ds_id (Ob E) (heap s) obj;
          data_ptr = ob_get_data_addr (Ob E) obj;
          write_object_fn = write_object E ds_id obj_id_len obj_id data_ptr dirty;
          (removed, s) =
            (if evac_notifiers s ds_id \<noteq> 0 then evac_fn E (evac_notifiers s ds_id) obj write_object_fn s
             else (False, write_object_fn (ucast (ob_get_data_len (Ob E) (heap s) obj)) s))
      in if removed then s
         else fold (\<lambda>t s. upd_meta (pt_gc_wb (Pt E) ds_id obj_size (rd_u64 (heap s) obj_id)) t s) (ptr_targets E p s) s)"

definition swap_out :: "('q, 'd) ext \<Rightarrow> addr \<Rightarrow> addr \<Rightarrow> ('q, 'd) fm_state \<Rightarrow> (fm_error + ('q, 'd) fm_state) option" where
  "swap_out E p obj s =
     (if \<not> pt_is_evacuation (Pt E) (metas s p) then Some (Inr s)
      else (let (hot, nt, dirty) = evacuation_flags E p s
            in if hot \<and> \<not> nt \<and> \<not> almost_empty s
               then (let obj_size = ob_size (Ob E) (heap s) obj
                     in and_then (allocate_local_object_nb E False obj_size s)
                          (\<lambda>(res, s). case res of
                              Some a' \<Rightarrow> Some (Inr (copy_object E p obj obj_size a' s))
                            | None \<Rightarrow> Some (Inr (evict_object E p obj dirty s))))
               else Some (Inr (evict_object E p obj dirty s))))"

section \<open>Creating and resizing objects\<close>

text \<open>
  The size passed to the allocation is an \<^verbatim>\<open>uint16_t\<close>: the sum is cut to 16 bits. The id is
  given by the caller or, for a plain pointer, is the address allocated in far memory.
\<close>

definition total_size :: "('q, 'd) ext \<Rightarrow> u16 \<Rightarrow> nat \<Rightarrow> u16" where
  "total_size E item_size id_len = of_nat (ob_kHeaderSize (Ob E) + unat item_size + id_len)"

definition id_len_of :: "('q, 'd) ext \<Rightarrow> u8 list option \<Rightarrow> nat" where
  "id_len_of E optional_id = (case optional_id of Some oid \<Rightarrow> length oid | None \<Rightarrow> unat (kVanillaPtrObjectIDSize E))"

text \<open>The object's fields are written once the pointer refers to it.\<close>

definition init_object :: "('q, 'd) ext \<Rightarrow> u8 \<Rightarrow> u16 \<Rightarrow> u8 list option \<Rightarrow> u16 \<Rightarrow> addr \<Rightarrow> ('q, 'd) fm_state \<Rightarrow>
   (fm_error + ('q, 'd) fm_state) option" where
  "init_object E ds item_size optional_id object_size a s =
     (case optional_id of
        None \<Rightarrow> and_then (allocate_remote_object E False object_size s)
          (\<lambda>(r, s). Some (Inr (s\<lparr>heap := ob_init (Ob E) ds item_size (u64_bytes r) a (heap s)\<rparr>)))
      | Some oid \<Rightarrow> Some (Inr (s\<lparr>heap := ob_init (Ob E) ds item_size oid a (heap s)\<rparr>)))"

definition allocate_generic_unique_ptr_nb :: "('q, 'd) ext \<Rightarrow> addr \<Rightarrow> u8 \<Rightarrow> u16 \<Rightarrow> u8 list option \<Rightarrow> ('q, 'd) fm_state \<Rightarrow>
   (fm_error + (bool \<times> ('q, 'd) fm_state)) option" where
  "allocate_generic_unique_ptr_nb E p ds item_size optional_id s =
     (let object_size = total_size E item_size (id_len_of E optional_id)
      in and_then (allocate_local_object_nb E False object_size s)
           (\<lambda>(res, s). case res of
               None \<Rightarrow> Some (Inr (False, s))
             | Some a \<Rightarrow>
                 and_then (init_object E ds item_size optional_id object_size a (upd_ptr (pt_init (Pt E) False p a) p s))
                   (\<lambda>s. Some (Inr (True, inc_ref_cnt E a (-1) s)))))"

definition allocate_generic_unique_ptr :: "('q, 'd) ext \<Rightarrow> addr \<Rightarrow> u8 \<Rightarrow> u16 \<Rightarrow> u8 list option \<Rightarrow> ('q, 'd) fm_state \<Rightarrow>
   (fm_error + ('q, 'd) fm_state) option" where
  "allocate_generic_unique_ptr E p ds item_size optional_id s =
     (let object_size = total_size E item_size (id_len_of E optional_id)
      in and_then (allocate_local_object E False object_size s)
           (\<lambda>(a, s).
              and_then (init_object E ds item_size optional_id object_size a (upd_ptr (pt_init (Pt E) False p a) p s))
                (\<lambda>s. Some (Inr (inc_ref_cnt E a (-1) s)))))"

text \<open>
  \<open>buf\<close> are the bytes at \<^verbatim>\<open>data_buf\<close>. A plain pointer gets a fresh far address; any other
  keeps its id.
\<close>

definition reallocate_generic_unique_ptr_nb :: "('q, 'd) ext \<Rightarrow> addr \<Rightarrow> u16 \<Rightarrow> u8 list \<Rightarrow> ('q, 'd) fm_state \<Rightarrow>
   (fm_error + (bool \<times> ('q, 'd) fm_state)) option" where
  "reallocate_generic_unique_ptr_nb E p new_item_size buf s =
     and_then (deref_fn E p s) (\<lambda>s.
       let old = pt_get_object_addr (Pt E) (metas s p);
           old_id_len = unat (ob_get_obj_id_len (Ob E) (heap s) old);
           old_ds = ob_get_ds_id (Ob E) (heap s) old;
           new_obj_size = total_size E new_item_size old_id_len
       in and_then (allocate_local_object_nb E False new_obj_size s)
            (\<lambda>(res, s). case res of
                None \<Rightarrow> Some (Inr (False, s))
              | Some a \<Rightarrow>
                  (let s = s\<lparr>heap := wr_bytes (heap s) (a + of_nat (ob_kHeaderSize (Ob E))) (take (unat new_item_size) buf)\<rparr>;
                       s = upd_ptr (pt_init (Pt E) False p a) p s
                   in and_then
                        (if old_ds = kVanillaPtrDSID E
                         then and_then (allocate_remote_object E False new_obj_size s)
                                (\<lambda>(r, s). Some (Inr (s\<lparr>heap := ob_init (Ob E) old_ds new_item_size
                                   (take (unat (kVanillaPtrObjectIDSize E)) (u64_bytes r)) a (heap s)\<rparr>)))
                         else Some (Inr (s\<lparr>heap := ob_init (Ob E) old_ds new_item_size
                                (rd_bytes (heap s) (ob_get_obj_id (Ob E) (heap s) old) old_id_len) a (heap s)\<rparr>)))
                        (\<lambda>s. let s = s\<lparr>heap := ob_free (Ob E) old (heap s)\<rparr>
                             in Some (Inr (True, inc_ref_cnt E a (-1) s))))))"

section \<open>What a pointer stands for\<close>

text \<open>
  The abstract value of a pointer: the data structure, id and data of its object, wherever
  they are. \<open>ptr_ok\<close> is the invariant of a unique pointer with an 8-byte id of 38 bits: a
  present one has an object in a region whose far copy is up to date unless it is dirty, an
  absent one has its data on the device and the pointer records the size of the object.
\<close>

definition value_of :: "('q, 'd) ext \<Rightarrow> ('d \<Rightarrow> u8 \<times> u8 list \<Rightarrow> u8 list option) \<Rightarrow> ('q, 'd) fm_state \<Rightarrow> addr \<Rightarrow>
   (u8 \<times> u8 list \<times> u8 list) option" where
  "value_of E contents s p =
     (let m = metas s p; ds = pt_get_ds_id (Pt E) m; oid = u64_bytes (pt_get_object_id (Pt E) m)
      in if pt_is_present (Pt E) m then Some (obj_view (Ob E) (heap s) (pt_get_object_addr (Pt E) m))
         else map_option (\<lambda>bs. (ds, oid, bs)) (contents (device s) (ds, oid)))"

definition obj_backed :: "('q, 'd) ext \<Rightarrow> ('d \<Rightarrow> u8 \<times> u8 list \<Rightarrow> u8 list option) \<Rightarrow> ('q, 'd) fm_state \<Rightarrow> bool \<Rightarrow> addr \<Rightarrow> bool" where
  "obj_backed E contents s dirty a \<longleftrightarrow>
     obj_ok (Ob E) (heap s) a \<and> placed a (unat (ob_size (Ob E) (heap s) a)) \<and> addressable (Ob E) a
     \<and> (\<exists>oid < 2 ^ 38. obj_id_bytes (Ob E) (heap s) a = u64_bytes oid)
     \<and> (\<not> dirty \<longrightarrow> contents (device s) (ob_get_ds_id (Ob E) (heap s) a, obj_id_bytes (Ob E) (heap s) a)
           = Some (obj_data (Ob E) (heap s) a))"

definition ptr_ok :: "('q, 'd) ext \<Rightarrow> ('d \<Rightarrow> u8 \<times> u8 list \<Rightarrow> u8 list option) \<Rightarrow> ('q, 'd) fm_state \<Rightarrow> addr \<Rightarrow> bool" where
  "ptr_ok E contents s p \<longleftrightarrow>
     (let m = metas s p; ds = pt_get_ds_id (Pt E) m; oid = pt_get_object_id (Pt E) m
      in \<not> pt_is_shared (Pt E) m \<and>
         (if pt_is_present (Pt E) m then obj_backed E contents s (pt_is_dirty (Pt E) m) (pt_get_object_addr (Pt E) m)
          else oid < 2 ^ 38 \<and> (\<exists>bs. contents (device s) (ds, u64_bytes oid) = Some bs
             \<and> unat (pt_get_object_size (Pt E) m) = ob_kHeaderSize (Ob E) + length bs + 8)))"

lemma ptr_ok_cong:
  assumes "metas s' p = metas s p" and "heap s' = heap s" and "device s' = device s"
  shows "ptr_ok E contents s' p = ptr_ok E contents s p" and "value_of E contents s' p = value_of E contents s p"
  using assms by (simp_all add: ptr_ok_def obj_backed_def value_of_def Let_def)

text \<open>
  What a pointer method does to the pointer word and the memory when it makes the pointer
  refer to the object at \<open>a\<close>: the word satisfies \<open>Q\<close>, the flags \<open>K\<close> stay, and of the
  memory only the object's header is written.
\<close>

definition update_law :: "('q, 'd) ext \<Rightarrow> addr \<Rightarrow> (u64 \<Rightarrow> 'k) \<Rightarrow> (u64 \<Rightarrow> bool) \<Rightarrow> (addr \<Rightarrow> u64 \<times> heap \<Rightarrow> u64 \<times> heap) \<Rightarrow> bool" where
  "update_law E a K Q f \<longleftrightarrow> (\<forall>t m h m' h'. f t (m, h) = (m', h') \<longrightarrow>
     (Q m' \<and> K m' = K m \<and> obj_view (Ob E) h' a = obj_view (Ob E) h a \<and> ob_size (Ob E) h' a = ob_size (Ob E) h a
      \<and> (\<forall>x. outside a (ob_kHeaderSize (Ob E)) x \<longrightarrow> h' x = h x)))"

context manager_env
begin

lemma set_present_law:
  "addressable (Ob E) a \<Longrightarrow> update_law E a (pt_is_shared (Pt E))
     (\<lambda>m. pt_is_present (Pt E) m \<and> pt_get_object_addr (Pt E) m = a) (\<lambda>t. pt_set_present (Pt E) t a)"
  unfolding update_law_def using set_present set_present_heap by blast

lemma gc_copy_law:
  "addressable (Ob E) a \<Longrightarrow> update_law E a (\<lambda>m. (pt_is_shared (Pt E) m, pt_is_dirty (Pt E) m))
     (\<lambda>m. pt_is_present (Pt E) m \<and> pt_get_object_addr (Pt E) m = a \<and> \<not> pt_is_evacuation (Pt E) m) (\<lambda>t. pt_gc_copy (Pt E) t a)"
  unfolding update_law_def using gc_copy gc_copy_heap by simp

lemma view_headers:
  assumes "obj_ok (Ob E) h a" and "placed a (unat (ob_size (Ob E) h a))" and "only_headers h h'"
  shows "obj_view (Ob E) h' a = obj_view (Ob E) h a \<and> ob_size (Ob E) h' a = ob_size (Ob E) h a"
proof -
  have "h' (a + of_nat i) = h (a + of_nat i)" if "i < unat (ob_size (Ob E) h a)" for i
    using assms(3) placed_body [OF assms(2) that] by (simp add: only_headers_def)
  from view_agree [OF assms(1) this] show ?thesis by blast
qed

text \<open>
  An update of several pointers: all of them satisfy \<open>Q\<close> afterwards, the others are
  unchanged.
\<close>

lemma fold_upd_ptr:
  assumes law: "update_law E a K Q f"
  shows "\<exists>h ms. fold (\<lambda>t. upd_ptr (f t) t) ps s = s\<lparr>heap := h, metas := ms\<rparr>
    \<and> (\<forall>t \<in> set ps. Q (ms t)) \<and> (\<forall>t. t \<notin> set ps \<longrightarrow> ms t = metas s t)
    \<and> (\<forall>t. K (ms t) = K (metas s t))
    \<and> obj_view (Ob E) h a = obj_view (Ob E) (heap s) a \<and> ob_size (Ob E) h a = ob_size (Ob E) (heap s) a
    \<and> (\<forall>x. outside a (ob_kHeaderSize (Ob E)) x \<longrightarrow> h x = heap s x)"
proof (induction ps arbitrary: s)
  case Nil
  show ?case by (intro exI [of _ "heap s"] exI [of _ "metas s"]) simp
next
  case (Cons t ps)
  obtain m h where e: "f t (metas s t, heap s) = (m, h)" by fastforce
  note f = law [unfolded update_law_def, rule_format]
  let ?s = "s\<lparr>metas := (metas s)(t := m), heap := h\<rparr>"
  have one: "upd_ptr (f t) t s = ?s" using e by (simp add: upd_ptr_def)
  obtain h' ms where r: "fold (\<lambda>t. upd_ptr (f t) t) ps ?s = ?s\<lparr>heap := h', metas := ms\<rparr>"
      "\<forall>t \<in> set ps. Q (ms t)" "\<forall>u. u \<notin> set ps \<longrightarrow> ms u = metas ?s u"
      "\<forall>u. K (ms u) = K (metas ?s u)"
      "obj_view (Ob E) h' a = obj_view (Ob E) h a" "ob_size (Ob E) h' a = ob_size (Ob E) h a"
      "\<forall>x. outside a (ob_kHeaderSize (Ob E)) x \<longrightarrow> h' x = h x"
    using Cons.IH [of ?s] by auto
  have "fold (\<lambda>t. upd_ptr (f t) t) (t # ps) s = s\<lparr>heap := h', metas := ms\<rparr>" using one r(1) by simp
  moreover have "\<forall>u \<in> set (t # ps). Q (ms u)" using f [OF e] r(2,3) by (cases "t \<in> set ps") auto
  moreover have "\<forall>u. K (ms u) = K (metas s u)"
    using f [OF e] r(4) by simp
  ultimately show ?case using f [OF e] r(3,5-7) by (intro exI [of _ h'] exI [of _ ms]) simp
qed

text \<open>The object created from the stored data, and what is left alone.\<close>

lemma fetch_general:
  assumes stored: "contents (device s) (pt_get_ds_id (Pt E) (metas s p), u64_bytes oid) = Some bs"
    and fit: "ob_kHeaderSize (Ob E) + length bs + 8 \<le> n" "n < 2 ^ 16"
    and a: "placed a n" "addressable (Ob E) a"
  shows "\<exists>h d ms. fetch_object E oid p a s = s\<lparr>heap := h, device := d, metas := ms\<rparr>
    \<and> contents d = contents (device s)
    \<and> (\<forall>t \<in> set (ptr_targets E p s). pt_is_present (Pt E) (ms t) \<and> pt_get_object_addr (Pt E) (ms t) = a)
    \<and> (\<forall>t. t \<notin> set (ptr_targets E p s) \<longrightarrow> ms t = metas s t)
    \<and> (\<forall>t. pt_is_shared (Pt E) (ms t) = pt_is_shared (Pt E) (metas s t))
    \<and> obj_view (Ob E) h a = (pt_get_ds_id (Pt E) (metas s p), u64_bytes oid, bs)
    \<and> (\<forall>x. body x \<longrightarrow> outside a n x \<longrightarrow> h x = heap s x)"
proof -
  let ?ds = "pt_get_ds_id (Pt E) (metas s p)" and ?H = "ob_kHeaderSize (Ob E)" and ?oid = "u64_bytes oid"
  obtain d where rd: "dv_read_object (Dv E) ?ds ?oid (device s) = (of_nat (length bs), bs, d)"
      and cd: "contents d = contents (device s)"
    using read_stored [OF stored] by blast
  have len: "unat (of_nat (length bs) :: u16) = length bs" using fit by (intro unat_of_nat_u16) simp
  define h1 where "h1 = wr_bytes (heap s) (ob_get_data_addr (Ob E) a) bs"
  define h2 where "h2 = ob_init (Ob E) ?ds (of_nat (length bs)) ?oid a h1"
  define s2 where "s2 = s\<lparr>device := d, heap := h2\<rparr>"
  have targets: "ptr_targets E p s2 = ptr_targets E p s" by (simp add: s2_def ptr_targets_def)
  obtain h3 ms where fo: "fold (\<lambda>t. upd_ptr (pt_set_present (Pt E) t a) t) (ptr_targets E p s) s2 = s2\<lparr>heap := h3, metas := ms\<rparr>"
      "\<forall>t \<in> set (ptr_targets E p s). pt_is_present (Pt E) (ms t) \<and> pt_get_object_addr (Pt E) (ms t) = a"
      "\<forall>t. t \<notin> set (ptr_targets E p s) \<longrightarrow> ms t = metas s2 t"
      "\<forall>t. pt_is_shared (Pt E) (ms t) = pt_is_shared (Pt E) (metas s2 t)"
      "obj_view (Ob E) h3 a = obj_view (Ob E) (heap s2) a" "\<forall>x. outside a ?H x \<longrightarrow> h3 x = heap s2 x"
    using fold_upd_ptr [OF set_present_law [OF a(2)], of "ptr_targets E p s" s2] by blast
  define h4 where "h4 = rg_atomic_inc_ref_cnt (Rg E) a (-1) h3"
  have res: "fetch_object E oid p a s = s\<lparr>heap := h4, device := d, metas := ms\<rparr>"
    using fo(1) targets by (simp add: fetch_object_def rd inc_ref_cnt_def h1_def h2_def h4_def s2_def)
  have v2: "obj_view (Ob E) h2 a = (?ds, ?oid, bs)"
  proof -
    have "rd_bytes h1 (ob_get_data_addr (Ob E) a) (length bs) = bs"
      unfolding h1_def by (rule rd_wr_same) (use fit in simp_all)
    then show ?thesis unfolding h2_def
      using init_view [of ?oid "of_nat (length bs)" ?ds a h1] fit by (simp add: len)
  qed
  have v3: "obj_view (Ob E) h3 a = (?ds, ?oid, bs)" using fo(5) v2 by (simp add: s2_def)
  have ok3: "obj_ok (Ob E) h3 a" using v3 fit by (simp add: obj_ok_def obj_view_def)
  have "unat (ob_size (Ob E) h3 a) = ?H + length bs + 8" using size_view [OF ok3] v3 by (simp add: obj_view_def)
  then have "placed a (unat (ob_size (Ob E) h3 a))" using a(1) fit by (simp add: placed_def)
  then have v4: "obj_view (Ob E) h4 a = (?ds, ?oid, bs)"
    unfolding h4_def using view_headers [OF ok3 _ ref_cnt_headers] v3 by simp
  have frame: "h4 x = heap s x" if "body x" "outside a n x" for x
  proof -
    have o: "outside a k x" if "k \<le> n" for k using \<open>outside a n x\<close> that by (simp add: outside_def)
    have "h4 x = h3 x" using ref_cnt_headers that(1) by (simp add: h4_def only_headers_def)
    also have "\<dots> = h2 x" using fo(6) o [of ?H] fit by (simp add: s2_def)
    also have "\<dots> = h1 x" unfolding h2_def by (rule init_outside) (use o fit len in simp)
    also have "\<dots> = heap s x"
      unfolding h1_def data_addr using outside_sub [OF that(2), of ?H "length bs"] fit by (simp add: wr_bytes_outside)
    finally show ?thesis .
  qed
  show ?thesis using res cd fo(2-4) v4 frame by (simp add: s2_def) blast
qed

lemma fetch_spec:
  assumes unshared: "\<not> pt_is_shared (Pt E) (metas s p)"
    and stored: "contents (device s) (pt_get_ds_id (Pt E) (metas s p), u64_bytes oid) = Some bs"
    and fit: "ob_kHeaderSize (Ob E) + length bs + 8 \<le> n" "n < 2 ^ 16"
    and a: "placed a n" "addressable (Ob E) a"
  shows "\<exists>h d m. fetch_object E oid p a s = s\<lparr>heap := h, device := d, metas := (metas s)(p := m)\<rparr>
    \<and> contents d = contents (device s)
    \<and> pt_is_present (Pt E) m \<and> pt_get_object_addr (Pt E) m = a \<and> \<not> pt_is_shared (Pt E) m
    \<and> obj_view (Ob E) h a = (pt_get_ds_id (Pt E) (metas s p), u64_bytes oid, bs)
    \<and> (\<forall>x. body x \<longrightarrow> outside a n x \<longrightarrow> h x = heap s x)"
proof -
  have t: "ptr_targets E p s = [p]" using unshared by (simp add: ptr_targets_def)
  obtain h d ms where f: "fetch_object E oid p a s = s\<lparr>heap := h, device := d, metas := ms\<rparr>"
      "contents d = contents (device s)" "pt_is_present (Pt E) (ms p)" "pt_get_object_addr (Pt E) (ms p) = a"
      "\<forall>t. t \<noteq> p \<longrightarrow> ms t = metas s t" "\<forall>t. pt_is_shared (Pt E) (ms t) = pt_is_shared (Pt E) (metas s t)"
      "obj_view (Ob E) h a = (pt_get_ds_id (Pt E) (metas s p), u64_bytes oid, bs)"
      "\<forall>x. body x \<longrightarrow> outside a n x \<longrightarrow> h x = heap s x"
    using fetch_general [OF stored fit a] t by auto
  have "ms = (metas s)(p := ms p)" using f(5) by auto
  then show ?thesis using f unshared by metis
qed

lemma fetch_value:
  assumes ok: "ptr_ok E contents s p" and absent: "\<not> pt_is_present (Pt E) (metas s p)"
    and a: "placed a (unat (pt_get_object_size (Pt E) (metas s p)))" "addressable (Ob E) a"
  defines "s' \<equiv> fetch_object E (pt_get_object_id (Pt E) (metas s p)) p a s"
  shows "\<exists>h d m. s' = s\<lparr>heap := h, device := d, metas := (metas s)(p := m)\<rparr> \<and> contents d = contents (device s)
    \<and> pt_is_present (Pt E) m \<and> pt_get_object_addr (Pt E) m = a
    \<and> ptr_ok E contents s' p \<and> value_of E contents s' p = value_of E contents s p
    \<and> (\<forall>x. body x \<longrightarrow> outside a (unat (pt_get_object_size (Pt E) (metas s p))) x \<longrightarrow> h x = heap s x)"
proof -
  let ?m = "metas s p" let ?ds = "pt_get_ds_id (Pt E) ?m" and ?oid = "pt_get_object_id (Pt E) ?m"
  let ?n = "unat (pt_get_object_size (Pt E) ?m)"
  obtain bs where un: "\<not> pt_is_shared (Pt E) ?m" and oid: "?oid < 2 ^ 38"
      and stored: "contents (device s) (?ds, u64_bytes ?oid) = Some bs" and fit: "ob_kHeaderSize (Ob E) + length bs + 8 \<le> ?n"
    using ok absent by (auto simp: ptr_ok_def Let_def)
  have n: "?n < 2 ^ 16" by (rule unat_u16_less)
  obtain h d m where f: "s' = s\<lparr>heap := h, device := d, metas := (metas s)(p := m)\<rparr>" "contents d = contents (device s)"
      "pt_is_present (Pt E) m" "pt_get_object_addr (Pt E) m = a" "\<not> pt_is_shared (Pt E) m"
      "obj_view (Ob E) h a = (?ds, u64_bytes ?oid, bs)"
      "\<forall>x. body x \<longrightarrow> outside a ?n x \<longrightarrow> h x = heap s x"
    using fetch_spec [OF un stored fit n a] unfolding s'_def by blast
  have okh: "obj_ok (Ob E) h a" using f(6) fit n by (simp add: obj_ok_def obj_view_def)
  have "unat (ob_size (Ob E) h a) = ob_kHeaderSize (Ob E) + length bs + 8"
    using size_view [OF okh] f(6) by (simp add: obj_view_def)
  then have "placed a (unat (ob_size (Ob E) h a))" using a(1) fit by (simp add: placed_def)
  then have "obj_backed E contents s' b a" for b
    using f okh a(2) oid stored by (auto simp: obj_backed_def obj_view_def)
  then have "ptr_ok E contents s' p" using f by (simp add: ptr_ok_def Let_def)
  moreover have "value_of E contents s' p = value_of E contents s p"
    using f absent stored by (simp add: value_of_def Let_def)
  ultimately show ?thesis using f by blast
qed

text \<open>A new object belongs to its pointer.\<close>

lemma owner_headers:
  assumes "owned_by (Ob E) h a p" and "placed a n" "ob_kHeaderSize (Ob E) \<le> n" and "only_headers h h'"
  shows "owned_by (Ob E) h' a p"
proof -
  have "h' (a + of_nat i) = h (a + of_nat i)" if "i < ob_kHeaderSize (Ob E)" for i
    using assms(4) placed_body [OF assms(2), of i] assms(3) that by (simp add: only_headers_def)
  from header_owner [where h' = h' and h = h and a = a, OF this] show ?thesis using assms(1) by (simp add: owned_by_def)
qed

lemma fetch_owner:
  assumes "\<not> pt_is_shared (Pt E) (metas s p)" and "p \<noteq> 0" and a: "placed a n" "ob_kHeaderSize (Ob E) \<le> n"
  shows "owned_by (Ob E) (heap (fetch_object E oid p a s)) a p"
proof -
  have t: "ptr_targets E p (s\<lparr>device := d, heap := h\<rparr>) = [p]" for d h using assms(1) by (simp add: ptr_targets_def)
  obtain h m h' where f: "pt_set_present (Pt E) p a (metas s p, h) = (m, h')"
      "heap (fetch_object E oid p a s) = rg_atomic_inc_ref_cnt (Rg E) a (-1) h'"
    by (force simp: fetch_object_def t upd_ptr_def inc_ref_cnt_def Let_def split: prod.splits)
  show ?thesis unfolding f(2) by (rule owner_headers [OF set_present_owner [OF assms(2) f(1)] a ref_cnt_headers])
qed

lemma copy_owner:
  assumes "\<not> pt_is_shared (Pt E) (metas s p)" and "copy_notifiers s = (\<lambda>_. 0)" and "p \<noteq> 0"
    and a: "placed a' n" "ob_kHeaderSize (Ob E) \<le> n"
  shows "owned_by (Ob E) (heap (copy_object E p obj sz a' s)) a' p"
proof -
  have t: "ptr_targets E p (s\<lparr>heap := h\<rparr>) = [p]" for h using assms(1) by (simp add: ptr_targets_def)
  obtain h m h' where f: "pt_gc_copy (Pt E) p a' (metas s p, h) = (m, h')"
      "heap (copy_object E p obj sz a' s) = rg_atomic_inc_ref_cnt (Rg E) a' (-1) h'"
    by (force simp: copy_object_def t upd_ptr_def inc_ref_cnt_def assms(2) Let_def split: prod.splits)
  show ?thesis unfolding f(2) by (rule owner_headers [OF gc_copy_owner [OF assms(3) f(1)] a ref_cnt_headers])
qed

lemma init_owned:
  assumes "owned_by (Ob E) h a p" and "length oid < 256" and "ob_kHeaderSize (Ob E) + unat len + length oid < 2 ^ 16"
  shows "owned_by (Ob E) (ob_init (Ob E) ds len oid a h) a p"
  using init_owner [OF assms(2,3), of ds a h] assms(1) by (simp add: owned_by_def)

lemma swap_in_value:
  assumes ok: "ptr_ok E contents s p" and absent: "\<not> pt_is_present (Pt E) (metas s p)"
  defines "oidb \<equiv> u64_bytes (pt_get_object_id (Pt E) (metas s p))"
  assumes lock: "lock_wait E oidb s = Some s1" and rely: "metas s1 p = metas s p"
      "contents (device s1) (pt_get_ds_id (Pt E) (metas s p), oidb) = contents (device s) (pt_get_ds_id (Pt E) (metas s p), oidb)"
    and al: "allocate_local_object E nt (pt_get_object_size (Pt E) (metas s p)) (s1\<lparr>obj_locks := insert oidb (obj_locks s1)\<rparr>)
        = Some (Inr (a, s2))" "alloc_frame E items capacity N (s1\<lparr>obj_locks := insert oidb (obj_locks s1)\<rparr>) s2"
      "placed a (unat (pt_get_object_size (Pt E) (metas s p)))" "addressable (Ob E) a"
  shows "\<exists>s'. swap_in E nt p s = Some (Inr s') \<and> pt_is_present (Pt E) (metas s' p) \<and> pt_get_object_addr (Pt E) (metas s' p) = a
    \<and> ptr_ok E contents s' p \<and> value_of E contents s' p = value_of E contents s p
    \<and> contents (device s') = contents (device s1) \<and> obj_locks s' = obj_locks s1 - {oidb} \<and> preempt_cnt s' = preempt_cnt s1
    \<and> cache_region_manager s' = cache_region_manager s2 \<and> cur_slot s' = cur_slot s1
    \<and> (\<forall>q. q \<noteq> p \<longrightarrow> metas s' q = metas s1 q)
    \<and> (\<forall>x. body x \<longrightarrow> outside a (unat (pt_get_object_size (Pt E) (metas s p))) x \<longrightarrow> heap s' x = heap s1 x)"
proof -
  let ?m = "metas s p"
  note fr = alloc_frame_fields [OF al(2)]
  have m2: "metas s2 = metas s1" "device s2 = device s1" using fr by simp_all
  have ok2: "ptr_ok E contents s2 p" and val2: "value_of E contents s2 p = value_of E contents s p"
    using ok absent rely m2 unfolding oidb_def by (auto simp: ptr_ok_def value_of_def Let_def)
  obtain h d m where f: "fetch_object E (pt_get_object_id (Pt E) ?m) p a s2 = s2\<lparr>heap := h, device := d, metas := (metas s2)(p := m)\<rparr>"
      "contents d = contents (device s2)" "pt_is_present (Pt E) m" "pt_get_object_addr (Pt E) m = a"
      "ptr_ok E contents (fetch_object E (pt_get_object_id (Pt E) ?m) p a s2) p"
      "value_of E contents (fetch_object E (pt_get_object_id (Pt E) ?m) p a s2) p = value_of E contents s2 p"
      "\<forall>x. body x \<longrightarrow> outside a (unat (pt_get_object_size (Pt E) ?m)) x \<longrightarrow> h x = heap s2 x"
    using fetch_value [OF ok2, of a] absent al(3,4) m2 rely by auto
  let ?s' = "unlock_object oidb (fetch_object E (pt_get_object_id (Pt E) ?m) p a s2)"
  have "swap_in E nt p s = Some (Inr ?s')"
    using absent lock al(1) rely by (simp add: swap_in_def lock_object_def oidb_def Let_def)
  moreover have "ptr_ok E contents ?s' p" "value_of E contents ?s' p = value_of E contents s2 p"
    using f(5,6) ptr_ok_cong [of ?s' p "fetch_object E (pt_get_object_id (Pt E) ?m) p a s2" E contents]
    by (simp_all add: unlock_object_def)
  moreover have "heap ?s' x = heap s1 x"
    if "body x" "outside a (unat (pt_get_object_size (Pt E) ?m)) x" for x
    using f(1,7) that fr(8) by (simp add: unlock_object_def only_headers_def)
  ultimately show ?thesis using f(1-4) fr val2 by (auto simp: unlock_object_def)
qed

text \<open>A copy inside the cache.\<close>

lemma copy_spec:
  assumes un: "\<not> pt_is_shared (Pt E) (metas s p)" and nn: "copy_notifiers s (ob_get_ds_id (Ob E) (heap s) obj) = 0"
    and obj: "obj_ok (Ob E) (heap s) obj" and a: "placed a (unat (ob_size (Ob E) (heap s) obj))" "addressable (Ob E) a"
  defines "n \<equiv> unat (ob_size (Ob E) (heap s) obj)"
  shows "\<exists>h m. copy_object E p obj (ob_size (Ob E) (heap s) obj) a s = s\<lparr>heap := h, metas := (metas s)(p := m)\<rparr>
    \<and> pt_is_present (Pt E) m \<and> pt_get_object_addr (Pt E) m = a \<and> \<not> pt_is_shared (Pt E) m
    \<and> pt_is_dirty (Pt E) m = pt_is_dirty (Pt E) (metas s p) \<and> \<not> pt_is_evacuation (Pt E) m
    \<and> obj_view (Ob E) h a = obj_view (Ob E) (heap s) obj
    \<and> (\<forall>x. body x \<longrightarrow> outside a n x \<longrightarrow> h x = heap s x)"
proof -
  have n64: "n \<le> 2 ^ 64" unfolding n_def by (rule order.trans [OF less_imp_le [OF unat_u16_less]]) simp
  define h1 where "h1 = memcpy (heap s) a obj n"
  define s1 where "s1 = s\<lparr>heap := h1\<rparr>"
  have v1: "obj_view (Ob E) h1 a = obj_view (Ob E) (heap s) obj \<and> ob_size (Ob E) h1 a = ob_size (Ob E) (heap s) obj"
    unfolding h1_def by (rule view_memcpy [OF obj]) (use n64 in \<open>simp_all add: n_def\<close>)
  obtain h2 m where up: "pt_gc_copy (Pt E) p a (metas s p, h1) = (m, h2)" by fastforce
  note law = gc_copy_law [OF a(2), unfolded update_law_def, rule_format, OF up]
  have ok2: "obj_ok (Ob E) h2 a" using view_ok law v1 obj by metis
  define h3 where "h3 = rg_atomic_inc_ref_cnt (Rg E) a (-1) h2"
  have res: "copy_object E p obj (ob_size (Ob E) (heap s) obj) a s = s\<lparr>heap := h3, metas := (metas s)(p := m)\<rparr>"
    using un nn up by (simp add: copy_object_def ptr_targets_def upd_ptr_def inc_ref_cnt_def h1_def h3_def n_def)
  have "obj_view (Ob E) h3 a = obj_view (Ob E) h2 a"
    unfolding h3_def using view_headers [OF ok2 _ ref_cnt_headers] law v1 a(1) by simp
  then have v3: "obj_view (Ob E) h3 a = obj_view (Ob E) (heap s) obj" using law v1 by simp
  have hn: "ob_kHeaderSize (Ob E) \<le> n" using size_view [OF obj] by (simp add: n_def)
  have frame: "h3 x = heap s x" if "body x" "outside a n x" for x
  proof -
    have "h3 x = h2 x" using ref_cnt_headers that(1) by (simp add: h3_def only_headers_def)
    also have "\<dots> = h1 x" using law that(2) hn by (simp add: outside_def)
    also have "\<dots> = heap s x" unfolding h1_def memcpy_def using that(2) by (simp add: wr_bytes_outside)
    finally show ?thesis .
  qed
  show ?thesis using res law v3 frame un by (intro exI [of _ h3] exI [of _ m]) simp
qed

text \<open>An eviction.\<close>

lemma evict_spec:
  assumes un: "\<not> pt_is_shared (Pt E) (metas s p)" and nn: "evac_notifiers s (ob_get_ds_id (Ob E) (heap s) obj) = 0"
    and obj: "obj_ok (Ob E) (heap s) obj" and oid: "obj_id_bytes (Ob E) (heap s) obj = u64_bytes oid" "oid < 2 ^ 38"
  defines "ds \<equiv> ob_get_ds_id (Ob E) (heap s) obj" and "sz \<equiv> ob_size (Ob E) (heap s) obj"
  shows "\<exists>d. evict_object E p obj dirty s = s\<lparr>device := d, metas := (metas s)(p := pt_gc_wb (Pt E) ds sz oid (metas s p))\<rparr>
    \<and> contents d = (if dirty then (contents (device s))((ds, u64_bytes oid) \<mapsto> obj_data (Ob E) (heap s) obj) else contents (device s))"
proof -
  let ?id = "ob_get_obj_id (Ob E) (heap s) obj" and ?len = "ob_get_obj_id_len (Ob E) (heap s) obj"
  let ?data = "rd_bytes (heap s) (ob_get_data_addr (Ob E) obj) (unat (ucast (ob_get_data_len (Ob E) (heap s) obj) :: u32))"
  define d where "d = (if dirty then dv_write_object (Dv E) ds (u64_bytes oid) ?data (device s) else device s)"
  have idb: "rd_bytes (heap s) ?id (unat ?len) = u64_bytes oid" using oid(1) by (simp add: obj_id_bytes_def)
  then have "unat ?len = 8" by (metis length_rd_bytes length_u64_bytes)
  then have id64: "rd_u64 (heap s) ?id = oid" using idb by (intro rd_u64_bytes) simp
  have "unat (ucast (ob_get_data_len (Ob E) (heap s) obj) :: u32) = unat (ob_get_data_len (Ob E) (heap s) obj)"
  proof -
    have "unat (ob_get_data_len (Ob E) (heap s) obj) < 2 ^ 16"
      by (rule unat_u16_less)
    then show ?thesis by (simp add: unsigned_ucast_eq take_bit_nat_eq_self)
  qed
  then have data: "?data = obj_data (Ob E) (heap s) obj" by (simp add: obj_data_def)
  have len: "length (obj_data (Ob E) (heap s) obj) < 2 ^ 16" using obj by (simp add: obj_ok_def)
  have "evict_object E p obj dirty s = s\<lparr>device := d, metas := (metas s)(p := pt_gc_wb (Pt E) ds sz oid (metas s p))\<rparr>"
    using un nn idb id64 by (simp add: evict_object_def write_object_def ptr_targets_def upd_meta_def d_def ds_def sz_def Let_def)
  moreover have "contents d = (if dirty then (contents (device s))((ds, u64_bytes oid) \<mapsto> obj_data (Ob E) (heap s) obj) else contents (device s))"
    using write_stored [OF len] by (simp add: d_def data)
  ultimately show ?thesis by blast
qed

lemma evict_value:
  assumes ok: "ptr_ok E contents s p" and here: "pt_is_present (Pt E) (metas s p)" "pt_get_object_addr (Pt E) (metas s p) = obj"
    and nn: "evac_notifiers s (ob_get_ds_id (Ob E) (heap s) obj) = 0"
    and dirty: "dirty = pt_is_dirty (Pt E) (metas s p)"
  defines "s' \<equiv> evict_object E p obj dirty s"
  shows "\<not> pt_is_present (Pt E) (metas s' p) \<and> ptr_ok E contents s' p \<and> value_of E contents s' p = value_of E contents s p
    \<and> heap s' = heap s \<and> (\<forall>q. q \<noteq> p \<longrightarrow> metas s' q = metas s q)
    \<and> (\<exists>d m. s' = s\<lparr>device := d, metas := m\<rparr>)"
proof -
  have un: "\<not> pt_is_shared (Pt E) (metas s p)" and bk: "obj_backed E contents s dirty obj"
    using ok here dirty by (simp_all add: ptr_ok_def Let_def)
  then obtain oid where oid: "obj_id_bytes (Ob E) (heap s) obj = u64_bytes oid" "oid < 2 ^ 38"
      and obj: "obj_ok (Ob E) (heap s) obj"
      and clean: "\<not> dirty \<Longrightarrow> contents (device s) (ob_get_ds_id (Ob E) (heap s) obj, u64_bytes oid) = Some (obj_data (Ob E) (heap s) obj)"
    by (auto simp: obj_backed_def)
  obtain d where e: "s' = s\<lparr>device := d, metas := (metas s)(p := pt_gc_wb (Pt E) (ob_get_ds_id (Ob E) (heap s) obj)
          (ob_size (Ob E) (heap s) obj) oid (metas s p))\<rparr>"
      "contents d = (if dirty then (contents (device s))((ob_get_ds_id (Ob E) (heap s) obj, u64_bytes oid) \<mapsto> obj_data (Ob E) (heap s) obj)
         else contents (device s))"
    using evict_spec [OF un nn obj oid] unfolding s'_def by blast
  have stored: "contents d (ob_get_ds_id (Ob E) (heap s) obj, u64_bytes oid) = Some (obj_data (Ob E) (heap s) obj)"
    using e(2) clean by simp
  have sz: "unat (ob_size (Ob E) (heap s) obj) = ob_kHeaderSize (Ob E) + length (obj_data (Ob E) (heap s) obj) + 8"
    using size_view [OF obj] oid(1) by simp
  note wb = gc_wb [OF oid(2), of "ob_get_ds_id (Ob E) (heap s) obj" "ob_size (Ob E) (heap s) obj" "metas s p"]
  have "ptr_ok E contents s' p" using e(1) wb un oid stored sz by (simp add: ptr_ok_def Let_def)
  moreover have "value_of E contents s' p = value_of E contents s p"
    using e(1) wb stored here oid(1) by (simp add: value_of_def obj_view_def Let_def)
  ultimately show ?thesis using e(1) wb by auto
qed

text \<open>Allocation leaves every well-formed pointer and its value alone.\<close>

lemma backed_view:
  assumes "obj_view (Ob E) (heap s') a' = obj_view (Ob E) (heap s) a" and "placed a' (unat (ob_size (Ob E) (heap s) a))"
    and "addressable (Ob E) a'" and "contents (device s') = contents (device s)" and "obj_backed E contents s b a"
  shows "obj_backed E contents s' b a'"
proof -
  have "obj_ok (Ob E) (heap s) a" using assms(5) by (simp add: obj_backed_def)
  then have "obj_ok (Ob E) (heap s') a'" "ob_size (Ob E) (heap s') a' = ob_size (Ob E) (heap s) a"
    using view_ok [OF assms(1)] view_size [OF assms(1)] by simp_all
  then show ?thesis using assms by (auto simp: obj_backed_def obj_view_def)
qed

lemma frame_value:
  assumes "ptr_ok E contents s p" and "alloc_frame E items capacity N s s'"
  shows "ptr_ok E contents s' p \<and> value_of E contents s' p = value_of E contents s p
    \<and> (pt_is_present (Pt E) (metas s p) \<longrightarrow> obj_view (Ob E) (heap s') (pt_get_object_addr (Pt E) (metas s p))
         = obj_view (Ob E) (heap s) (pt_get_object_addr (Pt E) (metas s p))
       \<and> ob_size (Ob E) (heap s') (pt_get_object_addr (Pt E) (metas s p)) = ob_size (Ob E) (heap s) (pt_get_object_addr (Pt E) (metas s p)))"
proof (cases "pt_is_present (Pt E) (metas s p)")
  case False
  then show ?thesis using assms(1) alloc_frame_fields(1,2) [OF assms(2)] by (simp add: ptr_ok_def value_of_def Let_def)
next
  case True
  let ?a = "pt_get_object_addr (Pt E) (metas s p)"
  note fr = alloc_frame_fields [OF assms(2)]
  have bk: "obj_backed E contents s (pt_is_dirty (Pt E) (metas s p)) ?a" using assms(1) True by (simp add: ptr_ok_def Let_def)
  then have v: "obj_view (Ob E) (heap s') ?a = obj_view (Ob E) (heap s) ?a \<and> ob_size (Ob E) (heap s') ?a = ob_size (Ob E) (heap s) ?a"
    using view_headers [OF _ _ fr(8)] by (simp add: obj_backed_def)
  then have "obj_backed E contents s' (pt_is_dirty (Pt E) (metas s p)) ?a"
    using backed_view [OF _ _ _ _ bk, of s' ?a] bk fr(2) by (simp add: obj_backed_def)
  then show ?thesis using True v assms(1) fr(1) by (simp add: ptr_ok_def value_of_def Let_def)
qed

lemma copy_value:
  assumes ok: "ptr_ok E contents s p" and here: "pt_is_present (Pt E) (metas s p)" "pt_get_object_addr (Pt E) (metas s p) = obj"
    and nn: "copy_notifiers s (ob_get_ds_id (Ob E) (heap s) obj) = 0"
    and a: "placed a (unat (ob_size (Ob E) (heap s) obj))" "addressable (Ob E) a"
  defines "s' \<equiv> copy_object E p obj (ob_size (Ob E) (heap s) obj) a s"
  shows "pt_is_present (Pt E) (metas s' p) \<and> ptr_ok E contents s' p \<and> value_of E contents s' p = value_of E contents s p
    \<and> device s' = device s \<and> (\<forall>q. q \<noteq> p \<longrightarrow> metas s' q = metas s q)
    \<and> (\<exists>h m. s' = s\<lparr>heap := h, metas := m\<rparr>)
    \<and> (\<forall>x. body x \<longrightarrow> outside a (unat (ob_size (Ob E) (heap s) obj)) x \<longrightarrow> heap s' x = heap s x)"
proof -
  have un: "\<not> pt_is_shared (Pt E) (metas s p)" and bk: "obj_backed E contents s (pt_is_dirty (Pt E) (metas s p)) obj"
    using ok here by (simp_all add: ptr_ok_def Let_def)
  then have obj: "obj_ok (Ob E) (heap s) obj" by (simp add: obj_backed_def)
  obtain h m where c: "s' = s\<lparr>heap := h, metas := (metas s)(p := m)\<rparr>"
      "pt_is_present (Pt E) m" "pt_get_object_addr (Pt E) m = a" "\<not> pt_is_shared (Pt E) m"
      "pt_is_dirty (Pt E) m = pt_is_dirty (Pt E) (metas s p)" "obj_view (Ob E) h a = obj_view (Ob E) (heap s) obj"
      "\<forall>x. body x \<longrightarrow> outside a (unat (ob_size (Ob E) (heap s) obj)) x \<longrightarrow> h x = heap s x"
    using copy_spec [OF un nn obj a] unfolding s'_def by blast
  have "obj_backed E contents s' (pt_is_dirty (Pt E) (metas s p)) a"
    using backed_view [OF _ a _ bk, of s'] c by simp
  then have "ptr_ok E contents s' p" using c by (simp add: ptr_ok_def Let_def)
  moreover have "value_of E contents s' p = value_of E contents s p"
    using c here by (simp add: value_of_def Let_def)
  ultimately show ?thesis using c by auto
qed

lemma swap_out_value:
  assumes cok: "cache_ok E items capacity N s"
    and ok: "ptr_ok E contents s p" and here: "pt_is_present (Pt E) (metas s p)" "pt_get_object_addr (Pt E) (metas s p) = obj"
    and nn: "evac_notifiers s (ob_get_ds_id (Ob E) (heap s) obj) = 0" "copy_notifiers s (ob_get_ds_id (Ob E) (heap s) obj) = 0"
  shows "\<exists>s'. swap_out E p obj s = Some (Inr s') \<and> cache_ok E items capacity N s'
    \<and> region_ids (Rg E) items (cache_region_manager s') = region_ids (Rg E) items (cache_region_manager s)
    \<and> ptr_ok E contents s' p \<and> value_of E contents s' p = value_of E contents s p
    \<and> preempt_cnt s' = preempt_cnt s \<and> obj_locks s' = obj_locks s \<and> (\<forall>q. q \<noteq> p \<longrightarrow> metas s' q = metas s q)
    \<and> (pt_is_evacuation (Pt E) (metas s p) \<longrightarrow> pt_is_present (Pt E) (metas s' p) \<longrightarrow>
        pt_is_hot (Pt E) (metas s p) \<and> \<not> pt_is_nt (Pt E) (heap s) (metas s p) \<and> \<not> almost_empty s)
    \<and> (\<not> pt_is_evacuation (Pt E) (metas s p) \<longrightarrow> s' = s)"
proof (cases "pt_is_evacuation (Pt E) (metas s p)")
  case False
  then show ?thesis using assms by (simp add: swap_out_def)
next
  case True
  let ?hot = "pt_is_hot (Pt E) (metas s p)" and ?nt = "pt_is_nt (Pt E) (heap s) (metas s p)"
  let ?dirty = "pt_is_dirty (Pt E) (metas s p)"
  have un: "\<not> pt_is_shared (Pt E) (metas s p)" using ok by (simp add: ptr_ok_def Let_def)
  have flags: "evacuation_flags E p s = (?hot, ?nt, ?dirty)" using un by (simp add: evacuation_flags_def)
  have evict: "\<exists>s'. evict_object E p obj ?dirty t = s' \<and> cache_ok E items capacity N s'
      \<and> region_ids (Rg E) items (cache_region_manager s') = region_ids (Rg E) items (cache_region_manager t)
      \<and> ptr_ok E contents s' p \<and> value_of E contents s' p = value_of E contents t p
      \<and> preempt_cnt s' = preempt_cnt t \<and> obj_locks s' = obj_locks t \<and> (\<forall>q. q \<noteq> p \<longrightarrow> metas s' q = metas t q)
      \<and> \<not> pt_is_present (Pt E) (metas s' p)"
    if "cache_ok E items capacity N t" "ptr_ok E contents t p" "metas t p = metas s p"
      "evac_notifiers t (ob_get_ds_id (Ob E) (heap t) obj) = 0" for t
    using evict_value [OF that(2), of obj ?dirty] that here by (auto simp: cache_ok_def)
  show ?thesis
  proof (cases "?hot \<and> \<not> ?nt \<and> \<not> almost_empty s")
    case False
    then have "swap_out E p obj s = Some (Inr (evict_object E p obj ?dirty s))"
      using True flags by (auto simp: swap_out_def)
    then show ?thesis using evict [OF cok ok _ nn(1)] True by auto
  next
    case hot: True
    let ?n = "ob_size (Ob E) (heap s) obj"
    obtain res t where al: "allocate_local_object_nb E False ?n s = Some (Inr (res, t))"
        and fr: "alloc_frame E items capacity N s t"
        and res: "case res of None \<Rightarrow> items (free_regions (cache_region_manager t)) = []
          | Some a \<Rightarrow> placed a (unat ?n) \<and> addressable (Ob E) a"
      using allocate_nb_spec [OF cok] by blast
    note f = alloc_frame_fields [OF fr]
    have tv: "ptr_ok E contents t p" "value_of E contents t p = value_of E contents s p"
        "obj_view (Ob E) (heap t) obj = obj_view (Ob E) (heap s) obj" "ob_size (Ob E) (heap t) obj = ?n"
      using frame_value [OF ok fr] here by auto
    have ds: "ob_get_ds_id (Ob E) (heap t) obj = ob_get_ds_id (Ob E) (heap s) obj" using tv(3) by (simp add: obj_view_def)
    have tok: "cache_ok E items capacity N t" using alloc_frame_ok [OF fr cok] .
    show ?thesis
    proof (cases res)
      case None
      then have out: "swap_out E p obj s = Some (Inr (evict_object E p obj ?dirty t))"
        using True flags hot al by (simp add: swap_out_def Let_def)
      have nt: "evac_notifiers t (ob_get_ds_id (Ob E) (heap t) obj) = 0" using nn(1) ds f(11) by simp
      have mp: "metas t p = metas s p" using f(1) by simp
      show ?thesis using out evict [OF tok tv(1) mp nt] tv(2) f True hot by auto
    next
      case (Some a)
      then have out: "swap_out E p obj s = Some (Inr (copy_object E p obj ?n a t))"
        using True flags hot al by (simp add: swap_out_def Let_def)
      have nt: "copy_notifiers t (ob_get_ds_id (Ob E) (heap t) obj) = 0" using nn(2) ds f(12) by simp
      have "pt_is_present (Pt E) (metas t p)" "pt_get_object_addr (Pt E) (metas t p) = obj" using here f(1) by simp_all
      note c = copy_value [OF tv(1) this nt, of a, unfolded tv(4)]
      then show ?thesis using out res Some tv(2) f True hot tok by (auto simp: cache_ok_def)
    qed
  qed
qed

text \<open>Marking a pointer for evacuation changes neither its value nor its invariant.\<close>

lemma mark_value:
  assumes "ptr_ok E contents s p" and "pt_is_present (Pt E) (metas s p)"
  shows "ptr_ok E contents (upd_meta (pt_set_evacuation (Pt E)) p s) p"
    and "value_of E contents (upd_meta (pt_set_evacuation (Pt E)) p s) p = value_of E contents s p"
  using assms set_evacuation [OF assms(2)] by (simp_all add: ptr_ok_def obj_backed_def value_of_def upd_meta_def Let_def)

text \<open>A fetch under a free lock, with room in the cache.\<close>

lemma swap_in_quiet:
  assumes cok: "cache_ok E items capacity N s" and ok: "ptr_ok E contents s p" and absent: "\<not> pt_is_present (Pt E) (metas s p)"
    and lock: "lock_wait E (u64_bytes (pt_get_object_id (Pt E) (metas s p))) s = Some s"
    and room: "fst (rg_allocate_object (Rg E) (pt_get_object_size (Pt E) (metas s p)) (get_slot (cache_region_manager s) (cur_slot s False)) (heap s)) \<noteq> None
      \<or> (\<exists>x xs. items (free_regions (cache_region_manager s)) = x # xs
           \<and> (\<forall>h. fst (rg_allocate_object (Rg E) (pt_get_object_size (Pt E) (metas s p)) x h) \<noteq> None))"
  shows "\<exists>a s'. swap_in E False p s = Some (Inr s') \<and> pt_is_present (Pt E) (metas s' p) \<and> pt_get_object_addr (Pt E) (metas s' p) = a
    \<and> placed a (unat (pt_get_object_size (Pt E) (metas s p)))
    \<and> ptr_ok E contents s' p \<and> value_of E contents s' p = value_of E contents s p \<and> cache_ok E items capacity N s'
    \<and> region_ids (Rg E) items (cache_region_manager s') = region_ids (Rg E) items (cache_region_manager s)
    \<and> contents (device s') = contents (device s) \<and> obj_locks s' = obj_locks s - {u64_bytes (pt_get_object_id (Pt E) (metas s p))}
    \<and> preempt_cnt s' = preempt_cnt s \<and> (\<forall>q. q \<noteq> p \<longrightarrow> metas s' q = metas s q)
    \<and> (\<forall>x. body x \<longrightarrow> outside a (unat (pt_get_object_size (Pt E) (metas s p))) x \<longrightarrow> heap s' x = heap s x)"
proof -
  let ?k = "u64_bytes (pt_get_object_id (Pt E) (metas s p))"
  let ?t = "s\<lparr>obj_locks := insert ?k (obj_locks s)\<rparr>"
  have tok: "cache_ok E items capacity N ?t" using cok by (simp add: cache_ok_def)
  obtain a s2 where al: "allocate_local_object E False (pt_get_object_size (Pt E) (metas s p)) ?t = Some (Inr (a, s2))"
      "alloc_frame E items capacity N ?t s2" "placed a (unat (pt_get_object_size (Pt E) (metas s p)))" "addressable (Ob E) a"
    using local_returns [OF tok, of "pt_get_object_size (Pt E) (metas s p)"] room by auto
  note fr = alloc_frame_fields [OF al(2)]
  from swap_in_value [OF ok absent lock refl refl al] al(3) fr tok show ?thesis
    by (auto simp: cache_ok_def)
qed

end

text \<open>
  Fetching preserves the value: swapping in an absent well-formed pointer whose lock is
  free and whose object fits the cache returns, makes the pointer present, and leaves its
  value what it was: data structure, id and every byte of data. Device, other pointers and
  all other objects keep their contents, the lock is released, no region is lost.
\<close>

theorem swap_in_preserves_value:
  assumes "manager_env E items capacity contents" and "cache_ok E items capacity N s"
    and "ptr_ok E contents s p" and "\<not> pt_is_present (Pt E) (metas s p)"
    and "lock_wait E (u64_bytes (pt_get_object_id (Pt E) (metas s p))) s = Some s"
    and "fst (rg_allocate_object (Rg E) (pt_get_object_size (Pt E) (metas s p)) (get_slot (cache_region_manager s) (cur_slot s False)) (heap s)) \<noteq> None
      \<or> (\<exists>x xs. items (free_regions (cache_region_manager s)) = x # xs
           \<and> (\<forall>h. fst (rg_allocate_object (Rg E) (pt_get_object_size (Pt E) (metas s p)) x h) \<noteq> None))"
  shows "\<exists>a s'. swap_in E False p s = Some (Inr s') \<and> pt_is_present (Pt E) (metas s' p) \<and> pt_get_object_addr (Pt E) (metas s' p) = a
    \<and> placed a (unat (pt_get_object_size (Pt E) (metas s p)))
    \<and> ptr_ok E contents s' p \<and> value_of E contents s' p = value_of E contents s p \<and> cache_ok E items capacity N s'
    \<and> region_ids (Rg E) items (cache_region_manager s') = region_ids (Rg E) items (cache_region_manager s)
    \<and> contents (device s') = contents (device s) \<and> obj_locks s' = obj_locks s - {u64_bytes (pt_get_object_id (Pt E) (metas s p))}
    \<and> preempt_cnt s' = preempt_cnt s \<and> (\<forall>q. q \<noteq> p \<longrightarrow> metas s' q = metas s q)
    \<and> (\<forall>x. body x \<longrightarrow> outside a (unat (pt_get_object_size (Pt E) (metas s p))) x \<longrightarrow> heap s' x = heap s x)"
  by (rule manager_env.swap_in_quiet [OF assms])

text \<open>
  Eviction preserves the value: swapping out the object of a present well-formed
  pointer always returns, whether the object is copied inside the cache or written back,
  and also when the cache is full; the value is what it was. A pointer that is not marked
  for evacuation is left alone, and one that stays present was hot, temporal, and the cache
  not almost empty.
\<close>

theorem swap_out_preserves_value:
  assumes "manager_env E items capacity contents" and "cache_ok E items capacity N s"
    and "ptr_ok E contents s p" and "pt_is_present (Pt E) (metas s p)" and "pt_get_object_addr (Pt E) (metas s p) = obj"
    and "evac_notifiers s (ob_get_ds_id (Ob E) (heap s) obj) = 0" and "copy_notifiers s (ob_get_ds_id (Ob E) (heap s) obj) = 0"
  shows "\<exists>s'. swap_out E p obj s = Some (Inr s') \<and> cache_ok E items capacity N s'
    \<and> region_ids (Rg E) items (cache_region_manager s') = region_ids (Rg E) items (cache_region_manager s)
    \<and> ptr_ok E contents s' p \<and> value_of E contents s' p = value_of E contents s p
    \<and> preempt_cnt s' = preempt_cnt s \<and> obj_locks s' = obj_locks s \<and> (\<forall>q. q \<noteq> p \<longrightarrow> metas s' q = metas s q)
    \<and> (pt_is_evacuation (Pt E) (metas s p) \<longrightarrow> pt_is_present (Pt E) (metas s' p) \<longrightarrow>
        pt_is_hot (Pt E) (metas s p) \<and> \<not> pt_is_nt (Pt E) (heap s) (metas s p) \<and> \<not> almost_empty s)
    \<and> (\<not> pt_is_evacuation (Pt E) (metas s p) \<longrightarrow> s' = s)"
  by (rule manager_env.swap_out_value [OF assms])

text \<open>
  Second check: a present pointer is left alone, and one that another thread has
  fetched while this one waited for the object's lock is not fetched again: nothing is
  allocated, the device is not read, and the lock is released.
\<close>

theorem swap_in_rechecks:
  assumes "pt_is_present (Pt E) (metas s p)
     \<or> lock_wait E (u64_bytes (pt_get_object_id (Pt E) (metas s p))) s = Some t \<and> pt_is_present (Pt E) (metas t p)"
  shows "swap_in E nt p s = Some (Inr (if pt_is_present (Pt E) (metas s p) then s
     else t\<lparr>obj_locks := obj_locks t - {u64_bytes (pt_get_object_id (Pt E) (metas s p))}\<rparr>))"
  using assms by (auto simp: swap_in_def lock_object_def unlock_object_def Let_def)

text \<open>
  C24 (shared pointers): fetching the object of a shared pointer makes every pointer of its
  ring present at the one new object, which holds the stored data; no other pointer changes.
\<close>

theorem swap_in_whole_ring:
  assumes "manager_env E items capacity contents" and "\<not> pt_is_present (Pt E) (metas s p)"
    and "pt_is_shared (Pt E) (metas s p)" and "lock_wait E (u64_bytes (pt_get_object_id (Pt E) (metas s p))) s = Some s"
    and "allocate_local_object E nt (pt_get_object_size (Pt E) (metas s p))
        (s\<lparr>obj_locks := insert (u64_bytes (pt_get_object_id (Pt E) (metas s p))) (obj_locks s)\<rparr>) = Some (Inr (a, s2))"
    and "alloc_frame E items capacity N (s\<lparr>obj_locks := insert (u64_bytes (pt_get_object_id (Pt E) (metas s p))) (obj_locks s)\<rparr>) s2"
    and "placed a (unat (pt_get_object_size (Pt E) (metas s p)))" and "addressable (Ob E) a"
    and "contents (device s) (pt_get_ds_id (Pt E) (metas s p), u64_bytes (pt_get_object_id (Pt E) (metas s p))) = Some bs"
    and "ob_kHeaderSize (Ob E) + length bs + 8 \<le> unat (pt_get_object_size (Pt E) (metas s p))"
  shows "\<exists>s'. swap_in E nt p s = Some (Inr s')
    \<and> (\<forall>t. if t \<in> set (traverse E (next_ptrs s) p)
          then pt_is_present (Pt E) (metas s' t) \<and> pt_get_object_addr (Pt E) (metas s' t) = a else metas s' t = metas s t)
    \<and> obj_view (Ob E) (heap s') a = (pt_get_ds_id (Pt E) (metas s p), u64_bytes (pt_get_object_id (Pt E) (metas s p)), bs)"
proof -
  note fr = alloc_frame_fields [OF assms(6)]
  let ?oid = "pt_get_object_id (Pt E) (metas s p)"
  have targets: "ptr_targets E p s2 = traverse E (next_ptrs s) p" using fr assms(3) by (simp add: ptr_targets_def)
  have stored: "contents (device s2) (pt_get_ds_id (Pt E) (metas s2 p), u64_bytes ?oid) = Some bs" using assms(9) fr by simp
  obtain h d ms where f: "fetch_object E ?oid p a s2 = s2\<lparr>heap := h, device := d, metas := ms\<rparr>"
      "\<forall>t \<in> set (traverse E (next_ptrs s) p). pt_is_present (Pt E) (ms t) \<and> pt_get_object_addr (Pt E) (ms t) = a"
      "\<forall>t. t \<notin> set (traverse E (next_ptrs s) p) \<longrightarrow> ms t = metas s2 t"
      "obj_view (Ob E) h a = (pt_get_ds_id (Pt E) (metas s2 p), u64_bytes ?oid, bs)"
    using manager_env.fetch_general [OF assms(1) stored assms(10) unat_u16_less assms(7,8)] targets by auto
  have "swap_in E nt p s = Some (Inr (unlock_object (u64_bytes ?oid) (fetch_object E ?oid p a s2)))"
    using assms(2,4,5) by (simp add: swap_in_def lock_object_def Let_def)
  then show ?thesis using f fr by (simp add: unlock_object_def)
qed

section \<open>The round trip through far memory\<close>

text \<open>
  C18 (round trip): an object marked for evacuation that is cold is written back and leaves
  the cache; fetching it again, with its lock free and room in the cache, gives an object
  with the same data structure, id and data as the one that was evicted.
\<close>

theorem evict_fetch_roundtrip:
  assumes "manager_env E items capacity contents" and "cache_ok E items capacity N s"
    and "ptr_ok E contents s p" and "pt_is_present (Pt E) (metas s p)" and "pt_get_object_addr (Pt E) (metas s p) = obj"
    and "evac_notifiers s (ob_get_ds_id (Ob E) (heap s) obj) = 0" and "copy_notifiers s (ob_get_ds_id (Ob E) (heap s) obj) = 0"
    and "pt_is_evacuation (Pt E) (metas s p)" and "\<not> pt_is_hot (Pt E) (metas s p)"
    and "\<And>t. obj_locks t = obj_locks s \<Longrightarrow> lock_wait E (obj_id_bytes (Ob E) (heap s) obj) t = Some t"
    and "\<exists>x xs. items (free_regions (cache_region_manager s)) = x # xs
           \<and> (\<forall>h. fst (rg_allocate_object (Rg E) (ob_size (Ob E) (heap s) obj) x h) \<noteq> None)"
  shows "\<exists>s1 s2. swap_out E p obj s = Some (Inr s1) \<and> \<not> pt_is_present (Pt E) (metas s1 p)
    \<and> swap_in E False p s1 = Some (Inr s2) \<and> pt_is_present (Pt E) (metas s2 p)
    \<and> obj_view (Ob E) (heap s2) (pt_get_object_addr (Pt E) (metas s2 p)) = obj_view (Ob E) (heap s) obj"
proof -
  let ?dirty = "pt_is_dirty (Pt E) (metas s p)"
  let ?s1 = "evict_object E p obj ?dirty s"
  have un: "\<not> pt_is_shared (Pt E) (metas s p)" using assms(3) by (simp add: ptr_ok_def Let_def)
  have out: "swap_out E p obj s = Some (Inr ?s1)"
    using assms(8,9) un by (simp add: swap_out_def evacuation_flags_def)
  have e: "\<not> pt_is_present (Pt E) (metas ?s1 p)" "ptr_ok E contents ?s1 p" "value_of E contents ?s1 p = value_of E contents s p"
      "\<exists>d m. ?s1 = s\<lparr>device := d, metas := m\<rparr>"
    using manager_env.evict_value [OF assms(1,3,4,5,6) refl] by blast+
  have bk: "obj_backed E contents s ?dirty obj" using assms(3,4,5) by (simp add: ptr_ok_def Let_def)
  then obtain oid where oid: "obj_id_bytes (Ob E) (heap s) obj = u64_bytes oid" "oid < 2 ^ 38" and ok: "obj_ok (Ob E) (heap s) obj"
    by (auto simp: obj_backed_def)
  obtain d where ev: "?s1 = s\<lparr>device := d, metas := (metas s)(p := pt_gc_wb (Pt E) (ob_get_ds_id (Ob E) (heap s) obj)
      (ob_size (Ob E) (heap s) obj) oid (metas s p))\<rparr>"
    using manager_env.evict_spec [OF assms(1) un assms(6) ok oid, of ?dirty] by blast
  note wb = ptr_env.gc_wb [OF manager_env.axioms(3) [OF assms(1)] oid(2)]
  have size: "pt_get_object_size (Pt E) (metas ?s1 p) = ob_size (Ob E) (heap s) obj"
    and oid1: "pt_get_object_id (Pt E) (metas ?s1 p) = oid"
    unfolding ev using wb by simp_all
  have c1: "cache_ok E items capacity N ?s1" using assms(2) unfolding ev by (simp add: cache_ok_def)
  have same: "cache_region_manager ?s1 = cache_region_manager s" "obj_locks ?s1 = obj_locks s" unfolding ev by simp_all
  have room: "\<exists>x xs. items (free_regions (cache_region_manager ?s1)) = x # xs
      \<and> (\<forall>h. fst (rg_allocate_object (Rg E) (pt_get_object_size (Pt E) (metas ?s1 p)) x h) \<noteq> None)"
    using assms(11) by (simp only: size same)
  have lock: "lock_wait E (u64_bytes (pt_get_object_id (Pt E) (metas ?s1 p))) ?s1 = Some ?s1"
    using assms(10) [OF same(2)] by (simp only: oid1 oid(1))
  obtain s2 where s2: "swap_in E False p ?s1 = Some (Inr s2)" "pt_is_present (Pt E) (metas s2 p)"
      "value_of E contents s2 p = value_of E contents ?s1 p"
    using manager_env.swap_in_quiet [OF assms(1) c1 e(2,1) lock disjI2 [OF room]] by blast
  have "value_of E contents s2 p = value_of E contents s p" using s2(3) e(3) by simp
  then have "obj_view (Ob E) (heap s2) (pt_get_object_addr (Pt E) (metas s2 p)) = obj_view (Ob E) (heap s) obj"
    using s2(2) assms(4,5) by (simp add: value_of_def Let_def)
  then show ?thesis using out e(1) s2(1,2) by blast
qed

section \<open>New objects\<close>

text \<open>The id a new object gets: the caller's, or the far address of a plain pointer.\<close>

definition id_given :: "u8 list option \<Rightarrow> u8 list \<Rightarrow> bool" where
  "id_given optional_id oidb \<longleftrightarrow> (case optional_id of Some oid \<Rightarrow> oidb = oid | None \<Rightarrow> \<exists>r. oidb = u64_bytes r)"

text \<open>Where the id of the new object comes from: the caller, or far memory between \<open>s\<close> and \<open>s'\<close>.\<close>

definition id_from :: "('q, 'd) ext \<Rightarrow> u8 list option \<Rightarrow> u16 \<Rightarrow> u8 list \<Rightarrow> ('q, 'd) fm_state \<Rightarrow> ('q, 'd) fm_state \<Rightarrow> bool" where
  "id_from E oid sz oidb s s' \<longleftrightarrow> (case oid of None \<Rightarrow> far_drawn E sz oidb s s'
     | Some i \<Rightarrow> oidb = i \<and> far_mem_region_manager s' = far_mem_region_manager s \<and> cur_slot s' = cur_slot s)"

lemma id_from_given: "id_from E oid sz oidb s s' \<Longrightarrow> id_given oid oidb"
  by (auto simp: id_from_def id_given_def far_drawn_def split: option.splits)

lemma id_from_cong:
  "far_mem_region_manager t = far_mem_region_manager s \<Longrightarrow> cur_slot t = cur_slot s \<Longrightarrow>
   far_mem_region_manager t' = far_mem_region_manager s' \<Longrightarrow> cur_slot t' = cur_slot s' \<Longrightarrow>
   id_from E oid sz oidb t t' = id_from E oid sz oidb s s'"
  by (simp add: id_from_def far_drawn_def split: option.split)

context manager_env
begin

lemma init_law:
  "addressable (Ob E) a \<Longrightarrow> update_law E a (\<lambda>_. ())
     (\<lambda>m. pt_is_present (Pt E) m \<and> pt_get_object_addr (Pt E) m = a \<and> \<not> pt_is_shared (Pt E) m \<and> pt_is_dirty (Pt E) m)
     (\<lambda>t. pt_init (Pt E) False t a)"
  unfolding update_law_def using init init_heap by simp

lemma total_size_fits:
  "ob_kHeaderSize (Ob E) + unat item + k < 2 ^ 16 \<Longrightarrow> unat (total_size E item k) = ob_kHeaderSize (Ob E) + unat item + k"
  unfolding total_size_def by (rule unat_of_nat_u16)

text \<open>Writing the fields of the object of which \<open>p\<close> is the pointer, then dropping the reference.\<close>

lemma finish_object:
  fixes h0 :: heap and ds :: u8
  assumes fit: "ob_kHeaderSize (Ob E) + unat item + length oidb < 2 ^ 16" "length oidb < 256"
    and a: "placed a (ob_kHeaderSize (Ob E) + unat item + length oidb)"
  defines "h \<equiv> rg_atomic_inc_ref_cnt (Rg E) a (-1) (ob_init (Ob E) ds item oidb a h0)"
  shows "\<exists>bs. length bs = unat item \<and> obj_view (Ob E) h a = (ds, oidb, bs)
    \<and> bs = rd_bytes h0 (ob_get_data_addr (Ob E) a) (unat item)
    \<and> (\<forall>x. body x \<longrightarrow> outside a (ob_kHeaderSize (Ob E) + unat item + length oidb) x \<longrightarrow> h x = h0 x)"
proof -
  let ?h1 = "ob_init (Ob E) ds item oidb a h0"
  let ?bs = "rd_bytes h0 (ob_get_data_addr (Ob E) a) (unat item)"
  have v1: "obj_view (Ob E) ?h1 a = (ds, oidb, ?bs)" using init_view fit by blast
  have ok1: "obj_ok (Ob E) ?h1 a" using v1 fit by (simp add: obj_ok_def obj_view_def)
  have "unat (ob_size (Ob E) ?h1 a) = ob_kHeaderSize (Ob E) + unat item + length oidb"
    using size_view [OF ok1] v1 by (simp add: obj_view_def)
  then have v: "obj_view (Ob E) h a = (ds, oidb, ?bs)"
    unfolding h_def using view_headers [OF ok1 _ ref_cnt_headers] a v1 by simp
  have "h x = h0 x" if "body x" "outside a (ob_kHeaderSize (Ob E) + unat item + length oidb) x" for x
    using ref_cnt_headers that init_outside [OF that(2)] by (simp add: h_def only_headers_def)
  then show ?thesis using v by simp
qed

lemma init_object_spec:
  assumes fok: "far_ok E items capacity M s" and run: "init_object E ds item oid sz a s = Some y"
  shows "\<exists>h0 oidb m. y = Inr (s\<lparr>heap := ob_init (Ob E) ds item oidb a h0, far_mem_region_manager := m\<rparr>)
    \<and> only_headers (heap s) h0 \<and> id_from E oid sz oidb s (s\<lparr>far_mem_region_manager := m\<rparr>) \<and> rm_wf (Rg E) items capacity M m"
proof (cases oid)
  case (Some i)
  then show ?thesis using run fok
    by (intro exI [of _ "heap s"] exI [of _ i] exI [of _ "far_mem_region_manager s"]) (auto simp: init_object_def id_from_def far_ok_def)
next
  case None
  obtain z where z: "allocate_remote_object E False sz s = Some z"
    using run None by (cases "allocate_remote_object E False sz s") (auto simp: init_object_def)
  obtain r s1 where r: "z = Inr (r, s1)" "far_step E items capacity M s s1" using remote_spec [OF fok z] by blast
  then obtain h0 m where s1: "s1 = s\<lparr>heap := h0, far_mem_region_manager := m\<rparr>" "only_headers (heap s) h0" "rm_wf (Rg E) items capacity M m"
    unfolding far_step_def by blast
  have "y = Inr (s\<lparr>heap := ob_init (Ob E) ds item (u64_bytes r) a h0, far_mem_region_manager := m\<rparr>)"
    using run None z r(1) s1(1) by (auto simp: init_object_def)
  moreover have "far_drawn E sz (u64_bytes r) s (s\<lparr>far_mem_region_manager := m\<rparr>)"
    unfolding far_drawn_def using z r(1) s1(1) by (intro exI [of _ s] exI [of _ s1] exI [of _ r]) simp
  ultimately show ?thesis using s1 None
    by (intro exI [of _ h0] exI [of _ "u64_bytes r"] exI [of _ m]) (simp add: id_from_def)
qed

text \<open>A new pointer and its object, from the allocated space on.\<close>

lemma create_spec:
  assumes fok: "far_ok E items capacity M s" and cok: "cache_ok E items capacity N s"
    and fit: "ob_kHeaderSize (Ob E) + unat item + id_len_of E oid < 2 ^ 16" "id_len_of E oid < 256"
    and v: "kVanillaPtrObjectIDSize E = 8"
    and a: "placed a (unat (total_size E item (id_len_of E oid)))" "addressable (Ob E) a"
    and run: "init_object E ds item oid (total_size E item (id_len_of E oid)) a (upd_ptr (pt_init (Pt E) False p a) p s) = Some y"
  shows "\<exists>s1 oidb bs. y = Inr s1 \<and> (let s' = inc_ref_cnt E a (-1) s1 in
      pt_is_present (Pt E) (metas s' p) \<and> pt_get_object_addr (Pt E) (metas s' p) = a
      \<and> obj_view (Ob E) (heap s') a = (ds, oidb, bs) \<and> length bs = unat item \<and> id_from E oid (total_size E item (id_len_of E oid)) oidb s s'
      \<and> ((\<exists>r < 2 ^ 38. oidb = u64_bytes r) \<longrightarrow> ptr_ok E contents s' p)
      \<and> cache_ok E items capacity N s' \<and> far_ok E items capacity M s'
      \<and> cache_region_manager s' = cache_region_manager s \<and> device s' = device s \<and> preempt_cnt s' = preempt_cnt s
      \<and> (\<forall>q. q \<noteq> p \<longrightarrow> metas s' q = metas s q)
      \<and> (\<forall>x. body x \<longrightarrow> outside a (unat (total_size E item (id_len_of E oid))) x \<longrightarrow> heap s' x = heap s x)
      \<and> (\<exists>m h g. s' = s\<lparr>metas := (metas s)(p := m), heap := h, far_mem_region_manager := g\<rparr>)
      \<and> (p \<noteq> 0 \<longrightarrow> owned_by (Ob E) (heap s') a p))"
proof -
  obtain m h1 where up: "pt_init (Pt E) False p a (metas s p, heap s) = (m, h1)" by fastforce
  note law = init_law [OF a(2), unfolded update_law_def, rule_format, OF up]
  let ?s0 = "s\<lparr>metas := (metas s)(p := m), heap := h1\<rparr>"
  have s0: "upd_ptr (pt_init (Pt E) False p a) p s = ?s0" using up by (simp add: upd_ptr_def)
  have fok0: "far_ok E items capacity M ?s0" using fok by (simp add: far_ok_def)
  obtain h0 oidb mg where y: "y = Inr (?s0\<lparr>heap := ob_init (Ob E) ds item oidb a h0, far_mem_region_manager := mg\<rparr>)"
      "only_headers h1 h0" "id_from E oid (total_size E item (id_len_of E oid)) oidb ?s0 (?s0\<lparr>far_mem_region_manager := mg\<rparr>)"
      "rm_wf (Rg E) items capacity M mg"
    using init_object_spec [OF fok0 run [unfolded s0]] by auto
  have len: "length oidb = id_len_of E oid"
    using id_from_given [OF y(3)] v by (auto simp: id_given_def id_len_of_def split: option.splits)
  note tot = total_size_fits [OF fit(1)]
  have fin: "ob_kHeaderSize (Ob E) + unat item + length oidb < 2 ^ 16" "length oidb < 256"
      "placed a (ob_kHeaderSize (Ob E) + unat item + length oidb)"
    using fit a(1) by (simp_all add: len tot)
  define h where "h = rg_atomic_inc_ref_cnt (Rg E) a (-1) (ob_init (Ob E) ds item oidb a h0)"
  obtain bs where bs: "length bs = unat item" "obj_view (Ob E) h a = (ds, oidb, bs)"
      "\<forall>x. body x \<longrightarrow> outside a (ob_kHeaderSize (Ob E) + unat item + length oidb) x \<longrightarrow> h x = h0 x"
    using finish_object [OF fin, of ds h0, folded h_def] by blast
  let ?s1 = "?s0\<lparr>heap := ob_init (Ob E) ds item oidb a h0, far_mem_region_manager := mg\<rparr>"
  let ?s' = "inc_ref_cnt E a (-1) ?s1"
  have s': "?s' = s\<lparr>metas := (metas s)(p := m), heap := h, far_mem_region_manager := mg\<rparr>"
    by (simp add: inc_ref_cnt_def h_def)
  have ok: "obj_ok (Ob E) h a" using bs fit len by (simp add: obj_ok_def obj_view_def)
  have "unat (ob_size (Ob E) h a) = unat (total_size E item (id_len_of E oid))"
    using size_view [OF ok] bs tot len by (simp add: obj_view_def)
  then have pok: "ptr_ok E contents ?s' p" if "\<exists>r < 2 ^ 38. oidb = u64_bytes r"
    using law ok a that bs(2) unfolding s' by (auto simp: ptr_ok_def obj_backed_def obj_view_def Let_def)
  have frame: "h x = heap s x" if "body x" "outside a (unat (total_size E item (id_len_of E oid))) x" for x
  proof -
    have "h x = h0 x" using bs(3) that tot len by simp
    also have "\<dots> = h1 x" using y(2) that(1) by (simp add: only_headers_def)
    also have "\<dots> = heap s x" using law that(2) tot by (simp add: outside_def)
    finally show ?thesis .
  qed
  have own: "owned_by (Ob E) h a p" if "p \<noteq> 0"
  proof -
    have n: "placed a (ob_kHeaderSize (Ob E) + unat item + length oidb)" "ob_kHeaderSize (Ob E) \<le> ob_kHeaderSize (Ob E) + unat item + length oidb"
      by (simp_all add: fin(3))
    have "owned_by (Ob E) h0 a p" by (rule owner_headers [OF ptr_init_owner [OF that up] n y(2)])
    from init_owned [OF this fin(2,1)] show ?thesis unfolding h_def by (rule owner_headers [OF _ n ref_cnt_headers])
  qed
  have "metas ?s' p = m" "heap ?s' = h" "cache_region_manager ?s' = cache_region_manager s" "device ?s' = device s"
      "preempt_cnt ?s' = preempt_cnt s" "\<forall>q. q \<noteq> p \<longrightarrow> metas ?s' q = metas s q"
      "cache_ok E items capacity N ?s'" "far_ok E items capacity M ?s'"
    unfolding s' using cok fok y(4) by (simp_all add: cache_ok_def far_ok_def)
  moreover have "id_from E oid (total_size E item (id_len_of E oid)) oidb s ?s'"
    using y(3) by (subst (asm) id_from_cong [where s = s and s' = ?s']) (simp_all add: inc_ref_cnt_def)
  ultimately show ?thesis
    using y(1) law bs(1,2) pok frame s' own by (intro exI [of _ ?s1] exI [of _ oidb] exI [of _ bs]) (simp only: Let_def, blast)
qed

text \<open>Both ends of the creation: no space, or a new object.\<close>

lemma create_nb:
  assumes cok: "cache_ok E items capacity N s" and fok: "far_ok E items capacity M s"
    and fit: "ob_kHeaderSize (Ob E) + unat item + id_len_of E oid < 2 ^ 16" "id_len_of E oid < 256" and v: "kVanillaPtrObjectIDSize E = 8"
    and run: "allocate_generic_unique_ptr_nb E p ds item oid s = Some z"
  obtains (full) s1 where "allocate_local_object_nb E False (total_size E item (id_len_of E oid)) s = Some (Inr (None, s1))"
      "alloc_frame E items capacity N s s1" "items (free_regions (cache_region_manager s1)) = []" "z = Inr (False, s1)"
  | (made) a s1 s' oidb bs where "allocate_local_object_nb E False (total_size E item (id_len_of E oid)) s = Some (Inr (Some a, s1))"
      "alloc_frame E items capacity N s s1" "placed a (unat (total_size E item (id_len_of E oid)))" "z = Inr (True, s')"
      "pt_is_present (Pt E) (metas s' p)" "pt_get_object_addr (Pt E) (metas s' p) = a"
      "obj_view (Ob E) (heap s') a = (ds, oidb, bs)" "length bs = unat item"
      "id_from E oid (total_size E item (id_len_of E oid)) oidb s s'"
      "(\<exists>r < 2 ^ 38. oidb = u64_bytes r) \<longrightarrow> ptr_ok E contents s' p" "cache_ok E items capacity N s'" "far_ok E items capacity M s'"
      "\<forall>x. body x \<longrightarrow> outside a (unat (total_size E item (id_len_of E oid))) x \<longrightarrow> heap s' x = heap s1 x"
      "\<exists>m h g. s' = s1\<lparr>metas := (metas s1)(p := m), heap := h, far_mem_region_manager := g\<rparr>"
      "p \<noteq> 0 \<longrightarrow> owned_by (Ob E) (heap s') a p"
proof -
  let ?sz = "total_size E item (id_len_of E oid)"
  obtain res s1 where al: "allocate_local_object_nb E False ?sz s = Some (Inr (res, s1))" "alloc_frame E items capacity N s s1"
      and res: "case res of None \<Rightarrow> items (free_regions (cache_region_manager s1)) = [] | Some a \<Rightarrow> placed a (unat ?sz) \<and> addressable (Ob E) a"
    using allocate_nb_spec [OF cok] by blast
  note fr = alloc_frame_fields [OF al(2)]
  have ok1: "cache_ok E items capacity N s1" "far_ok E items capacity M s1"
    using alloc_frame_ok [OF al(2) cok] fok fr by (simp_all add: far_ok_def)
  show thesis
  proof (cases res)
    case None
    then have "z = Inr (False, s1)" using al(1) run by (simp add: allocate_generic_unique_ptr_nb_def Let_def)
    then show thesis using None res al full by simp
  next
    case (Some a)
    then have a: "placed a (unat ?sz)" "addressable (Ob E) a" using res by simp_all
    let ?s2 = "upd_ptr (pt_init (Pt E) False p a) p s1"
    obtain y where y: "init_object E ds item oid ?sz a ?s2 = Some y"
      using run al(1) Some by (cases "init_object E ds item oid ?sz a ?s2") (simp_all add: allocate_generic_unique_ptr_nb_def Let_def)
    obtain s3 oidb bs where c: "y = Inr s3" "pt_is_present (Pt E) (metas (inc_ref_cnt E a (-1) s3) p)"
        "pt_get_object_addr (Pt E) (metas (inc_ref_cnt E a (-1) s3) p) = a"
        "obj_view (Ob E) (heap (inc_ref_cnt E a (-1) s3)) a = (ds, oidb, bs)" "length bs = unat item"
        "id_from E oid ?sz oidb s1 (inc_ref_cnt E a (-1) s3)"
        "(\<exists>r < 2 ^ 38. oidb = u64_bytes r) \<longrightarrow> ptr_ok E contents (inc_ref_cnt E a (-1) s3) p"
        "cache_ok E items capacity N (inc_ref_cnt E a (-1) s3)" "far_ok E items capacity M (inc_ref_cnt E a (-1) s3)"
        "\<forall>x. body x \<longrightarrow> outside a (unat ?sz) x \<longrightarrow> heap (inc_ref_cnt E a (-1) s3) x = heap s1 x"
        "\<exists>m h g. inc_ref_cnt E a (-1) s3 = s1\<lparr>metas := (metas s1)(p := m), heap := h, far_mem_region_manager := g\<rparr>"
        "p \<noteq> 0 \<longrightarrow> owned_by (Ob E) (heap (inc_ref_cnt E a (-1) s3)) a p"
      using create_spec [OF ok1(2,1) fit v a y] unfolding Let_def by (elim exE conjE) (rule that, assumption+, intro exI, assumption, assumption)
    have z: "z = Inr (True, inc_ref_cnt E a (-1) s3)"
      using al(1) Some y c(1) run by (simp add: allocate_generic_unique_ptr_nb_def Let_def)
    have "id_from E oid ?sz oidb s (inc_ref_cnt E a (-1) s3)"
      using c(6) by (subst (asm) id_from_cong [where s = s and s' = "inc_ref_cnt E a (-1) s3"]) (simp_all add: fr)
    with al(1) [unfolded Some] al(2) a(1) z c(2-5) show thesis using c(7-) by (rule made)
  qed
qed

text \<open>It returns when the id is given or far memory has a region for it.\<close>

lemma create_returns:
  assumes cok: "cache_ok E items capacity N s" and fok: "far_ok E items capacity M s"
    and room: "oid \<noteq> None \<or> (\<exists>x xs. items (free_regions (far_mem_region_manager s)) = x # xs
      \<and> (\<forall>h. fst (rg_allocate_object (Rg E) (total_size E item (id_len_of E oid)) x h) \<noteq> None))"
  shows "\<exists>z. allocate_generic_unique_ptr_nb E p ds item oid s = Some z"
proof -
  let ?sz = "total_size E item (id_len_of E oid)"
  obtain res s1 where al: "allocate_local_object_nb E False ?sz s = Some (Inr (res, s1))" "alloc_frame E items capacity N s s1"
    using allocate_nb_spec [OF cok] by blast
  note fr = alloc_frame_fields [OF al(2)]
  show ?thesis
  proof (cases res)
    case None
    then show ?thesis using al(1) by (simp add: allocate_generic_unique_ptr_nb_def Let_def)
  next
    case (Some a)
    let ?s2 = "upd_ptr (pt_init (Pt E) False p a) p s1"
    have far2: "far_mem_region_manager ?s2 = far_mem_region_manager s" "cur_slot ?s2 = cur_slot s"
      using fr by (simp_all add: upd_ptr_def split_def Let_def)
    then have fok2: "far_ok E items capacity M ?s2" using fok by (simp add: far_ok_def)
    have "\<exists>y. init_object E ds item oid ?sz a ?s2 = Some (Inr y)"
    proof (cases oid)
      case None
      then obtain x xs where "items (free_regions (far_mem_region_manager ?s2)) = x # xs"
          "\<forall>h. fst (rg_allocate_object (Rg E) ?sz x h) \<noteq> None" using room far2 by auto
      then obtain z where z: "allocate_remote_object E False ?sz ?s2 = Some z"
        using remote_returns [OF fok2] by blast
      then show ?thesis using None remote_spec [OF fok2 z] by (auto simp: init_object_def)
    qed (simp add: init_object_def)
    then show ?thesis using al(1) Some by (auto simp: allocate_generic_unique_ptr_nb_def Let_def)
  qed
qed

end

text \<open>
  New pointer: creating a unique pointer returns whenever the id is given or far memory
  has a region for it. On success the pointer is present, dirty and refers to an object of
  the asked data structure, length and id; on failure no pointer has changed and the cache
  has no free region left. Every other pointer, the device and preemption are untouched.
\<close>

theorem new_unique_ptr:
  assumes "manager_env E items capacity contents"
    and "cache_ok E items capacity N s" and "far_ok E items capacity M s"
    and "ob_kHeaderSize (Ob E) + unat item + id_len_of E oid < 2 ^ 16" and "id_len_of E oid < 256"
    and "kVanillaPtrObjectIDSize E = 8"
    and "oid \<noteq> None \<or> (\<exists>x xs. items (free_regions (far_mem_region_manager s)) = x # xs
      \<and> (\<forall>h. fst (rg_allocate_object (Rg E) (total_size E item (id_len_of E oid)) x h) \<noteq> None))"
  shows "\<exists>ok s'. allocate_generic_unique_ptr_nb E p ds item oid s = Some (Inr (ok, s'))
    \<and> cache_ok E items capacity N s' \<and> far_ok E items capacity M s' \<and> device s' = device s \<and> preempt_cnt s' = preempt_cnt s
    \<and> (\<forall>q. q \<noteq> p \<longrightarrow> metas s' q = metas s q)
    \<and> (if ok then pt_is_present (Pt E) (metas s' p)
          \<and> (\<exists>oidb bs. value_of E contents s' p = Some (ds, oidb, bs) \<and> length bs = unat item \<and> id_given oid oidb
               \<and> ((\<exists>r < 2 ^ 38. oidb = u64_bytes r) \<longrightarrow> ptr_ok E contents s' p))
       else metas s' = metas s \<and> items (free_regions (cache_region_manager s')) = [])"
proof -
  obtain z where run: "allocate_generic_unique_ptr_nb E p ds item oid s = Some z"
    using manager_env.create_returns [OF assms(1-3,7)] by blast
  show ?thesis
  proof (rule manager_env.create_nb [OF assms(1-6) run], goal_cases)
    case (1 s1)
    then show ?case
      using run alloc_frame_fields [OF 1(2)] alloc_frame_ok [OF 1(2) assms(2)] assms(3) by (auto simp: far_ok_def)
  next
    case (2 a s1 s' oidb bs)
    have "value_of E contents s' p = Some (ds, oidb, bs)" using 2(5-7) by (simp add: value_of_def Let_def)
    moreover have "device s' = device s" "preempt_cnt s' = preempt_cnt s" "\<forall>q. q \<noteq> p \<longrightarrow> metas s' q = metas s q"
      using 2(14) alloc_frame_fields [OF 2(2)] by auto
    ultimately show ?case using run 2(4,5,8,10-12) id_from_given [OF 2(9)] by auto
  qed
qed

text \<open>
  Failed resize: a resize that reports failure has found the cache without a free
  region, and the old object is as it was: the pointer word, the value and the invariant.
\<close>

theorem failed_resize_keeps_object:
  assumes "manager_env E items capacity contents" and "cache_ok E items capacity N s"
    and "deref_fn E p s = Some (Inr s)" and "ptr_ok E contents s p"
    and "reallocate_generic_unique_ptr_nb E p item buf s = Some (Inr (False, s'))"
  shows "metas s' = metas s \<and> ptr_ok E contents s' p \<and> value_of E contents s' p = value_of E contents s p
    \<and> cache_ok E items capacity N s' \<and> items (free_regions (cache_region_manager s')) = []"
proof -
  let ?sz = "total_size E item (unat (ob_get_obj_id_len (Ob E) (heap s) (pt_get_object_addr (Pt E) (metas s p))))"
  obtain res s1 where al: "allocate_local_object_nb E False ?sz s = Some (Inr (res, s1))" "alloc_frame E items capacity N s s1"
      and res: "case res of None \<Rightarrow> items (free_regions (cache_region_manager s1)) = [] | Some a \<Rightarrow> placed a (unat ?sz) \<and> addressable (Ob E) a"
    using manager_env.allocate_nb_spec [OF assms(1,2)] by blast
  have "res = None \<and> s' = s1"
    using assms(5) al(1) assms(3)
    by (cases res) (auto simp: reallocate_generic_unique_ptr_nb_def and_then_Some_Inr Let_def)
  then show ?thesis
    using res manager_env.frame_value [OF assms(1,4) al(2)] alloc_frame_fields(1) [OF al(2)] alloc_frame_ok [OF al(2) assms(2)]
    by auto
qed

section \<open>The manager as the pager sees it\<close>

definition manager_far :: "('q, 'd) ext \<Rightarrow> ('q, 'd) fm_state far_ops" where
  "manager_far E = \<lparr>fo_is_present = (\<lambda>p s. pt_is_present (Pt E) (metas s p)), fo_swap_in = (\<lambda>nt p s. swap_in E nt p s)\<rparr>"

text \<open>
  While an allocation waits, other threads run: it keeps every property of the pointer words
  that waiting keeps.
\<close>

definition waits_keep :: "('q, 'd) ext \<Rightarrow> ((addr \<Rightarrow> u64) \<Rightarrow> bool) \<Rightarrow> bool" where
  "waits_keep E P \<longleftrightarrow> (\<forall>s s'. condvar_wait E s = Some s' \<longrightarrow> P (metas s) \<longrightarrow> P (metas s'))"

lemma waits_keepD: "waits_keep E P \<Longrightarrow> condvar_wait E s = Some s' \<Longrightarrow> P (metas s) \<Longrightarrow> P (metas s')"
  by (simp add: waits_keep_def)

context manager_env
begin

lemma wait_loop_keeps:
  assumes W: "waits_keep E P"
    and run: "wait_cache_loop E s = Some (Inr s')" and P: "P (metas s)"
  shows "P (metas s')"
proof -
  have "\<forall>s'. E' = E \<longrightarrow> y = Inr s' \<longrightarrow> P (metas s) \<longrightarrow> P (metas s')" if "wait_cache_loop E' s = Some y" for E' y
  proof (rule wait_cache_loop.raw_induct [OF _ that], goal_cases)
    case (1 f E' s y)
    then show ?case
      using waits_keepD [OF W, of "s\<lparr>gc_lock := False\<rparr>"] by (fastforce split: option.splits if_splits)
  qed
  then show ?thesis using run P by blast
qed

lemma mutator_wait_keeps:
  assumes W: "waits_keep E P"
    and "mutator_wait_for_gc_cache E s = Some (Inr s')" and "P (metas s)"
  shows "P (metas s')"
  using wait_loop_keeps [OF W, of "s\<lparr>gc_lock := True\<rparr>"] assms(2,3)
  by (fastforce simp: mutator_wait_for_gc_cache_def Let_def and_then_Some_Inr split: if_splits)

lemma try_local_keeps: "try_local E nt sz s = (res, s') \<Longrightarrow> metas s' = metas s \<and> (\<forall>a. res = Some a \<longrightarrow> addressable (Ob E) a)"
  using alloc_placed by (fastforce simp: try_local_def Let_def split: prod.splits)

lemma refill_local_keeps: "refill_local E nt s = Inr (ok, s') \<Longrightarrow> metas s' = metas s"
  by (auto simp: refill_local_def split: sum.splits prod.splits)

lemma retry_local_keeps:
  assumes W: "waits_keep E P"
    and "retry_allocate_local E nt sz refilled s = Some (Inr (a, r, s'))"
  shows "addressable (Ob E) a" and "P (metas s) \<Longrightarrow> P (metas s')"
proof -
  have "E' = E \<longrightarrow> (\<forall>a r s'. y = Inr (a, r, s') \<longrightarrow> addressable (Ob E) a \<and> (P (metas s) \<longrightarrow> P (metas s')))"
    if "retry_allocate_local E' nt sz refilled s = Some y" for E' y
  proof (rule retry_allocate_local.raw_induct [OF _ that], goal_cases)
    case (1 f E' nt sz refilled s y)
    show ?case
    proof (intro impI)
      assume E: "E' = E"
      obtain res s1 where one: "try_local E nt sz s = (res, s1)" by fastforce
      note k = try_local_keeps [OF one]
      show "\<forall>a r s'. y = Inr (a, r, s') \<longrightarrow> addressable (Ob E) a \<and> (P (metas s) \<longrightarrow> P (metas s'))"
      proof (cases res)
        case (Some a)
        then show ?thesis using 1(2) one k E by auto
      next
        case None
        show ?thesis
        proof (cases "refill_local E nt s1")
          case (Inl e)
          then show ?thesis using 1(2) one None E by auto
        next
          case (Inr b)
          obtain ok s2 where two: "refill_local E nt s1 = Inr (ok, s2)" using Inr by (cases b) auto
          have m2: "metas s2 = metas s" using refill_local_keeps [OF two] k by simp
          show ?thesis
          proof (cases ok)
            case True
            then have "f E nt sz True s2 = Some y" using 1(2) one None two E by simp
            from 1(1) [OF this] show ?thesis using m2 by simp
          next
            case False
            then have "and_then (mutator_wait_for_gc_cache E (preempt_enable s2)) (\<lambda>s. f E nt sz True (preempt_disable s)) = Some y"
              using 1(2) one None two E by simp
            then consider e where "y = Inl e" | s3 where "mutator_wait_for_gc_cache E (preempt_enable s2) = Some (Inr s3)"
                "f E nt sz True (preempt_disable s3) = Some y"
              by (auto simp: and_then_def split: option.splits sum.splits)
            then show ?thesis
            proof cases
              case 2
              have "P (metas s) \<Longrightarrow> P (metas (preempt_disable s3))"
                using mutator_wait_keeps [OF W 2(1)] m2 by (simp add: preempt_enable_def preempt_disable_def)
              then show ?thesis using 1(1) [OF 2(2)] by blast
            qed simp
          qed
        qed
      qed
    qed
  qed
  then show "addressable (Ob E) a" and "P (metas s) \<Longrightarrow> P (metas s')" using assms(2) by blast+
qed

lemma allocate_local_keeps:
  assumes W: "waits_keep E P"
    and run: "allocate_local_object E nt sz s = Some (Inr (a, s'))"
  shows "addressable (Ob E) a" and "P (metas s) \<Longrightarrow> P (metas s')"
proof -
  obtain r s1 where r: "retry_allocate_local E nt sz False (preempt_disable s) = Some (Inr (a, r, s1))" "s' = leave_allocation E r s1"
    using run by (auto simp: allocate_local_object_def and_then_Some_Inr)
  obtain b c where "gc_check E s1 = s1\<lparr>almost_empty := b, gc_master_spawned := c\<rparr>" by (rule gc_check_obtain)
  then have "metas s' = metas s1" using r(2) by (simp add: leave_allocation_def preempt_enable_def)
  then show "addressable (Ob E) a" and "P (metas s) \<Longrightarrow> P (metas s')"
    using retry_local_keeps [OF W r(1)] by (simp_all add: preempt_disable_def)
qed

end

text \<open>
  Surroundings that do not evict: while a thread waits for a lock or for the collector, no
  present pointer becomes absent. A pointer is in its own ring.
\<close>

locale quiet_manager = manager_env +
  assumes lock_wait_keeps: "lock_wait E oid s = Some s' \<Longrightarrow> pt_is_present (Pt E) (metas s q) \<Longrightarrow> pt_is_present (Pt E) (metas s' q)"
    and condvar_keeps: "condvar_wait E s = Some s' \<Longrightarrow> pt_is_present (Pt E) (metas s q) \<Longrightarrow> pt_is_present (Pt E) (metas s' q)"
    and own_ring: "p \<in> set (traverse E next p)"
begin

lemma allocate_local_presence:
  assumes "allocate_local_object E nt sz s = Some (Inr (a, s'))"
  shows "addressable (Ob E) a \<and> (\<forall>q. pt_is_present (Pt E) (metas s q) \<longrightarrow> pt_is_present (Pt E) (metas s' q))"
proof -
  have W: "waits_keep E (\<lambda>m. pt_is_present (Pt E) (m q))" for q using condvar_keeps by (simp add: waits_keep_def)
  show ?thesis using allocate_local_keeps [OF W assms] by blast
qed

lemma fetch_keeps:
  assumes "addressable (Ob E) a"
  shows "pt_is_present (Pt E) (metas (fetch_object E oid p a s) p)"
    and "pt_is_present (Pt E) (metas s q) \<Longrightarrow> pt_is_present (Pt E) (metas (fetch_object E oid p a s) q)"
proof -
  obtain len bs d where rd: "dv_read_object (Dv E) (pt_get_ds_id (Pt E) (metas s p)) (u64_bytes oid) (device s) = (len, bs, d)"
    by (metis prod_cases3)
  define s2 where "s2 = s\<lparr>device := d, heap := ob_init (Ob E) (pt_get_ds_id (Pt E) (metas s p)) len (u64_bytes oid) a
      (wr_bytes (heap s) (ob_get_data_addr (Ob E) a) bs)\<rparr>"
  obtain h ms where fo: "fold (\<lambda>t. upd_ptr (pt_set_present (Pt E) t a) t) (ptr_targets E p s2) s2 = s2\<lparr>heap := h, metas := ms\<rparr>"
      "\<forall>t \<in> set (ptr_targets E p s2). pt_is_present (Pt E) (ms t) \<and> pt_get_object_addr (Pt E) (ms t) = a"
      "\<forall>t. t \<notin> set (ptr_targets E p s2) \<longrightarrow> ms t = metas s2 t"
    using fold_upd_ptr [OF set_present_law [OF assms], of "ptr_targets E p s2" s2] by blast
  have m: "metas (fetch_object E oid p a s) = ms"
    using rd fo(1) by (simp add: fetch_object_def inc_ref_cnt_def s2_def)
  have "p \<in> set (ptr_targets E p s2)" using own_ring by (simp add: ptr_targets_def)
  then show "pt_is_present (Pt E) (metas (fetch_object E oid p a s) p)" using fo(2) m by simp
  assume "pt_is_present (Pt E) (metas s q)"
  then show "pt_is_present (Pt E) (metas (fetch_object E oid p a s) q)"
    using fo(2,3) m by (cases "q \<in> set (ptr_targets E p s2)") (simp_all add: s2_def)
qed

lemma swap_in_keeps_presence:
  assumes "swap_in E nt p s = Some (Inr s')"
  shows "pt_is_present (Pt E) (metas s' p)" and "pt_is_present (Pt E) (metas s q) \<Longrightarrow> pt_is_present (Pt E) (metas s' q)"
proof -
  have "pt_is_present (Pt E) (metas s' p) \<and> (\<forall>q. pt_is_present (Pt E) (metas s q) \<longrightarrow> pt_is_present (Pt E) (metas s' q))"
  proof (cases "pt_is_present (Pt E) (metas s p)")
    case True
    then show ?thesis using assms by (simp add: swap_in_def Let_def)
  next
    case False
    let ?oid = "pt_get_object_id (Pt E) (metas s p)"
    obtain s0 where l: "lock_wait E (u64_bytes ?oid) s = Some s0"
      using assms False by (auto simp: swap_in_def lock_object_def Let_def split: option.splits)
    let ?s1 = "s0\<lparr>obj_locks := insert (u64_bytes ?oid) (obj_locks s0)\<rparr>"
    show ?thesis
    proof (cases "pt_is_present (Pt E) (metas s0 p)")
      case True
      then show ?thesis using assms False l lock_wait_keeps [OF l]
        by (auto simp: swap_in_def lock_object_def unlock_object_def Let_def)
    next
      case absent: False
      then obtain a s2 where al: "allocate_local_object E nt (pt_get_object_size (Pt E) (metas s0 p)) ?s1 = Some (Inr (a, s2))"
          and s': "s' = unlock_object (u64_bytes ?oid) (fetch_object E ?oid p a s2)"
        using assms False l by (auto simp: swap_in_def lock_object_def and_then_Some_Inr Let_def)
      note k = allocate_local_presence [OF al]
      show ?thesis using k fetch_keeps [OF conjunct1 [OF k], where oid = ?oid and p = p and s = s2] lock_wait_keeps [OF l]
        by (simp add: s' unlock_object_def)
    qed
  qed
  then show "pt_is_present (Pt E) (metas s' p)" "pt_is_present (Pt E) (metas s q) \<Longrightarrow> pt_is_present (Pt E) (metas s' q)"
    by blast+
qed

end

sublocale quiet_manager \<subseteq> pager: far_interface "manager_far E"
  by unfold_locales (auto simp: manager_far_def dest: swap_in_keeps_presence)

context quiet_manager
begin

lemma pager_pass_present:
  assumes "dynamic_pager_pass (manager_far E) st s = Some (Inr s')"
  shows "\<not> available_mem st < swap_threshold st \<Longrightarrow> r \<in> set (object_refs st) \<Longrightarrow> pt_is_present (Pt E) (metas s' (obj_ptr r))"
    and "pt_is_present (Pt E) (metas s q) \<Longrightarrow> pt_is_present (Pt E) (metas s' q)"
  using pager.pager_scan_swaps_all [of st "object_refs st" s s' r] pager.pager_scan_keeps [of st "object_refs st" s s' q] assms
  by (simp_all add: dynamic_pager_pass_def manager_far_def)

end


section \<open>Instances\<close>

interpretation demo_quiet: quiet_manager demo_ext ring_items ring_cap "\<lambda>d. d"
  by unfold_locales (auto split: if_splits)

lemma byte_header [simp]: "ob_kHeaderSize byte_objects = 12"
  by (simp add: byte_objects_def bo_header_def)

text \<open>
  A unique pointer at 64 and a shared one at 128 and 192, absent: object 9 of data structure
  5 holds three bytes on the device and takes 23 bytes of the cache.
\<close>

definition demo_absent :: "(ring, u8 \<times> u8 list \<Rightarrow> u8 list option) fm_state" where
  "demo_absent = (demo_fm [demo_region 0] [far_region 0])\<lparr>metas := (\<lambda>_. kNull)(64 := pt_gc_wb format_ptrs 5 23 9 0,
       128 := pt_gc_wb format_ptrs 5 23 9 (flag 9), 192 := pt_gc_wb format_ptrs 5 23 9 (flag 9)),
     next_ptrs := (\<lambda>p. p)(128 := 192, 192 := 128), device := [(5, u64_bytes 9) \<mapsto> [1, 2, 3]]\<rparr>"

lemma demo_absent_meta:
  "\<not> pt_is_present format_ptrs (pt_gc_wb format_ptrs 5 23 9 m)" "pt_get_ds_id format_ptrs (pt_gc_wb format_ptrs 5 23 9 m) = 5"
  "pt_get_object_size format_ptrs (pt_gc_wb format_ptrs 5 23 9 m) = 23" "pt_get_object_id format_ptrs (pt_gc_wb format_ptrs 5 23 9 m) = 9"
  "pt_is_shared format_ptrs (pt_gc_wb format_ptrs 5 23 9 m) \<longleftrightarrow> bit m 9"
  using format_ptr.gc_wb [of 9 5 23 m] by (simp_all add: format_bits)

lemma demo_absent_simps [simp]:
  "metas demo_absent 64 = pt_gc_wb format_ptrs 5 23 9 0" "metas demo_absent 128 = pt_gc_wb format_ptrs 5 23 9 (flag 9)"
  "metas demo_absent 192 = pt_gc_wb format_ptrs 5 23 9 (flag 9)"
  "device demo_absent = [(5, u64_bytes 9) \<mapsto> [1, 2, 3]]" "obj_locks demo_absent = {}"
  "cache_region_manager demo_absent = demo_rm [demo_region 0] [demo_region 1] [demo_region 2]"
  "cur_slot demo_absent = (\<lambda>nt. if nt then Nt_Slot 3 else Slot 3)" "heap demo_absent = (\<lambda>_. 0)"
  "next_ptrs demo_absent = (\<lambda>p. p)(128 := 192, 192 := 128)"
  by (simp_all add: demo_absent_def)

lemma demo_absent_ok:
  "cache_ok demo_ext ring_items ring_cap 50 demo_absent" "far_ok demo_ext ring_items ring_cap 50 demo_absent"
  "ptr_ok demo_ext (\<lambda>d. d) demo_absent 64"
  using demo_cache_ok [of "[far_region 0]"] demo_far_ok(1) [of "[demo_region 0]"]
  by (simp_all add: cache_ok_def far_ok_def demo_absent_def ptr_ok_def demo_absent_meta byte_objects_def bo_header_def Let_def)

lemma demo_room: "sz = 16 \<or> sz = 23 \<or> sz = 32 \<Longrightarrow> fst (rg_allocate_object layout_regions sz (demo_region 0) h) \<noteq> None"
  by (auto simp: demo_region_def layout_regions_def kObjectPos_def kHeaderSize_def kSize_val bump_size_def buf_ok_def kInvalidIdx_def)

lemma demo_fetch:
  "\<exists>s'. swap_in demo_ext False 64 demo_absent = Some (Inr s') \<and> pt_is_present format_ptrs (metas s' 64)
    \<and> ptr_ok demo_ext (\<lambda>d. d) s' 64 \<and> value_of demo_ext (\<lambda>d. d) s' 64 = Some (5, u64_bytes 9, [1, 2, 3])"
  using demo.swap_in_quiet [OF demo_absent_ok(1,3)] demo_room [of 23]
  by (simp add: demo_absent_meta value_of_def) blast

theorem swap_in_preserves_value_witness:
  "\<exists>s'. swap_in demo_ext False 64 demo_absent = Some (Inr s') \<and> pt_is_present format_ptrs (metas s' 64)
    \<and> value_of demo_ext (\<lambda>d. d) s' 64 = Some (5, u64_bytes 9, [1, 2, 3])"
  using swap_in_preserves_value [OF demo_env demo_absent_ok(1,3)] demo_room [of 23]
  by (simp add: demo_absent_meta value_of_def) blast

theorem swap_in_rechecks_witness:
  "swap_in (demo_ext\<lparr>lock_wait := (\<lambda>oid s. Some (s\<lparr>metas := (metas s)(64 := 0)\<rparr>))\<rparr>) False 64 demo_absent
   = Some (Inr (demo_absent\<lparr>metas := (metas demo_absent)(64 := 0)\<rparr>))"
proof -
  let ?E = "demo_ext\<lparr>lock_wait := (\<lambda>oid s. Some (s\<lparr>metas := (metas s)(64 := 0)\<rparr>))\<rparr>"
  have "pt_is_present (Pt ?E) (metas (demo_absent\<lparr>metas := (metas demo_absent)(64 := 0)\<rparr>) 64)" by (simp add: format_bits)
  then show ?thesis
    using swap_in_rechecks [where E = ?E and p = 64 and s = demo_absent and nt = False
      and t = "demo_absent\<lparr>metas := (metas demo_absent)(64 := 0)\<rparr>"] by (simp add: demo_absent_meta)
qed

theorem swap_in_whole_ring_witness:
  "\<exists>s' a. swap_in demo_ext False 128 demo_absent = Some (Inr s')
    \<and> pt_is_present format_ptrs (metas s' 128) \<and> pt_get_object_addr format_ptrs (metas s' 128) = a
    \<and> pt_is_present format_ptrs (metas s' 192) \<and> pt_get_object_addr format_ptrs (metas s' 192) = a
    \<and> obj_view byte_objects (heap s') a = (5, u64_bytes 9, [1, 2, 3])"
proof -
  let ?s = "demo_absent\<lparr>obj_locks := insert (u64_bytes 9) (obj_locks demo_absent)\<rparr>"
  have ok: "cache_ok demo_ext ring_items ring_cap 50 ?s" using demo_absent_ok(1) by (simp add: cache_ok_def)
  obtain a s2 where al: "allocate_local_object demo_ext False 23 ?s = Some (Inr (a, s2))"
      "alloc_frame demo_ext ring_items ring_cap 50 ?s s2" "placed a 23" "addressable byte_objects a"
    using demo.local_returns [OF ok, of 23] demo_room [of 23] by auto
  have sh: "bit (flag 9) 9" by (simp add: bit_flag)
  obtain s' where s': "swap_in demo_ext False 128 demo_absent = Some (Inr s')"
      "\<forall>t. if t = 128 \<or> t = 192 then pt_is_present (Pt demo_ext) (metas s' t) \<and> pt_get_object_addr (Pt demo_ext) (metas s' t) = a
         else metas s' t = metas demo_absent t"
      "obj_view byte_objects (heap s') a = (5, u64_bytes 9, [1, 2, 3])"
    using swap_in_whole_ring [OF demo_env, of demo_absent 128 False a s2 50 "[1, 2, 3]"] al sh
    by (auto simp: demo_absent_meta)
  then show ?thesis using s'(2) [rule_format, of 128] s'(2) [rule_format, of 192] by auto
qed

text \<open>A dirty object in the used region at 2048, marked for evacuation, hot or cold.\<close>

definition demo_present :: "bool \<Rightarrow> (ring, u8 \<times> u8 list \<Rightarrow> u8 list option) fm_state" where
  "demo_present hot = (demo_fm [demo_region 0] [far_region 0])\<lparr>
     heap := ob_init byte_objects 5 3 (u64_bytes 9) 2054 (wr_bytes (\<lambda>_. 0) 2066 [1, 2, 3]),
     metas := (\<lambda>_. kNull)(64 := to_word 2054 OR (flag 16 OR (if hot then 0 else flag 7)))\<rparr>"

lemma demo_present_simps [simp]:
  "metas (demo_present hot) 64 = to_word 2054 OR (flag 16 OR (if hot then 0 else flag 7))"
  "device (demo_present hot) = Map.empty" "obj_locks (demo_present hot) = {}"
  "cache_region_manager (demo_present hot) = demo_rm [demo_region 0] [demo_region 1] [demo_region 2]"
  "cur_slot (demo_present hot) = (\<lambda>nt. if nt then Nt_Slot 3 else Slot 3)"
  "evac_notifiers (demo_present hot) = (\<lambda>_. 0)" "copy_notifiers (demo_present hot) = (\<lambda>_. 0)"
  by (simp_all add: demo_present_def)

lemma demo_present_view: "obj_view byte_objects (heap (demo_present hot)) 2054 = (5, u64_bytes 9, [1, 2, 3])"
proof -
  have "rd_bytes (wr_bytes (\<lambda>_. 0) 2066 [1, 2, 3]) 2066 3 = [1, 2, 3]" by (rule rd_wr_same) simp_all
  then show ?thesis
    using bytes.init_view [of "u64_bytes 9" 3 5 2054 "wr_bytes (\<lambda>_. 0) 2066 [1, 2, 3]"]
    by (simp add: demo_present_def) (simp add: byte_objects_def bo_header_def)
qed

lemma demo_present_meta:
  "pt_is_present format_ptrs (metas (demo_present hot) 64)" "pt_is_evacuation format_ptrs (metas (demo_present hot) 64)"
  "pt_is_hot format_ptrs (metas (demo_present hot) 64) \<longleftrightarrow> hot" "pt_is_dirty format_ptrs (metas (demo_present hot) 64)"
  "\<not> pt_is_shared format_ptrs (metas (demo_present hot) 64)" "pt_get_object_addr format_ptrs (metas (demo_present hot) 64) = 2054"
proof -
  have "addressable byte_objects 2054" by (simp add: addressable_def)
  then show "pt_get_object_addr format_ptrs (metas (demo_present hot) 64) = 2054"
    unfolding format_fields demo_present_simps by (rule word_addr) (auto simp: word_bits split: if_splits)
qed (simp_all add: word_bits)

lemma demo_present_size: "obj_ok byte_objects (heap (demo_present hot)) 2054" "ob_size byte_objects (heap (demo_present hot)) 2054 = 23"
proof -
  show ok: "obj_ok byte_objects (heap (demo_present hot)) 2054"
    using demo_present_view [of hot] by (simp add: obj_ok_def obj_view_def)
  have "unat (ob_size byte_objects (heap (demo_present hot)) 2054) = 23"
    using bytes.size_view [OF ok] demo_present_view [of hot] by (simp add: obj_view_def)
  then show "ob_size byte_objects (heap (demo_present hot)) 2054 = 23" by (simp add: word_unat_eq_iff)
qed

lemma demo_present_ok:
  "cache_ok demo_ext ring_items ring_cap 50 (demo_present hot)" "ptr_ok demo_ext (\<lambda>d. d) (demo_present hot) 64"
proof -
  show "cache_ok demo_ext ring_items ring_cap 50 (demo_present hot)"
    using demo_cache_ok [of "[far_region 0]"] by (simp add: cache_ok_def)
  have "\<exists>oid < 2 ^ 38. obj_id_bytes byte_objects (heap (demo_present hot)) 2054 = u64_bytes oid"
    using demo_present_view [of hot] by (intro exI [of _ 9]) (simp add: obj_view_def)
  then show "ptr_ok demo_ext (\<lambda>d. d) (demo_present hot) 64"
    using demo_present_meta [of hot] demo_present_size [of hot]
    by (simp add: ptr_ok_def obj_backed_def placed_def addressable_def kHeaderSize_def kSize_val Let_def del: demo_present_simps)
qed

theorem swap_out_preserves_value_witness:
  "\<exists>s'. swap_out demo_ext 64 2054 (demo_present True) = Some (Inr s')
    \<and> value_of demo_ext (\<lambda>d. d) s' 64 = Some (5, u64_bytes 9, [1, 2, 3])"
proof -
  have "pt_is_present (Pt demo_ext) (metas (demo_present True) 64)" "pt_get_object_addr (Pt demo_ext) (metas (demo_present True) 64) = 2054"
    using demo_present_meta [of True] by (simp_all del: demo_present_simps)
  moreover from this have "value_of demo_ext (\<lambda>d. d) (demo_present True) 64 = Some (5, u64_bytes 9, [1, 2, 3])"
    using demo_present_view by (simp add: value_of_def Let_def)
  ultimately show ?thesis
    using swap_out_preserves_value [OF demo_env demo_present_ok, of True 2054] by (auto simp del: demo_present_simps(1))
qed

theorem evict_fetch_roundtrip_witness:
  "\<exists>s1 s2. swap_out demo_ext 64 2054 (demo_present False) = Some (Inr s1) \<and> \<not> pt_is_present format_ptrs (metas s1 64)
    \<and> swap_in demo_ext False 64 s1 = Some (Inr s2)
    \<and> obj_view byte_objects (heap s2) (pt_get_object_addr format_ptrs (metas s2 64)) = (5, u64_bytes 9, [1, 2, 3])"
proof -
  have "pt_is_present (Pt demo_ext) (metas (demo_present False) 64)" "pt_get_object_addr (Pt demo_ext) (metas (demo_present False) 64) = 2054"
    "pt_is_evacuation (Pt demo_ext) (metas (demo_present False) 64)" "\<not> pt_is_hot (Pt demo_ext) (metas (demo_present False) 64)"
    using demo_present_meta [of False] by (simp_all del: demo_present_simps)
  moreover have "\<exists>x xs. ring_items (free_regions (cache_region_manager (demo_present False))) = x # xs
      \<and> (\<forall>h. fst (rg_allocate_object (Rg demo_ext) (ob_size (Ob demo_ext) (heap (demo_present False)) 2054) x h) \<noteq> None)"
    using demo_room [of 23] by (simp add: demo_present_size)
  ultimately show ?thesis
    using evict_fetch_roundtrip [OF demo_env demo_present_ok, of False 2054] demo_present_view [of False]
    by (simp del: demo_present_simps(1)) blast
qed

theorem new_unique_ptr_witness:
  "\<exists>ok s'. allocate_generic_unique_ptr_nb demo_ext 64 255 12 None demo_absent = Some (Inr (ok, s')) \<and> device s' = device demo_absent"
proof -
  have "\<exists>x xs. ring_items (free_regions (far_mem_region_manager demo_absent)) = x # xs
      \<and> (\<forall>h. fst (rg_allocate_object (Rg demo_ext) (total_size demo_ext 12 (id_len_of demo_ext None)) x h) \<noteq> None)"
    by (simp add: demo_absent_def total_size_def id_len_of_def)
       (simp add: far_region_def layout_regions_def kObjectPos_def kHeaderSize_def kSize_val bump_size_def kInvalidIdx_def)
  then show ?thesis
    using new_unique_ptr [OF demo_env demo_absent_ok(1,2), of 12 None 64 255] by (auto simp: id_len_of_def)
qed

lemma demo_full_fails:
  "\<exists>s'. reallocate_generic_unique_ptr_nb demo_ext 64 1019 [] (demo_present True) = Some (Inr (False, s'))"
proof -
  let ?s = "demo_present True"
  have old: "unat (ob_get_obj_id_len byte_objects (heap ?s) 2054) = 8"
    using demo_present_view [of True] by (metis Pair_inject length_rd_bytes length_u64_bytes obj_id_bytes_def obj_view_def)
  have never: "fst (rg_allocate_object (Rg demo_ext) (total_size demo_ext 1019 8) r h) = None" for r h
    by (simp add: total_size_def layout_oversize)
  obtain res s1 where al: "allocate_local_object_nb demo_ext False (total_size demo_ext 1019 8) ?s = Some (Inr (res, s1))"
    using demo.allocate_nb_spec [OF demo_present_ok(1)] by blast
  have "res = None" using nb_oversize [OF never al] .
  moreover have "deref_fn demo_ext 64 ?s = Some (Inr ?s)" by (simp add: demo_ext_def)
  moreover have "pt_get_object_addr format_ptrs (metas ?s 64) = 2054" by (rule demo_present_meta)
  ultimately show ?thesis using al old
    by (simp add: reallocate_generic_unique_ptr_nb_def Let_def del: demo_present_simps(1))
qed

theorem failed_resize_keeps_object_witness:
  "\<exists>s'. reallocate_generic_unique_ptr_nb demo_ext 64 1019 [] (demo_present True) = Some (Inr (False, s'))
    \<and> value_of demo_ext (\<lambda>d. d) s' 64 = value_of demo_ext (\<lambda>d. d) (demo_present True) 64"
proof -
  obtain s' where s': "reallocate_generic_unique_ptr_nb demo_ext 64 1019 [] (demo_present True) = Some (Inr (False, s'))"
    using demo_full_fails by blast
  have "deref_fn demo_ext 64 (demo_present True) = Some (Inr (demo_present True))" by (simp add: demo_ext_def)
  from failed_resize_keeps_object [OF demo_env demo_present_ok(1) this demo_present_ok(2) s'] s' show ?thesis by blast
qed


end
