(* ===== verification/Fm_Gc.thy ===== *)
theory Fm_Gc
  imports Fm_Swap
begin

text \<open>
  The collector of the local cache: picking the regions, the tasks of the master thread, the
  walks of the slave threads over the objects of a region, the phases of \<^verbatim>\<open>gc_cache\<close> and
  how it is launched. The build is the one without \<^verbatim>\<open>STW_GC\<close>, \<^verbatim>\<open>DISABLE_PRIORITIZING\<close> and
  \<^verbatim>\<open>GC_LOG\<close>. A parallel phase runs the tasks of the master one after the other, in the order
  in which the slaves happen to finish them (\<open>run_order\<close>).
\<close>

section \<open>What the collector uses from outside\<close>

text \<open>
  Constants and inline checks of the manager's header, the statuses of
  \<^verbatim>\<open>DerefScope\<close>, the memory the scan of \<^verbatim>\<open>pop_used_region\<close> sees, the scheduler.
\<close>

record ('q, 'd) gc_ext =
  kMinRatioRegionsPerGCRound :: double
  kMaxRatioRegionsPerGCRound :: double
  kFreeCacheHighThresh :: double
  kMaxNumRegionsPerGCRound :: u32
  kPickRegionMaxRetryTimes :: nat
  get_free_region_ratio :: "'q RegionManager \<Rightarrow> double"
  get_num_regions :: "'q RegionManager \<Rightarrow> u32"
  is_free_cache_low :: "('q, 'd) fm_state \<Rightarrow> bool"
  is_free_cache_high :: "('q, 'd) fm_state \<Rightarrow> bool"
  is_free_cache_almost_empty :: "('q, 'd) fm_state \<Rightarrow> bool"
  GC :: nat
  flip_status :: "nat \<Rightarrow> nat"
  get_num_threads :: "nat \<Rightarrow> ('q, 'd) fm_state \<Rightarrow> nat"
  seen_by_scan :: "('q, 'd) fm_state \<Rightarrow> nat \<Rightarrow> heap"
  align_to :: "u64 \<Rightarrow> u64 \<Rightarrow> u64"
  run_order :: "('q, 'd) fm_state \<Rightarrow> (addr \<times> addr) list \<Rightarrow> (addr \<times> addr) list"
  thread_yield :: "('q, 'd) fm_state \<Rightarrow> ('q, 'd) fm_state"
  park_and_switch :: "(('q, 'd) fm_state \<Rightarrow> (fm_error + ('q, 'd) fm_state) option) \<Rightarrow>
     ('q, 'd) fm_state \<Rightarrow> (fm_error + ('q, 'd) fm_state) option"
  rt_spawn :: "(('q, 'd) fm_state \<Rightarrow> (fm_error + ('q, 'd) fm_state) option) \<Rightarrow>
     ('q, 'd) fm_state \<Rightarrow> ('q, 'd) fm_state"

section \<open>Picking the regions\<close>

definition num_regions_per_gc_round :: "('q, 'd) gc_ext \<Rightarrow> 'q RegionManager \<Rightarrow> nat" where
  "num_regions_per_gc_round G m =
     (let ratio = max (kMinRatioRegionsPerGCRound G)
                    (min (kMaxRatioRegionsPerGCRound G) (double_sub (kFreeCacheHighThresh G) (get_free_region_ratio G m)))
      in unat (min (kMaxNumRegionsPerGCRound G) (double_to_u32 (double_mult ratio (of_nat (unat (get_num_regions G m)))))))"

function pick_loop :: "('q, 'd) gc_ext \<Rightarrow> ('q, 'd) ext \<Rightarrow> nat \<Rightarrow> ('q, 'd) fm_state \<Rightarrow> ('q, 'd) fm_state" where
  "pick_loop G E n s =
     (case pop_used_region (Rg E) (Cb E) (kPickRegionMaxRetryTimes G) (seen_by_scan G s) (cache_region_manager s) of
        (None, m) \<Rightarrow> s\<lparr>cache_region_manager := m\<rparr>
      | (Some r, m) \<Rightarrow>
          (let s' = s\<lparr>cache_region_manager := m, from_regions := from_regions s @ [r]\<rparr>
           in if length (from_regions s') < n then pick_loop G E n s' else s'))"
  by pat_completeness auto
termination
  by (relation "measure (\<lambda>(G, E, n, s). n - length (from_regions s))") auto

declare pick_loop.simps [simp del]

definition pick_from_regions :: "('q, 'd) gc_ext \<Rightarrow> ('q, 'd) ext \<Rightarrow> ('q, 'd) fm_state \<Rightarrow> ('q, 'd) fm_state" where
  "pick_from_regions G E s =
     (let s = s\<lparr>from_regions := []\<rparr>
      in pick_loop G E (num_regions_per_gc_round G (cache_region_manager s)) s)"

section \<open>Master and slaves\<close>

text \<open>The tasks of the master: the boundaries of every picked region.\<close>

definition master_fn :: "region_ops \<Rightarrow> Region list \<Rightarrow> (addr \<times> addr) list" where
  "master_fn R regions =
     concat (map (\<lambda>r. map (\<lambda>j. rg_get_boundary R r (of_nat j)) [0..<unat (rg_get_num_boundaries R r)]) regions)"

text \<open>
  One object of a slave's walk: unless it is freed, lock its id, look again, act on its
  pointer, unlock.
\<close>

definition visit_object :: "('q, 'd) ext \<Rightarrow> (addr \<Rightarrow> addr \<Rightarrow> ('q, 'd) fm_state \<Rightarrow> (fm_error + ('q, 'd) fm_state) option) \<Rightarrow>
   addr \<Rightarrow> ('q, 'd) fm_state \<Rightarrow> (fm_error + ('q, 'd) fm_state) option" where
  "visit_object E act obj s =
     (if ob_is_freed (Ob E) (heap s) obj then Some (Inr s)
      else (let obj_id_len = unat (ob_get_obj_id_len (Ob E) (heap s) obj);
                obj_id = ob_get_obj_id (Ob E) (heap s) obj
            in and_then (lock_object E (rd_bytes (heap s) obj_id obj_id_len) s) (\<lambda>s.
                 and_then (if ob_is_freed (Ob E) (heap s) obj then Some (Inr s)
                           else act (ob_get_ptr_addr (Ob E) (heap s) obj) obj s)
                   (\<lambda>s. Some (Inr (unlock_object (rd_bytes (heap s) obj_id obj_id_len) s))))))"

partial_function (option) walk_objects ::
  "('q, 'd) gc_ext \<Rightarrow> ('q, 'd) ext \<Rightarrow> (addr \<Rightarrow> addr \<Rightarrow> ('q, 'd) fm_state \<Rightarrow> (fm_error + ('q, 'd) fm_state) option) \<Rightarrow>
   addr \<Rightarrow> addr \<Rightarrow> ('q, 'd) fm_state \<Rightarrow> (fm_error + ('q, 'd) fm_state) option" where
  "walk_objects G E act right cur s =
     (if cur + of_nat (ob_kHeaderSize (Ob E)) < right
      then and_then (visit_object E act cur s)
             (\<lambda>s. walk_objects G E act right (cur + align_to G (ucast (ob_size (Ob E) (heap s) cur)) (of_nat 8)) s)
      else Some (Inr s))"

text \<open>The tasks a slave takes from its queue until it may leave.\<close>

fun slave_fn :: "('q, 'd) gc_ext \<Rightarrow> ('q, 'd) ext \<Rightarrow> (addr \<Rightarrow> addr \<Rightarrow> ('q, 'd) fm_state \<Rightarrow> (fm_error + ('q, 'd) fm_state) option) \<Rightarrow>
   (addr \<times> addr) list \<Rightarrow> ('q, 'd) fm_state \<Rightarrow> (fm_error + ('q, 'd) fm_state) option" where
  "slave_fn G E act [] s = Some (Inr s)"
| "slave_fn G E act (task # tasks) s =
     and_then (walk_objects G E act (snd task) (fst task) s) (slave_fn G E act tasks)"

text \<open>The marker marks the pointers of the object, the write backer swaps it out.\<close>

definition mark_pointers :: "('q, 'd) ext \<Rightarrow> addr \<Rightarrow> addr \<Rightarrow> ('q, 'd) fm_state \<Rightarrow> (fm_error + ('q, 'd) fm_state) option" where
  "mark_pointers E p obj s = Some (Inr (fold (upd_meta (pt_set_evacuation (Pt E))) (ptr_targets E p s) s))"

definition GCParallelMarker_slave_fn :: "('q, 'd) gc_ext \<Rightarrow> ('q, 'd) ext \<Rightarrow> (addr \<times> addr) list \<Rightarrow>
   ('q, 'd) fm_state \<Rightarrow> (fm_error + ('q, 'd) fm_state) option" where
  "GCParallelMarker_slave_fn G E = slave_fn G E (mark_pointers E)"

definition GCParallelWriteBacker_slave_fn :: "('q, 'd) gc_ext \<Rightarrow> ('q, 'd) ext \<Rightarrow> (addr \<times> addr) list \<Rightarrow>
   ('q, 'd) fm_state \<Rightarrow> (fm_error + ('q, 'd) fm_state) option" where
  "GCParallelWriteBacker_slave_fn G E = slave_fn G E (swap_out E)"

text \<open>The master hands its tasks out and waits until the slaves have finished them.\<close>

definition execute :: "('q, 'd) gc_ext \<Rightarrow> ('q, 'd) ext \<Rightarrow> ((addr \<times> addr) list \<Rightarrow>
   ('q, 'd) fm_state \<Rightarrow> (fm_error + ('q, 'd) fm_state) option) \<Rightarrow> ('q, 'd) fm_state \<Rightarrow> (fm_error + ('q, 'd) fm_state) option" where
  "execute G E slave s = slave (run_order G s (master_fn (Rg E) (from_regions s))) s"

lemmas slave_defs = GCParallelMarker_slave_fn_def GCParallelWriteBacker_slave_fn_def

section \<open>Phases\<close>

definition start_prioritizing :: "nat \<Rightarrow> ('q, 'd) fm_state \<Rightarrow> ('q, 'd) fm_state" where
  "start_prioritizing status s = s\<lparr>prioritized_status := status, global_prioritizing := True\<rparr>"

definition stop_prioritizing :: "('q, 'd) fm_state \<Rightarrow> ('q, 'd) fm_state" where
  "stop_prioritizing s = s\<lparr>global_prioritizing := False\<rparr>"

text \<open>
  The guard that enables preemption again runs once: when it is reset, or else when
  \<^verbatim>\<open>gc_cache\<close> is left.
\<close>

definition reset_guard :: "bool \<Rightarrow> ('q, 'd) fm_state \<Rightarrow> ('q, 'd) fm_state" where
  "reset_guard armed s = (if armed then preempt_enable s else s)"

definition mark_fm_ptrs :: "('q, 'd) gc_ext \<Rightarrow> ('q, 'd) ext \<Rightarrow> bool \<Rightarrow> ('q, 'd) fm_state \<Rightarrow> (fm_error + ('q, 'd) fm_state) option" where
  "mark_fm_ptrs G E armed s =
     (let s = start_prioritizing (GC G) s;
          s = reset_guard armed s
      in execute G E (GCParallelMarker_slave_fn G E) s)"

partial_function (option) wait_threads :: "('q, 'd) gc_ext \<Rightarrow> nat \<Rightarrow> ('q, 'd) fm_state \<Rightarrow> (fm_error + ('q, 'd) fm_state) option" where
  "wait_threads G status s =
     (if get_num_threads G status s \<noteq> 0 then wait_threads G status (thread_yield G s) else Some (Inr s))"

definition wait_mutators_observation :: "('q, 'd) gc_ext \<Rightarrow> ('q, 'd) fm_state \<Rightarrow> (fm_error + ('q, 'd) fm_state) option" where
  "wait_mutators_observation G s =
     (let old_status = expected_status s;
          s = s\<lparr>expected_status := flip_status G old_status\<rparr>;
          s = s\<lparr>self_th_status := old_status\<rparr>;
          s = start_prioritizing old_status s
      in and_then (wait_threads G old_status s) (\<lambda>s. Some (Inr (s\<lparr>self_th_status := GC G\<rparr>))))"

definition write_back_regions :: "('q, 'd) gc_ext \<Rightarrow> ('q, 'd) ext \<Rightarrow> ('q, 'd) fm_state \<Rightarrow> (fm_error + ('q, 'd) fm_state) option" where
  "write_back_regions G E s = execute G E (GCParallelWriteBacker_slave_fn G E) (start_prioritizing (GC G) s)"

text \<open>Phase 5: the regions go back to the free list, and waiting mutators are told.\<close>

fun push_from_regions :: "('q, 'd) ext \<Rightarrow> Region list \<Rightarrow> Region list \<Rightarrow> ('q, 'd) fm_state \<Rightarrow> fm_error + ('q, 'd) fm_state" where
  "push_from_regions E pushed [] s = Inr (s\<lparr>from_regions := pushed\<rparr>)"
| "push_from_regions E pushed (r # rs) s =
     (case push_free_region (Rg E) (Cb E) r (heap s) (cache_region_manager s) of
        Inl e \<Rightarrow> Inl e
      | Inr (r', h, m) \<Rightarrow> push_from_regions E (pushed @ [r']) rs (s\<lparr>heap := h, cache_region_manager := m\<rparr>))"

definition notify_mutators :: "('q, 'd) gc_ext \<Rightarrow> ('q, 'd) fm_state \<Rightarrow> ('q, 'd) fm_state" where
  "notify_mutators G s =
     (let s = s\<lparr>gc_lock := True\<rparr>;
          s = (if \<not> is_free_cache_almost_empty G s then s\<lparr>almost_empty := False\<rparr> else s)
      in s\<lparr>gc_lock := False\<rparr>)"

text \<open>Phases 2 to 5 of one round, after some regions have been picked.\<close>

definition gc_round :: "('q, 'd) gc_ext \<Rightarrow> ('q, 'd) ext \<Rightarrow> bool \<Rightarrow> ('q, 'd) fm_state \<Rightarrow> (fm_error + ('q, 'd) fm_state) option" where
  "gc_round G E armed s =
     and_then (mark_fm_ptrs G E armed s) (\<lambda>s.
     and_then (wait_mutators_observation G s) (\<lambda>s.
     and_then (write_back_regions G E s) (\<lambda>s.
     and_then (Some (push_from_regions E [] (from_regions s) s)) (\<lambda>s.
       Some (Inr (notify_mutators G s))))))"

section \<open>The collector\<close>

text \<open>The loop returns whether the guard is still armed.\<close>

partial_function (option) gc_loop :: "('q, 'd) gc_ext \<Rightarrow> ('q, 'd) ext \<Rightarrow> bool \<Rightarrow> ('q, 'd) fm_state \<Rightarrow>
   (fm_error + (bool \<times> ('q, 'd) fm_state)) option" where
  "gc_loop G E armed s =
     (if is_free_cache_high G s then Some (Inr (armed, s))
      else (let s = pick_from_regions G E s
            in if from_regions s = [] then gc_loop G E armed (thread_yield G s)
               else and_then (gc_round G E armed s) (gc_loop G E False)))"

definition gc_cache :: "('q, 'd) gc_ext \<Rightarrow> ('q, 'd) ext \<Rightarrow> ('q, 'd) fm_state \<Rightarrow> (fm_error + ('q, 'd) fm_state) option" where
  "gc_cache G E s =
     (let s = preempt_disable s;
          s = s\<lparr>self_th_status := GC G\<rparr>
      in if \<not> is_free_cache_low G s then Some (Inr (reset_guard True s))
         else if gc_master_active s then Some (Inr (reset_guard True s))
         else and_then (gc_loop G E True (s\<lparr>gc_master_active := True\<rparr>)) (\<lambda>(armed, s).
           let s = stop_prioritizing s;
               s = s\<lparr>gc_master_spawned := False\<rparr>;
               s = s\<lparr>gc_master_active := False\<rparr>
           in Some (Inr (reset_guard armed s))))"

text \<open>The thread \<^verbatim>\<open>launch_gc_master\<close> starts.\<close>

definition gc_thread :: "('q, 'd) gc_ext \<Rightarrow> ('q, 'd) ext \<Rightarrow> ('q, 'd) fm_state \<Rightarrow> (fm_error + ('q, 'd) fm_state) option" where
  "gc_thread G E s =
     and_then (gc_cache G E (s\<lparr>pending_gcs := pending_gcs s + 1\<rparr>))
       (\<lambda>s. Some (Inr (s\<lparr>pending_gcs := pending_gcs s - 1\<rparr>)))"

definition launch_gc_master :: "('q, 'd) gc_ext \<Rightarrow> ('q, 'd) ext \<Rightarrow> ('q, 'd) fm_state \<Rightarrow> (fm_error + ('q, 'd) fm_state) option" where
  "launch_gc_master G E s =
     (if \<not> gc_master_active s then
        (if preempt_cnt s = 0 then park_and_switch G (gc_thread G E) s
         else if \<not> gc_master_spawned s then Some (Inr (rt_spawn G (gc_thread G E) (s\<lparr>gc_master_spawned := True\<rparr>)))
         else Some (Inr s))
      else Some (Inr s))"

section \<open>Invariants through the phases\<close>

text \<open>
  \<open>keeps I f\<close>: whenever \<open>f\<close> returns from a state with \<open>I\<close>, it has not failed and \<open>I\<close> holds
  again.
\<close>

definition keeps :: "('s \<Rightarrow> bool) \<Rightarrow> ('s \<Rightarrow> (fm_error + 's) option) \<Rightarrow> bool" where
  "keeps I f \<longleftrightarrow> (\<forall>s y. I s \<longrightarrow> f s = Some y \<longrightarrow> (\<exists>s'. y = Inr s' \<and> I s'))"

lemma keepsI: "(\<And>s y. I s \<Longrightarrow> f s = Some y \<Longrightarrow> \<exists>s'. y = Inr s' \<and> I s') \<Longrightarrow> keeps I f"
  by (simp add: keeps_def)

lemma keepsD: "keeps I f \<Longrightarrow> I s \<Longrightarrow> f s = Some y \<Longrightarrow> \<exists>s'. y = Inr s' \<and> I s'"
  by (simp add: keeps_def)

lemma keeps_and_then:
  assumes "keeps I f" and "keeps I g"
  shows "keeps I (\<lambda>s. and_then (f s) g)"
proof (rule keepsI)
  fix s y
  assume I: "I s" and y: "and_then (f s) g = Some y"
  then obtain z where z: "f s = Some z" by (cases "f s") simp_all
  obtain s1 where "z = Inr s1" "I s1" using keepsD [OF assms(1) I z] by blast
  then show "\<exists>s'. y = Inr s' \<and> I s'" using keepsD [OF assms(2), of s1 y] y z by simp
qed

lemma keeps_pure: "(\<And>s. I s \<Longrightarrow> I (f s)) \<Longrightarrow> keeps I (\<lambda>s. Some (Inr (f s)))"
  by (auto simp: keeps_def)

lemma keeps_walk:
  assumes "\<And>obj. keeps I (visit_object E act obj)"
  shows "keeps I (walk_objects G E act right cur)"
proof (rule keepsI)
  fix s y
  assume I: "I s" and run: "walk_objects G E act right cur s = Some y"
  have "E' = E \<longrightarrow> act' = act \<longrightarrow> I s \<longrightarrow> (\<exists>s'. y = Inr s' \<and> I s')"
    if "walk_objects G E' act' right cur s = Some y" for E' act'
  proof (rule walk_objects.raw_induct [OF _ that], goal_cases)
    case (1 f G E' act' right cur s y)
    show ?case
    proof (intro impI)
      assume e: "E' = E" "act' = act" and I: "I s"
      show "\<exists>s'. y = Inr s' \<and> I s'"
      proof (cases "cur + of_nat (ob_kHeaderSize (Ob E)) < right")
        case False
        then show ?thesis using 1(2) e I by auto
      next
        case True
        then have st: "and_then (visit_object E act cur s)
            (\<lambda>s. f G E act right (cur + align_to G (ucast (ob_size (Ob E) (heap s) cur)) (of_nat 8)) s) = Some y"
          using 1(2) e by simp
        then obtain z where z: "visit_object E act cur s = Some z" by (cases "visit_object E act cur s") simp_all
        obtain s1 where "z = Inr s1" "I s1" using keepsD [OF assms I z] by blast
        then show ?thesis using 1(1) e st z by auto
      qed
    qed
  qed
  then show "\<exists>s'. y = Inr s' \<and> I s'" using I run by blast
qed

lemma keeps_slave:
  assumes "\<And>obj. keeps I (visit_object E act obj)"
  shows "keeps I (slave_fn G E act tasks)"
proof (induction tasks)
  case Nil
  then show ?case by (simp add: keeps_def)
next
  case (Cons t ts)
  then have "keeps I (\<lambda>s. and_then (walk_objects G E act (snd t) (fst t) s) (slave_fn G E act ts))"
    using keeps_walk [OF assms] by (intro keeps_and_then) auto
  then show ?case by (simp add: keeps_def)
qed

lemma keeps_execute:
  assumes "\<And>obj. keeps I (visit_object E act obj)"
  shows "keeps I (execute G E (slave_fn G E act))"
  using keeps_slave [OF assms] by (auto simp: keeps_def execute_def)

lemma keeps_visit:
  assumes lock: "\<And>oid s s'. lock_wait E oid s = Some s' \<Longrightarrow> I s \<Longrightarrow> I s'"
    and locks: "\<And>s L. I (s\<lparr>obj_locks := L\<rparr>) = I s"
    and act: "\<And>p obj. keeps I (act p obj)"
  shows "keeps I (visit_object E act obj)"
proof (rule keepsI)
  fix s y
  assume I: "I s" and run: "visit_object E act obj s = Some y"
  show "\<exists>s'. y = Inr s' \<and> I s'"
  proof (cases "ob_is_freed (Ob E) (heap s) obj")
    case True
    then show ?thesis using I run by (auto simp: visit_object_def)
  next
    case False
    let ?len = "unat (ob_get_obj_id_len (Ob E) (heap s) obj)" and ?id = "ob_get_obj_id (Ob E) (heap s) obj"
    obtain t where t: "lock_wait E (rd_bytes (heap s) ?id ?len) s = Some t"
      using run False by (cases "lock_wait E (rd_bytes (heap s) ?id ?len) s") (simp_all add: visit_object_def lock_object_def)
    let ?t = "t\<lparr>obj_locks := insert (rd_bytes (heap s) ?id ?len) (obj_locks t)\<rparr>"
    have It: "I ?t" using lock [OF t I] locks by simp
    let ?f = "if ob_is_freed (Ob E) (heap ?t) obj then Some (Inr ?t) else act (ob_get_ptr_addr (Ob E) (heap ?t) obj) obj ?t"
    have r: "and_then ?f (\<lambda>s. Some (Inr (unlock_object (rd_bytes (heap s) ?id ?len) s))) = Some y"
      using run False t by (simp add: visit_object_def lock_object_def Let_def)
    then obtain z where z: "?f = Some z" by (cases ?f) simp_all
    have "\<exists>u. z = Inr u \<and> I u"
      using z It keepsD [OF act It] by (cases "ob_is_freed (Ob E) (heap ?t) obj") auto
    then obtain u where u: "z = Inr u" "I u" by blast
    have "y = Inr (unlock_object (rd_bytes (heap u) ?id ?len) u)" using r z u(1) by (simp split: if_splits)
    then show ?thesis using u(2) locks by (simp add: unlock_object_def)
  qed
qed

section \<open>No region is lost\<close>

text \<open>
  \<open>T\<close> are the indices of all \<open>N\<close> regions of the cache: while a collection is under way, some
  are with the manager and some in \<^verbatim>\<open>from_regions_\<close>.
\<close>

definition gc_inv :: "('q, 'd) ext \<Rightarrow> ('q \<Rightarrow> Region list) \<Rightarrow> ('q \<Rightarrow> nat) \<Rightarrow> nat \<Rightarrow> u32 multiset \<Rightarrow> ('q, 'd) fm_state \<Rightarrow> bool" where
  "gc_inv E items capacity N T s \<longleftrightarrow>
     cache_ok E items capacity N s \<and> list_all (\<lambda>r. \<not> rg_is_invalid (Rg E) r) (from_regions s)
     \<and> region_ids (Rg E) items (cache_region_manager s) + mset (map region_idx (from_regions s)) = T \<and> size T \<le> N"

text \<open>
  What the collector relies on: whoever runs while it waits for a lock or yields, and every
  notifier, keeps the regions together and leaves \<^verbatim>\<open>from_regions_\<close> and preemption alone.
\<close>

definition regions_kept :: "('q, 'd) ext \<Rightarrow> ('q \<Rightarrow> Region list) \<Rightarrow> ('q \<Rightarrow> nat) \<Rightarrow> ('q, 'd) fm_state \<Rightarrow> ('q, 'd) fm_state \<Rightarrow> bool" where
  "regions_kept E items capacity s s' \<longleftrightarrow>
     (\<forall>N T. gc_inv E items capacity N T s \<longrightarrow> gc_inv E items capacity N T s')
     \<and> preempt_cnt s' = preempt_cnt s \<and> from_regions s' = from_regions s"

lemma regions_kept_refl [simp]: "regions_kept E items capacity s s"
  by (simp add: regions_kept_def)

lemma regions_kept_trans:
  "regions_kept E items capacity s s1 \<Longrightarrow> regions_kept E items capacity s1 s2 \<Longrightarrow> regions_kept E items capacity s s2"
  by (simp add: regions_kept_def)

lemma regions_kept_fields:
  assumes "cache_region_manager s' = cache_region_manager s" and "from_regions s' = from_regions s"
    and "cur_slot s' = cur_slot s" and "preempt_cnt s' = preempt_cnt s"
  shows "regions_kept E items capacity s s'"
  using assms by (simp add: regions_kept_def gc_inv_def cache_ok_def)

locale gc_env = manager_env E items capacity contents
  for E :: "('q, 'd) ext" and items capacity contents +
  fixes G :: "('q, 'd) gc_ext"
  assumes lock_kept: "lock_wait E oid s = Some s' \<Longrightarrow> regions_kept E items capacity s s'"
    and yield_kept: "regions_kept E items capacity s (thread_yield G s)"
    and copy_fn_kept: "regions_kept E items capacity s (copy_fn E f a b s)"
    and evac_fn_kept: "(\<And>len t. regions_kept E items capacity t (w len t)) \<Longrightarrow> regions_kept E items capacity s (snd (evac_fn E f a w s))"
    and run_order_perm: "mset (run_order G s tasks) = mset tasks"
begin

lemma alloc_frame_kept:
  assumes "alloc_frame E items capacity N s s'" and "gc_inv E items capacity N T s"
  shows "gc_inv E items capacity N T s' \<and> preempt_cnt s' = preempt_cnt s"
  using assms(2) alloc_frame_fields [OF assms(1)] alloc_frame_ok [OF assms(1)] by (simp add: gc_inv_def)

lemma fold_kept:
  assumes "\<And>t s. regions_kept E items capacity s (f t s)"
  shows "regions_kept E items capacity s (fold f ts s)"
proof (induction ts arbitrary: s)
  case (Cons t ts)
  then show ?case using regions_kept_trans [OF assms [of s t]] by simp
qed simp

lemma upd_ptr_kept: "regions_kept E items capacity s (upd_ptr f t s)"
  by (rule regions_kept_fields) (simp_all add: upd_ptr_def split_def Let_def)

lemma upd_meta_kept: "regions_kept E items capacity s (upd_meta f t s)"
  by (rule regions_kept_fields) (simp_all add: upd_meta_def)

lemma copy_object_kept: "regions_kept E items capacity s (copy_object E p obj sz a s)"
proof -
  have h: "regions_kept E items capacity t (t\<lparr>heap := h\<rparr>)" for t h by (rule regions_kept_fields) simp_all
  have i: "regions_kept E items capacity t (inc_ref_cnt E a d t)" for t d by (simp add: inc_ref_cnt_def h)
  have f: "regions_kept E items capacity t (fold (\<lambda>t. upd_ptr (pt_gc_copy (Pt E) t a) t) ts t)" for t ts
    by (rule fold_kept) (rule upd_ptr_kept)
  show ?thesis unfolding copy_object_def Let_def
    by (auto intro!: regions_kept_trans [OF _ i] regions_kept_trans [OF _ f] regions_kept_trans [OF _ copy_fn_kept] h
        regions_kept_trans [OF h h])
qed

lemma evict_object_kept: "regions_kept E items capacity s (evict_object E p obj dirty s)"
proof -
  have w: "regions_kept E items capacity t (write_object E ds l i d dirty len t)" for ds l i d len t
    by (rule regions_kept_fields) (simp_all add: write_object_def)
  have f: "regions_kept E items capacity t (fold (\<lambda>u s. upd_meta (g s) u s) ts t)" for t ts g
    by (rule fold_kept) (rule upd_meta_kept)
  show ?thesis unfolding evict_object_def Let_def
    by (auto simp: split_def intro!: regions_kept_trans [OF _ f] w evac_fn_kept)
qed

text \<open>Swapping out never fails; it keeps the regions and preemption.\<close>

lemma keeps_swap_out: "keeps (\<lambda>s. gc_inv E items capacity N T s \<and> preempt_cnt s = c) (swap_out E p obj)"
proof (rule keepsI)
  fix s y
  let ?I = "\<lambda>s. gc_inv E items capacity N T s \<and> preempt_cnt s = c"
  assume I: "?I s" and run: "swap_out E p obj s = Some y"
  have K: "?I t'" if "?I t" "regions_kept E items capacity t t'" for t t'
    using that by (auto simp: regions_kept_def)
  obtain hot nt dirty where fl: "evacuation_flags E p s = (hot, nt, dirty)" by (metis prod_cases3)
  have cok: "cache_ok E items capacity N s" using I by (simp add: gc_inv_def)
  obtain res t where al: "allocate_local_object_nb E False (ob_size (Ob E) (heap s) obj) s = Some (Inr (res, t))"
      "alloc_frame E items capacity N s t" using allocate_nb_spec [OF cok] by blast
  have It: "?I t" using alloc_frame_kept [OF al(2)] I by auto
  have "y = Inr s \<or> y = Inr (evict_object E p obj dirty s) \<or> y = Inr (evict_object E p obj dirty t)
      \<or> (\<exists>a. y = Inr (copy_object E p obj (ob_size (Ob E) (heap s) obj) a t))"
    using run fl al(1) by (cases res) (auto simp: swap_out_def Let_def split: if_splits)
  then show "\<exists>s'. y = Inr s' \<and> ?I s'"
    using K [OF I evict_object_kept] K [OF It evict_object_kept] K [OF It copy_object_kept] I by blast
qed

lemma keeps_mark: "keeps (\<lambda>s. gc_inv E items capacity N T s \<and> preempt_cnt s = c) (mark_pointers E p obj)"
proof (rule keepsI)
  fix s y
  assume "gc_inv E items capacity N T s \<and> preempt_cnt s = c" and "mark_pointers E p obj s = Some y"
  moreover have "regions_kept E items capacity s (fold (upd_meta (pt_set_evacuation (Pt E))) (ptr_targets E p s) s)"
    by (rule fold_kept) (rule upd_meta_kept)
  ultimately show "\<exists>s'. y = Inr s' \<and> gc_inv E items capacity N T s' \<and> preempt_cnt s' = c"
    by (auto simp: mark_pointers_def regions_kept_def)
qed

lemma keeps_execute_act:
  assumes "\<And>p obj. keeps (\<lambda>s. gc_inv E items capacity N T s \<and> preempt_cnt s = c) (act p obj)"
  shows "keeps (\<lambda>s. gc_inv E items capacity N T s \<and> preempt_cnt s = c) (execute G E (slave_fn G E act))"
proof (intro keeps_execute keeps_visit assms)
  show "lock_wait E oid s = Some s' \<Longrightarrow> gc_inv E items capacity N T s \<and> preempt_cnt s = c
      \<Longrightarrow> gc_inv E items capacity N T s' \<and> preempt_cnt s' = c" for oid s s'
    using lock_kept by (auto simp: regions_kept_def)
qed (simp add: gc_inv_def cache_ok_def)

lemma keeps_phases:
  "keeps (\<lambda>s. gc_inv E items capacity N T s \<and> preempt_cnt s = c) (execute G E (GCParallelMarker_slave_fn G E))"
  "keeps (\<lambda>s. gc_inv E items capacity N T s \<and> preempt_cnt s = c) (execute G E (GCParallelWriteBacker_slave_fn G E))"
  unfolding slave_defs by (rule keeps_execute_act, rule keeps_mark keeps_swap_out)+

lemma pick_step:
  assumes inv: "gc_inv E items capacity N T s"
    and pop: "pop_used_region (Rg E) (Cb E) K seen (cache_region_manager s) = (res, m)"
  shows "gc_inv E items capacity N T (s\<lparr>cache_region_manager := m,
     from_regions := from_regions s @ (case res of None \<Rightarrow> [] | Some r \<Rightarrow> [r])\<rparr>)"
proof -
  have wf: "rm_wf (Rg E) items capacity N (cache_region_manager s)" using inv by (simp add: gc_inv_def cache_ok_def)
  note c = pop_used_conserves [OF wf pop]
  show ?thesis using inv c by (cases res) (auto simp: gc_inv_def cache_ok_def)
qed

lemma pick_loop_spec:
  assumes "gc_inv E items capacity N T s"
  shows "gc_inv E items capacity N T (pick_loop G E n s)
    \<and> length (from_regions (pick_loop G E n s)) \<le> max n (Suc (length (from_regions s)))
    \<and> (\<exists>m rs. pick_loop G E n s = s\<lparr>cache_region_manager := m, from_regions := from_regions s @ rs\<rparr>)"
  using assms
proof (induction "n - length (from_regions s)" arbitrary: s rule: less_induct)
  case less
  obtain res m where pop: "pop_used_region (Rg E) (Cb E) (kPickRegionMaxRetryTimes G) (seen_by_scan G s) (cache_region_manager s) = (res, m)"
    by fastforce
  note inv = pick_step [OF less.prems pop]
  show ?case
  proof (cases res)
    case None
    then have "pick_loop G E n s = s\<lparr>cache_region_manager := m\<rparr>" using pop by (subst pick_loop.simps) simp
    then show ?thesis using inv None
      by (auto intro!: exI [of _ m] exI [of _ "[]"])
  next
    case (Some r)
    let ?s = "s\<lparr>cache_region_manager := m, from_regions := from_regions s @ [r]\<rparr>"
    have unf: "pick_loop G E n s = (if length (from_regions ?s) < n then pick_loop G E n ?s else ?s)"
      using pop Some by (subst pick_loop.simps) (simp add: Let_def)
    show ?thesis
    proof (cases "length (from_regions ?s) < n")
      case False
      then show ?thesis using unf inv Some by (auto intro!: exI [of _ m] exI [of _ "[r]"])
    next
      case True
      then have dec: "n - length (from_regions ?s) < n - length (from_regions s)" by simp
      have inv': "gc_inv E items capacity N T ?s" using inv Some by simp
      obtain m' rs where ih: "gc_inv E items capacity N T (pick_loop G E n ?s)"
          "length (from_regions (pick_loop G E n ?s)) \<le> max n (Suc (length (from_regions ?s)))"
          "pick_loop G E n ?s = ?s\<lparr>cache_region_manager := m', from_regions := from_regions ?s @ rs\<rparr>"
        using less.hyps [OF dec inv'] by blast
      have "pick_loop G E n ?s = s\<lparr>cache_region_manager := m', from_regions := from_regions s @ (r # rs)\<rparr>"
        using ih(3) by simp
      then show ?thesis using unf True ih(1,2) by (simp only: if_True) (auto intro!: exI [of _ m'] exI [of _ "r # rs"])
    qed
  qed
qed

text \<open>Returning the picked regions.\<close>

lemma push_from_spec:
  assumes "cache_ok E items capacity N s" and "list_all (\<lambda>r. \<not> rg_is_invalid (Rg E) r) rs"
    and "size (region_ids (Rg E) items (cache_region_manager s)) + length rs \<le> N"
  shows "\<exists>s'. push_from_regions E pushed rs s = Inr s' \<and> cache_ok E items capacity N s'
    \<and> region_ids (Rg E) items (cache_region_manager s')
       = region_ids (Rg E) items (cache_region_manager s) + mset (map region_idx rs)
    \<and> (\<exists>ps. items (free_regions (cache_region_manager s')) = items (free_regions (cache_region_manager s)) @ ps
          \<and> map region_idx ps = map region_idx rs)
    \<and> preempt_cnt s' = preempt_cnt s"
  using assms
proof (induction rs arbitrary: s pushed)
  case Nil
  then show ?case by (simp add: cache_ok_def)
next
  case (Cons r rs)
  have wf: "rm_wf (Rg E) items capacity N (cache_region_manager s)" using Cons.prems(1) by (simp add: cache_ok_def)
  have room: "size (region_ids (Rg E) items (cache_region_manager s)) < N" using Cons.prems(3) by simp
  have valid: "\<not> rg_is_invalid (Rg E) r" using Cons.prems(2) by simp
  obtain r' h m where p: "push_free_region (Rg E) (Cb E) r (heap s) (cache_region_manager s) = Inr (r', h, m)"
      "rm_wf (Rg E) items capacity N m"
      "region_ids (Rg E) items m = add_mset (region_idx r) (region_ids (Rg E) items (cache_region_manager s))"
      "items (free_regions m) = items (free_regions (cache_region_manager s)) @ [fst (rg_reset (Rg E) r (heap s))]"
    using push_free_spec [OF wf room valid, of "heap s"] by blast
  let ?s = "s\<lparr>heap := h, cache_region_manager := m\<rparr>"
  have ok: "cache_ok E items capacity N ?s" using Cons.prems(1) p(2) by (simp add: cache_ok_def)
  have fit: "size (region_ids (Rg E) items (cache_region_manager ?s)) + length rs \<le> N" using Cons.prems(3) p(3) by simp
  have vs: "list_all (\<lambda>r. \<not> rg_is_invalid (Rg E) r) rs" using Cons.prems(2) by simp
  obtain s' ps where s': "push_from_regions E (pushed @ [r']) rs ?s = Inr s'" "cache_ok E items capacity N s'"
      "region_ids (Rg E) items (cache_region_manager s') = region_ids (Rg E) items (cache_region_manager ?s) + mset (map region_idx rs)"
      "items (free_regions (cache_region_manager s')) = items (free_regions (cache_region_manager ?s)) @ ps"
      "map region_idx ps = map region_idx rs" "preempt_cnt s' = preempt_cnt ?s"
    using Cons.IH [OF ok vs fit, of "pushed @ [r']"] by blast
  have "push_from_regions E pushed (r # rs) s = Inr s'" using p(1) s'(1) by simp
  moreover have "items (free_regions (cache_region_manager s')) = items (free_regions (cache_region_manager s))
      @ (fst (rg_reset (Rg E) r (heap s)) # ps)" using s'(4) p(4) by simp
  moreover have "map region_idx (fst (rg_reset (Rg E) r (heap s)) # ps) = map region_idx (r # rs)"
    using s'(5) by (simp add: reset_idx)
  ultimately show ?case using s'(2,3,6) p(3) by auto
qed

lemma wait_threads_kept:
  assumes "wait_threads G st s = Some y"
  shows "\<exists>s'. y = Inr s' \<and> regions_kept E items capacity s s'"
proof -
  have "G' = G \<longrightarrow> (\<exists>s'. y = Inr s' \<and> regions_kept E items capacity s s')" if "wait_threads G' st s = Some y" for G'
  proof (rule wait_threads.raw_induct [OF _ that], goal_cases)
    case (1 f G' st s y)
    show ?case
    proof
      assume g: "G' = G"
      show "\<exists>s'. y = Inr s' \<and> regions_kept E items capacity s s'"
      proof (cases "get_num_threads G st s = 0")
        case True
        then show ?thesis using 1(2) g by auto
      next
        case False
        then have "f G st (thread_yield G s) = Some y" using 1(2) g by simp
        then obtain s' where "y = Inr s'" "regions_kept E items capacity (thread_yield G s) s'" using 1(1) by blast
        then show ?thesis using yield_kept [of s] regions_kept_trans by blast
      qed
    qed
  qed
  then show ?thesis using assms by blast
qed

lemma wait_observation_kept:
  assumes "wait_mutators_observation G s = Some y"
  shows "\<exists>s'. y = Inr s' \<and> regions_kept E items capacity s s'"
proof -
  let ?s = "start_prioritizing (expected_status s) (s\<lparr>expected_status := flip_status G (expected_status s), self_th_status := expected_status s\<rparr>)"
  have pre: "regions_kept E items capacity s ?s" by (rule regions_kept_fields) (simp_all add: start_prioritizing_def)
  obtain z where z: "wait_threads G (expected_status s) ?s = Some z"
    using assms by (cases "wait_threads G (expected_status s) ?s") (simp_all add: wait_mutators_observation_def Let_def)
  obtain s1 where s1: "z = Inr s1" "regions_kept E items capacity ?s s1" using wait_threads_kept [OF z] by blast
  have post: "regions_kept E items capacity s1 (s1\<lparr>self_th_status := GC G\<rparr>)" by (rule regions_kept_fields) simp_all
  have "y = Inr (s1\<lparr>self_th_status := GC G\<rparr>)" using assms z s1(1) by (simp add: wait_mutators_observation_def Let_def)
  then show ?thesis using regions_kept_trans [OF regions_kept_trans [OF pre s1(2)] post] by blast
qed

text \<open>A whole round: it never fails, and all regions are with the manager again.\<close>

lemma round_spec:
  assumes inv: "gc_inv E items capacity N T s" and run: "gc_round G E armed s = Some y"
  shows "\<exists>s'. y = Inr s' \<and> cache_ok E items capacity N s' \<and> region_ids (Rg E) items (cache_region_manager s') = T
    \<and> preempt_cnt s' = (if armed then preempt_cnt s - 1 else preempt_cnt s)"
proof -
  let ?I = "\<lambda>c s. gc_inv E items capacity N T s \<and> preempt_cnt s = c"
  let ?c = "if armed then preempt_cnt s - 1 else preempt_cnt s"
  let ?s0 = "reset_guard armed (start_prioritizing (GC G) s)"
  have I0: "?I ?c ?s0" using inv by (simp add: gc_inv_def cache_ok_def reset_guard_def start_prioritizing_def preempt_enable_def)
  obtain y1 where y1: "mark_fm_ptrs G E armed s = Some y1" using run by (cases "mark_fm_ptrs G E armed s") (simp_all add: gc_round_def)
  have "execute G E (GCParallelMarker_slave_fn G E) ?s0 = Some y1" using y1 by (simp add: mark_fm_ptrs_def Let_def)
  then obtain s1 where s1: "y1 = Inr s1" "?I ?c s1" using keepsD [OF keeps_phases(1) I0] by blast
  obtain y2 where y2: "wait_mutators_observation G s1 = Some y2"
    using run y1 s1(1) by (cases "wait_mutators_observation G s1") (simp_all add: gc_round_def)
  obtain s2 where s2: "y2 = Inr s2" "?I ?c s2" using wait_observation_kept [OF y2] s1(2) by (auto simp: regions_kept_def)
  obtain y3 where y3: "write_back_regions G E s2 = Some y3"
    using run y1 s1(1) y2 s2(1) by (cases "write_back_regions G E s2") (simp_all add: gc_round_def)
  have Ip: "?I ?c (start_prioritizing (GC G) s2)" using s2(2) by (simp add: gc_inv_def cache_ok_def start_prioritizing_def)
  obtain s3 where s3: "y3 = Inr s3" "?I ?c s3"
    using keepsD [OF keeps_phases(2) Ip] y3 by (auto simp: write_back_regions_def)
  have ok3: "cache_ok E items capacity N s3" "list_all (\<lambda>r. \<not> rg_is_invalid (Rg E) r) (from_regions s3)"
    using s3(2) by (simp_all add: gc_inv_def)
  have T3: "region_ids (Rg E) items (cache_region_manager s3) + mset (map region_idx (from_regions s3)) = T" "size T \<le> N"
    using s3(2) by (simp_all add: gc_inv_def)
  then have fit: "size (region_ids (Rg E) items (cache_region_manager s3)) + length (from_regions s3) \<le> N"
    by (metis length_map size_mset size_union)
  obtain s4 where s4: "push_from_regions E [] (from_regions s3) s3 = Inr s4" "cache_ok E items capacity N s4"
      "region_ids (Rg E) items (cache_region_manager s4) = T" "preempt_cnt s4 = preempt_cnt s3"
    using push_from_spec [OF ok3 fit, of "[]"] T3(1) by auto
  have y: "y = Inr (notify_mutators G s4)"
    using run y1 s1(1) y2 s2(1) y3 s3(1) s4(1) by (simp add: gc_round_def)
  have "cache_ok E items capacity N (notify_mutators G s4)" "cache_region_manager (notify_mutators G s4) = cache_region_manager s4"
      "preempt_cnt (notify_mutators G s4) = preempt_cnt s4"
    using s4(2) by (simp_all add: notify_mutators_def cache_ok_def Let_def)
  then show ?thesis using y s4 s3(2) by auto
qed

lemma at_rest_pick:
  assumes "gc_inv E items capacity N T (s\<lparr>from_regions := []\<rparr>)"
  shows "gc_inv E items capacity N T (pick_from_regions G E s)" "preempt_cnt (pick_from_regions G E s) = preempt_cnt s"
    "length (from_regions (pick_from_regions G E s)) \<le> max 1 (num_regions_per_gc_round G (cache_region_manager s))"
proof -
  note p = pick_loop_spec [OF assms, of "num_regions_per_gc_round G (cache_region_manager s)"]
  have eq: "pick_from_regions G E s = pick_loop G E (num_regions_per_gc_round G (cache_region_manager s)) (s\<lparr>from_regions := []\<rparr>)"
    by (simp add: pick_from_regions_def)
  show "gc_inv E items capacity N T (pick_from_regions G E s)" using p eq by simp
  show "preempt_cnt (pick_from_regions G E s) = preempt_cnt s" using p eq by auto
  show "length (from_regions (pick_from_regions G E s)) \<le> max 1 (num_regions_per_gc_round G (cache_region_manager s))"
    using p eq by (auto simp: max_def split: if_splits)
qed

lemma at_rest_intro:
  assumes "cache_ok E items capacity N s" and "region_ids (Rg E) items (cache_region_manager s) = T" and "size T \<le> N"
  shows "gc_inv E items capacity N T (s\<lparr>from_regions := []\<rparr>)"
  using assms by (simp add: gc_inv_def cache_ok_def)

lemma gc_loop_spec:
  assumes "gc_loop G E armed s = Some y" and "gc_inv E items capacity N T (s\<lparr>from_regions := []\<rparr>)"
  shows "\<exists>armed' s'. y = Inr (armed', s') \<and> gc_inv E items capacity N T (s'\<lparr>from_regions := []\<rparr>)
    \<and> preempt_cnt s' - of_bool armed' = preempt_cnt s - of_bool armed \<and> is_free_cache_high G s'"
proof -
  have "G' = G \<longrightarrow> E' = E \<longrightarrow> gc_inv E items capacity N T (s\<lparr>from_regions := []\<rparr>) \<longrightarrow>
      (\<exists>armed' s'. y = Inr (armed', s') \<and> gc_inv E items capacity N T (s'\<lparr>from_regions := []\<rparr>)
        \<and> preempt_cnt s' - of_bool armed' = preempt_cnt s - of_bool armed \<and> is_free_cache_high G s')"
    if "gc_loop G' E' armed s = Some y" for G' E'
  proof (rule gc_loop.raw_induct [OF _ that], goal_cases)
    case (1 f G' E' armed s y)
    show ?case
    proof (intro impI)
      assume e: "G' = G" "E' = E" and inv: "gc_inv E items capacity N T (s\<lparr>from_regions := []\<rparr>)"
      let ?p = "pick_from_regions G E s"
      note pk = at_rest_pick [OF inv]
      show "\<exists>armed' s'. y = Inr (armed', s') \<and> gc_inv E items capacity N T (s'\<lparr>from_regions := []\<rparr>)
        \<and> preempt_cnt s' - of_bool armed' = preempt_cnt s - of_bool armed \<and> is_free_cache_high G s'"
      proof (cases "is_free_cache_high G s")
        case True
        then show ?thesis using 1(2) e inv by auto
      next
        case False
        show ?thesis
        proof (cases "from_regions ?p = []")
          case True
          then have run: "f G E armed (thread_yield G ?p) = Some y" using 1(2) e False by (simp add: Let_def)
          have yk: "regions_kept E items capacity ?p (thread_yield G ?p)" by (rule yield_kept)
          then have "gc_inv E items capacity N T (thread_yield G ?p)" "from_regions (thread_yield G ?p) = []"
              "preempt_cnt (thread_yield G ?p) = preempt_cnt s"
            using pk True by (auto simp: regions_kept_def)
          then have "gc_inv E items capacity N T ((thread_yield G ?p)\<lparr>from_regions := []\<rparr>)"
            by (simp add: gc_inv_def cache_ok_def)
          then show ?thesis using 1(1) [OF run] \<open>preempt_cnt (thread_yield G ?p) = preempt_cnt s\<close> by simp
        next
          case some: False
          then have run: "and_then (gc_round G E armed ?p) (f G E False) = Some y" using 1(2) e False by (simp add: Let_def)
          then obtain z where z: "gc_round G E armed ?p = Some z" by (cases "gc_round G E armed ?p") simp_all
          obtain s1 where s1: "z = Inr s1" "cache_ok E items capacity N s1" "region_ids (Rg E) items (cache_region_manager s1) = T"
              "preempt_cnt s1 = (if armed then preempt_cnt ?p - 1 else preempt_cnt ?p)"
            using round_spec [OF pk(1) z] by blast
          have "size T \<le> N" using inv by (simp add: gc_inv_def)
          then have inv1: "gc_inv E items capacity N T (s1\<lparr>from_regions := []\<rparr>)" using s1 by (intro at_rest_intro)
          have "f G E False s1 = Some y" using run z s1(1) by simp
          from 1(1) [OF this] inv1 obtain armed' s' where "y = Inr (armed', s')" "gc_inv E items capacity N T (s'\<lparr>from_regions := []\<rparr>)"
              "preempt_cnt s' - of_bool armed' = preempt_cnt s1 - of_bool False" "is_free_cache_high G s'" by blast
          moreover have "preempt_cnt s1 - of_bool False = preempt_cnt s - of_bool armed"
            using s1(4) pk(2) by simp
          ultimately show ?thesis by metis
        qed
      qed
    qed
  qed
  then show ?thesis using assms by blast
qed

lemma gc_cache_spec:
  assumes inv: "gc_inv E items capacity N T (s\<lparr>from_regions := []\<rparr>)" and run: "gc_cache G E s = Some y"
  shows "\<exists>s'. y = Inr s' \<and> gc_inv E items capacity N T (s'\<lparr>from_regions := []\<rparr>) \<and> preempt_cnt s' = preempt_cnt s
    \<and> (s' = s\<lparr>self_th_status := GC G\<rparr> \<or> \<not> gc_master_active s' \<and> \<not> gc_master_spawned s' \<and> \<not> global_prioritizing s')"
proof -
  let ?s = "(preempt_disable s)\<lparr>self_th_status := GC G\<rparr>"
  show ?thesis
  proof (cases "\<not> is_free_cache_low G ?s \<or> gc_master_active s")
    case True
    then have "y = Inr (reset_guard True ?s)" using run by (auto simp: gc_cache_def preempt_disable_def Let_def split: if_splits)
    moreover have "reset_guard True ?s = s\<lparr>self_th_status := GC G\<rparr>" by (simp add: reset_guard_def state_ops)
    ultimately show ?thesis using inv by (auto simp: gc_inv_def cache_ok_def)
  next
    case False
    let ?t = "?s\<lparr>gc_master_active := True\<rparr>"
    have invt: "gc_inv E items capacity N T (?t\<lparr>from_regions := []\<rparr>)" using inv by (simp add: gc_inv_def cache_ok_def preempt_disable_def)
    obtain z where z: "gc_loop G E True ?t = Some z"
      using run False by (cases "gc_loop G E True ?t") (auto simp: gc_cache_def preempt_disable_def Let_def)
    obtain armed s1 where s1: "z = Inr (armed, s1)" "gc_inv E items capacity N T (s1\<lparr>from_regions := []\<rparr>)"
        "preempt_cnt s1 - of_bool armed = preempt_cnt ?t - of_bool True"
      using gc_loop_spec [OF z invt] by blast
    let ?u = "(stop_prioritizing s1)\<lparr>gc_master_spawned := False, gc_master_active := False\<rparr>"
    have y: "y = Inr (reset_guard armed ?u)"
      using run False z s1(1) by (auto simp: gc_cache_def preempt_disable_def Let_def)
    have "preempt_cnt (reset_guard armed ?u) = preempt_cnt s"
      using s1(3) by (cases armed) (simp_all add: reset_guard_def stop_prioritizing_def preempt_enable_def preempt_disable_def)
    moreover have "gc_inv E items capacity N T ((reset_guard armed ?u)\<lparr>from_regions := []\<rparr>)"
      using s1(2) by (cases armed) (simp_all add: gc_inv_def cache_ok_def reset_guard_def stop_prioritizing_def preempt_enable_def)
    moreover have "\<not> gc_master_active (reset_guard armed ?u)" "\<not> gc_master_spawned (reset_guard armed ?u)"
        "\<not> global_prioritizing (reset_guard armed ?u)"
      by (cases armed; simp add: reset_guard_def stop_prioritizing_def preempt_enable_def)+
    ultimately show ?thesis using y by blast
  qed
qed

end

text \<open>
  Picking: a round picks at least the first region the scan finds and never more than
  the round's limit, or one where the limit is zero; picked and remaining regions together
  are the ones there were.
\<close>

theorem picked_regions_conserved:
  assumes "gc_env E items capacity contents G" and "cache_ok E items capacity N s"
    and "size (region_ids (Rg E) items (cache_region_manager s)) \<le> N"
  shows "region_ids (Rg E) items (cache_region_manager (pick_from_regions G E s))
      + mset (map region_idx (from_regions (pick_from_regions G E s))) = region_ids (Rg E) items (cache_region_manager s)
    \<and> length (from_regions (pick_from_regions G E s)) \<le> max 1 (num_regions_per_gc_round G (cache_region_manager s))
    \<and> cache_ok E items capacity N (pick_from_regions G E s)"
proof -
  have "gc_inv E items capacity N (region_ids (Rg E) items (cache_region_manager s)) (s\<lparr>from_regions := []\<rparr>)"
    using assms(2,3) by (simp add: gc_inv_def cache_ok_def)
  from gc_env.at_rest_pick [OF assms(1) this] show ?thesis by (simp add: gc_inv_def)
qed


text \<open>
  C28 (lost launch): a collector spawned from a thread with preemption disabled that finds the
  cache no longer low returns without clearing \<^verbatim>\<open>gc_master_spawned_\<close>. From then on, as long
  as no collection runs to its end, a launch with preemption disabled does nothing, however
  low the cache.
\<close>

theorem spawned_flag_sticks:
  assumes "\<And>t. cache_region_manager t = cache_region_manager s \<Longrightarrow> \<not> is_free_cache_low G t" and "gc_master_spawned s"
  shows "\<exists>s'. gc_thread G E s = Some (Inr s') \<and> gc_master_spawned s' \<and> preempt_cnt s' = preempt_cnt s \<and> pending_gcs s' = pending_gcs s
    \<and> (\<forall>t. gc_master_spawned t = gc_master_spawned s' \<longrightarrow> preempt_cnt t \<noteq> 0 \<longrightarrow> launch_gc_master G E t = Some (Inr t))"
proof -
  let ?s = "(preempt_disable (s\<lparr>pending_gcs := pending_gcs s + 1\<rparr>))\<lparr>self_th_status := GC G\<rparr>"
  have "cache_region_manager ?s = cache_region_manager s" by (simp add: preempt_disable_def)
  then have "gc_cache G E (s\<lparr>pending_gcs := pending_gcs s + 1\<rparr>) = Some (Inr (reset_guard True ?s))"
    using assms(1) by (simp add: gc_cache_def)
  then show ?thesis using assms(2)
    by (auto simp: gc_thread_def reset_guard_def preempt_enable_def preempt_disable_def launch_gc_master_def)
qed

section \<open>What marking does\<close>

text \<open>
  The objects a walk meets between \<open>cur\<close> and \<open>right\<close>: each begins where the one before it,
  rounded up, ends.
\<close>

fun object_chain :: "('q, 'd) gc_ext \<Rightarrow> ('q, 'd) ext \<Rightarrow> heap \<Rightarrow> addr \<Rightarrow> addr \<Rightarrow> addr list \<Rightarrow> bool" where
  "object_chain G E h right cur [] \<longleftrightarrow> \<not> cur + of_nat (ob_kHeaderSize (Ob E)) < right"
| "object_chain G E h right cur (a # as) \<longleftrightarrow> a = cur \<and> cur + of_nat (ob_kHeaderSize (Ob E)) < right
     \<and> object_chain G E h right (cur + align_to G (ucast (ob_size (Ob E) h cur)) (of_nat 8)) as"

definition live_ptrs :: "('q, 'd) ext \<Rightarrow> ('q, 'd) fm_state \<Rightarrow> addr list \<Rightarrow> addr set" where
  "live_ptrs E s as = (\<Union>a \<in> {a \<in> set as. \<not> ob_is_freed (Ob E) (heap s) a}. set (ptr_targets E (ob_get_ptr_addr (Ob E) (heap s) a) s))"

definition marked_of :: "('q, 'd) ext \<Rightarrow> u64 \<Rightarrow> u64 \<Rightarrow> bool" where
  "marked_of E m m' \<longleftrightarrow> pt_is_present (Pt E) m' \<and> pt_is_evacuation (Pt E) m'
     \<and> pt_get_object_addr (Pt E) m' = pt_get_object_addr (Pt E) m
     \<and> pt_is_shared (Pt E) m' = pt_is_shared (Pt E) m \<and> pt_is_dirty (Pt E) m' = pt_is_dirty (Pt E) m"

context manager_env
begin

lemma fold_mark:
  assumes "\<And>t. t \<in> set ts \<Longrightarrow> pt_is_present (Pt E) (metas s t)"
  shows "\<exists>ms. fold (upd_meta (pt_set_evacuation (Pt E))) ts s = s\<lparr>metas := ms\<rparr>
    \<and> (\<forall>q. if q \<in> set ts then marked_of E (metas s q) (ms q) else ms q = metas s q)"
  using assms
proof (induction ts arbitrary: s)
  case Nil
  show ?case by (intro exI [of _ "metas s"]) simp
next
  case (Cons t ts)
  let ?m = "pt_set_evacuation (Pt E) (metas s t)"
  let ?s = "s\<lparr>metas := (metas s)(t := ?m)\<rparr>"
  have mt: "marked_of E (metas s t) ?m" using set_evacuation Cons.prems [of t] by (simp add: marked_of_def)
  have "pt_is_present (Pt E) (metas ?s u)" if "u \<in> set ts" for u
    using that Cons.prems [of u] mt by (auto simp: marked_of_def)
  then obtain ms where ms: "fold (upd_meta (pt_set_evacuation (Pt E))) ts ?s = ?s\<lparr>metas := ms\<rparr>"
      "\<forall>q. if q \<in> set ts then marked_of E (metas ?s q) (ms q) else ms q = metas ?s q"
    using Cons.IH [of ?s] by blast
  have "fold (upd_meta (pt_set_evacuation (Pt E))) (t # ts) s = s\<lparr>metas := ms\<rparr>" using ms(1) by (simp add: upd_meta_def)
  moreover have "if q \<in> set (t # ts) then marked_of E (metas s q) (ms q) else ms q = metas s q" for q
    using ms(2) [rule_format, of q] mt by (cases "q = t"; cases "q \<in> set ts") (auto simp: marked_of_def)
  ultimately show ?case by blast
qed

lemma visit_mark:
  assumes lock: "\<And>oid. lock_wait E oid s = Some s" and locks: "obj_locks s = {}"
    and there: "\<And>t. t \<in> live_ptrs E s [a] \<Longrightarrow> pt_is_present (Pt E) (metas s t)"
  shows "\<exists>ms. visit_object E (mark_pointers E) a s = Some (Inr (s\<lparr>metas := ms\<rparr>))
    \<and> (\<forall>q. if q \<in> live_ptrs E s [a] then marked_of E (metas s q) (ms q) else ms q = metas s q)"
proof (cases "ob_is_freed (Ob E) (heap s) a")
  case True
  then show ?thesis by (intro exI [of _ "metas s"]) (simp add: visit_object_def live_ptrs_def)
next
  case False
  let ?k = "rd_bytes (heap s) (ob_get_obj_id (Ob E) (heap s) a) (unat (ob_get_obj_id_len (Ob E) (heap s) a))"
  let ?s = "s\<lparr>obj_locks := {?k}\<rparr>" and ?ts = "ptr_targets E (ob_get_ptr_addr (Ob E) (heap s) a) s"
  have ts: "live_ptrs E s [a] = set ?ts" using False by (auto simp: live_ptrs_def)
  have ts': "ptr_targets E (ob_get_ptr_addr (Ob E) (heap s) a) ?s = ?ts" by (simp add: ptr_targets_def)
  obtain ms where ms: "fold (upd_meta (pt_set_evacuation (Pt E))) ?ts ?s = ?s\<lparr>metas := ms\<rparr>"
      "\<forall>q. if q \<in> set ?ts then marked_of E (metas ?s q) (ms q) else ms q = metas ?s q"
    using fold_mark [of ?ts ?s] there ts by auto
  have st: "unlock_object ?k (?s\<lparr>metas := ms\<rparr>) = s\<lparr>metas := ms\<rparr>" using locks by (simp add: unlock_object_def)
  have "visit_object E (mark_pointers E) a s = Some (Inr (unlock_object ?k (?s\<lparr>metas := ms\<rparr>)))"
    using False lock locks ms(1) ts' by (simp add: visit_object_def lock_object_def mark_pointers_def Let_def)
  then show ?thesis using st ms(2) ts by (intro exI [of _ ms]) (simp cong: if_cong)
qed

lemma walk_mark:
  assumes lock: "\<And>oid t. obj_locks t = {} \<Longrightarrow> lock_wait E oid t = Some t" and locks: "obj_locks s = {}"
    and chain: "object_chain G E (heap s) right cur as"
    and there: "\<And>t. t \<in> live_ptrs E s as \<Longrightarrow> pt_is_present (Pt E) (metas s t)"
  shows "\<exists>ms. walk_objects G E (mark_pointers E) right cur s = Some (Inr (s\<lparr>metas := ms\<rparr>))
    \<and> (\<forall>q. if q \<in> live_ptrs E s as then marked_of E (metas s q) (ms q) else ms q = metas s q)"
  using locks chain there
proof (induction as arbitrary: s cur)
  case Nil
  then have "walk_objects G E (mark_pointers E) right cur s = Some (Inr s)" by (subst walk_objects.simps) simp
  then show ?case by (intro exI [of _ "metas s"]) (simp add: live_ptrs_def)
next
  case (Cons a as)
  have a: "a = cur" "cur + of_nat (ob_kHeaderSize (Ob E)) < right"
    and rest: "object_chain G E (heap s) right (cur + align_to G (ucast (ob_size (Ob E) (heap s) cur)) (of_nat 8)) as"
    using Cons.prems(2) by simp_all
  have split: "live_ptrs E s (a # as) = live_ptrs E s [a] \<union> live_ptrs E s as" by (auto simp: live_ptrs_def)
  obtain ms where v: "visit_object E (mark_pointers E) a s = Some (Inr (s\<lparr>metas := ms\<rparr>))"
      "\<forall>q. if q \<in> live_ptrs E s [a] then marked_of E (metas s q) (ms q) else ms q = metas s q"
    using visit_mark [OF lock [OF Cons.prems(1)] Cons.prems(1), of a] Cons.prems(3) split by blast
  let ?s = "s\<lparr>metas := ms\<rparr>"
  have sh: "pt_is_shared (Pt E) (ms q) = pt_is_shared (Pt E) (metas s q)" for q
    using v(2) [rule_format, of q] by (cases "q \<in> live_ptrs E s [a]") (auto simp: marked_of_def)
  have "ptr_targets E q ?s = ptr_targets E q s" for q
    using sh [of q] by (cases "pt_is_shared (Pt E) (metas s q)") (simp_all add: ptr_targets_def)
  then have same: "live_ptrs E ?s as = live_ptrs E s as" by (simp add: live_ptrs_def)
  have there1: "pt_is_present (Pt E) (metas ?s t)" if "t \<in> live_ptrs E ?s as" for t
    using v(2) [rule_format, of t] Cons.prems(3) [of t] that same split
    by (cases "t \<in> live_ptrs E s [a]") (auto simp: marked_of_def)
  let ?next = "cur + align_to G (ucast (ob_size (Ob E) (heap s) cur)) (of_nat 8)"
  have "\<exists>ms'. walk_objects G E (mark_pointers E) right ?next ?s = Some (Inr (?s\<lparr>metas := ms'\<rparr>))
      \<and> (\<forall>q. if q \<in> live_ptrs E ?s as then marked_of E (metas ?s q) (ms' q) else ms' q = metas ?s q)"
    by (rule Cons.IH) (use Cons.prems(1) rest there1 in simp_all)
  then obtain ms' where w: "walk_objects G E (mark_pointers E) right ?next ?s = Some (Inr (s\<lparr>metas := ms'\<rparr>))"
      "\<forall>q. if q \<in> live_ptrs E s as then marked_of E (ms q) (ms' q) else ms' q = ms q"
    unfolding same by (auto cong: if_cong simp del: if_split)
  have "walk_objects G E (mark_pointers E) right cur s = Some (Inr (s\<lparr>metas := ms'\<rparr>))"
    using a v(1) w(1) by (subst walk_objects.simps) simp
  moreover have "if q \<in> live_ptrs E s (a # as) then marked_of E (metas s q) (ms' q) else ms' q = metas s q" for q
    using v(2) [rule_format, of q] w(2) [rule_format, of q] split
    by (cases "q \<in> live_ptrs E s [a]"; cases "q \<in> live_ptrs E s as") (auto simp: marked_of_def)
  ultimately show ?case by blast
qed

end

text \<open>
  Marking: when the object locks are free, the marker's walk over a well-formed stretch
  of objects returns and marks for evacuation exactly the pointers of the objects that are
  not freed, all of a ring where the object is shared. Nothing else about these pointers
  changes, and no other state does.
\<close>

theorem marker_marks_live_pointers:
  assumes "manager_env E items capacity contents"
    and "\<And>oid t. obj_locks t = {} \<Longrightarrow> lock_wait E oid t = Some t" and "obj_locks s = {}"
    and "object_chain G E (heap s) right left as"
    and "\<And>t. t \<in> live_ptrs E s as \<Longrightarrow> pt_is_present (Pt E) (metas s t)"
  shows "\<exists>ms. GCParallelMarker_slave_fn G E [(left, right)] s = Some (Inr (s\<lparr>metas := ms\<rparr>))
    \<and> (\<forall>q. if q \<in> live_ptrs E s as then marked_of E (metas s q) (ms q) else ms q = metas s q)"
  using manager_env.walk_mark [OF assms] by (fastforce simp: slave_defs)

section \<open>Instances\<close>

text \<open>
  A collector that wants two free regions and takes one region a round; the slaves finish
  the tasks in order and no other thread runs.
\<close>

definition demo_gc :: "(ring, u8 \<times> u8 list \<Rightarrow> u8 list option) gc_ext" where
  "demo_gc = \<lparr>kMinRatioRegionsPerGCRound = 0, kMaxRatioRegionsPerGCRound = 0, kFreeCacheHighThresh = 0,
     kMaxNumRegionsPerGCRound = 1, kPickRegionMaxRetryTimes = 3, get_free_region_ratio = (\<lambda>m. 0),
     get_num_regions = (\<lambda>m. 3), is_free_cache_low = (\<lambda>s. length (ring_items (free_regions (cache_region_manager s))) < 2),
     is_free_cache_high = (\<lambda>s. 2 \<le> length (ring_items (free_regions (cache_region_manager s)))),
     is_free_cache_almost_empty = (\<lambda>s. ring_items (free_regions (cache_region_manager s)) = []),
     GC = 3, flip_status = (\<lambda>n. 1 - n), get_num_threads = (\<lambda>st s. 0), seen_by_scan = (\<lambda>s _. heap s),
     align_to = (\<lambda>x n. (x + n - 1) div n * n), run_order = (\<lambda>s tasks. tasks), thread_yield = (\<lambda>s. s),
     park_and_switch = (\<lambda>f s. f s), rt_spawn = (\<lambda>f s. s)\<rparr>"

lemma demo_gc_simps [simp]:
  "kMaxNumRegionsPerGCRound demo_gc = 1" "kPickRegionMaxRetryTimes demo_gc = 3"
  "is_free_cache_low demo_gc s \<longleftrightarrow> length (ring_items (free_regions (cache_region_manager s))) < 2"
  "is_free_cache_high demo_gc s \<longleftrightarrow> 2 \<le> length (ring_items (free_regions (cache_region_manager s)))"
  "is_free_cache_almost_empty demo_gc s \<longleftrightarrow> ring_items (free_regions (cache_region_manager s)) = []"
  "get_num_threads demo_gc st s = 0" "seen_by_scan demo_gc s = (\<lambda>_. heap s)" "run_order demo_gc s tasks = tasks"
  "thread_yield demo_gc s = s"
  by (simp_all add: demo_gc_def)

interpretation demo_collector: gc_env demo_ext ring_items ring_cap "\<lambda>d. d" demo_gc
proof
  show "regions_kept demo_ext ring_items ring_cap s (snd (evac_fn demo_ext f a w s))" for f a w s
    by (simp add: demo_ext_def)
  show "regions_kept demo_ext ring_items ring_cap s (copy_fn demo_ext f a b s)" for f a b s
    by (simp add: demo_ext_def)
qed (auto split: if_splits)

lemma demo_picks:
  fixes a c st gs
  defines "s \<equiv> (demo_fm [demo_region 0] gs)\<lparr>gc_master_active := a, preempt_cnt := c, self_th_status := st\<rparr>"
  shows "from_regions (pick_from_regions demo_gc demo_ext s) = [demo_region 2]"
    "free_regions (cache_region_manager (pick_from_regions demo_gc demo_ext s)) = demo_queue [demo_region 0]"
    "gc_master_active (pick_from_regions demo_gc demo_ext s) = a"
proof -
  obtain m where p: "pop_used_region layout_regions ring_ops 3 (\<lambda>_ _. 0)
      (demo_rm [demo_region 0] [demo_region 1] [demo_region 2]) = (Some (demo_region 2), m)"
    using demo_pop by (cases "pop_used_region layout_regions ring_ops 3 (\<lambda>_ _. 0) (demo_rm [demo_region 0] [demo_region 1] [demo_region 2])") auto
  have f: "free_regions m = demo_queue [demo_region 0]"
    using ring_regions.pop_used_conserves [OF demo_rm_wf p] by (simp add: demo_rm_def)
  have "num_regions_per_gc_round demo_gc m \<le> 1" for m :: "ring RegionManager"
    by (simp add: num_regions_per_gc_round_def Let_def min_def word_le_nat_alt)
  then have n: "\<not> Suc 0 < num_regions_per_gc_round demo_gc m" for m :: "ring RegionManager" by (simp add: not_less)
  have "pick_from_regions demo_gc demo_ext s = s\<lparr>from_regions := [demo_region 2], cache_region_manager := m\<rparr>"
    using p n by (simp add: s_def pick_from_regions_def pick_loop.simps [of demo_gc demo_ext] Let_def)
  then show "from_regions (pick_from_regions demo_gc demo_ext s) = [demo_region 2]"
    "free_regions (cache_region_manager (pick_from_regions demo_gc demo_ext s)) = demo_queue [demo_region 0]"
    "gc_master_active (pick_from_regions demo_gc demo_ext s) = a"
    using f by (simp_all add: s_def)
qed

theorem picked_regions_conserved_witness:
  "map region_idx (from_regions (pick_from_regions demo_gc demo_ext (demo_fm [demo_region 0] []))) = [2]
   \<and> region_ids layout_regions ring_items (cache_region_manager (pick_from_regions demo_gc demo_ext (demo_fm [demo_region 0] []))) + {#2#}
     = region_ids layout_regions ring_items (demo_rm [demo_region 0] [demo_region 1] [demo_region 2])"
proof -
  have e: "demo_fm [demo_region 0] [] = (demo_fm [demo_region 0] [])\<lparr>gc_master_active := False, preempt_cnt := 0, self_th_status := 0\<rparr>"
    by (simp add: demo_fm_def)
  have f: "from_regions (pick_from_regions demo_gc demo_ext (demo_fm [demo_region 0] [])) = [demo_region 2]"
    using demo_picks(1) [where gs = "[]" and a = False and c = 0 and st = 0] by (subst e)
  have "size (region_ids (Rg demo_ext) ring_items (cache_region_manager (demo_fm [demo_region 0] []))) \<le> 50"
    by (simp add: region_ids_split valid_ids_default) (simp add: demo_rm_def demo_queue_items kInvalidIdx_def)
  from picked_regions_conserved [OF demo_collector.gc_env_axioms demo_cache_ok this] f show ?thesis by simp
qed

lemma demo_execute: "from_regions t = [demo_region 2] \<Longrightarrow> execute demo_gc demo_ext (slave_fn demo_gc demo_ext act) t = Some (Inr t)"
proof -
  have "num_boundaries (demo_region 2) = 0" by (simp add: demo_region_def layout_regions_def)
  moreover assume "from_regions t = [demo_region 2]"
  ultimately show ?thesis by (simp add: execute_def master_fn_def layout_regions_def)
qed

lemma demo_round:
  assumes ok: "cache_ok demo_ext ring_items ring_cap N s" and picked: "from_regions s = [demo_region 2]"
    and room: "size (region_ids layout_regions ring_items (cache_region_manager s)) < N"
  shows "\<exists>s'. gc_round demo_gc demo_ext armed s = Some (Inr s')
    \<and> length (ring_items (free_regions (cache_region_manager s'))) = Suc (length (ring_items (free_regions (cache_region_manager s))))"
proof -
  let ?s1 = "reset_guard armed (start_prioritizing (GC demo_gc) s)"
  have s1: "cache_region_manager ?s1 = cache_region_manager s" "cur_slot ?s1 = cur_slot s" "from_regions ?s1 = [demo_region 2]"
    using picked by (simp_all add: reset_guard_def start_prioritizing_def preempt_enable_def)
  obtain u where w: "wait_mutators_observation demo_gc ?s1 = Some (Inr u)" and u: "cache_region_manager u = cache_region_manager s"
      "cur_slot u = cur_slot s" "from_regions u = [demo_region 2]"
    using s1 by (simp add: wait_mutators_observation_def wait_threads.simps start_prioritizing_def Let_def)
  let ?v = "start_prioritizing (GC demo_gc) u"
  have v: "cache_ok demo_ext ring_items ring_cap N ?v" "from_regions ?v = [demo_region 2]" "cache_region_manager ?v = cache_region_manager s"
    using ok u by (simp_all add: cache_ok_def start_prioritizing_def)
  obtain s' where s': "push_from_regions demo_ext [] [demo_region 2] ?v = Inr s'"
      and ps: "\<exists>ps. ring_items (free_regions (cache_region_manager s')) = ring_items (free_regions (cache_region_manager s)) @ ps
        \<and> map region_idx ps = [2]"
    using demo_collector.push_from_spec [OF v(1), of "[demo_region 2]" "[]"] room v(3) by (auto simp: kInvalidIdx_def)
  have "gc_round demo_gc demo_ext armed s = Some (Inr (notify_mutators demo_gc s'))"
    using w s' s1 v by (simp add: gc_round_def mark_fm_ptrs_def write_back_regions_def slave_defs demo_execute Let_def)
  moreover have "length (ring_items (free_regions (cache_region_manager s'))) = Suc (length (ring_items (free_regions (cache_region_manager s))))"
    using ps by (auto simp del: length_ring_items)
  ultimately show ?thesis by (simp add: notify_mutators_def Let_def)
qed

lemma demo_ids: "size (region_ids layout_regions ring_items (demo_rm [demo_region 0] [demo_region 1] [demo_region 2])) = 3"
  by (simp add: region_ids_split valid_ids_default) (simp add: demo_rm_def demo_queue_items kInvalidIdx_def)

lemma demo_collects:
  "\<exists>s'. gc_cache demo_gc demo_ext (demo_fm [demo_region 0] []) = Some (Inr s') \<and> \<not> gc_master_active s'"
proof -
  let ?s = "(demo_fm [demo_region 0] [])\<lparr>gc_master_active := True, preempt_cnt := 1, self_th_status := 3\<rparr>"
  let ?t = "pick_from_regions demo_gc demo_ext ?s"
  note picked = demo_picks [where gs = "[]" and a = True and c = 1 and st = 3]
  have wf: "gc_inv demo_ext ring_items ring_cap 50 (region_ids layout_regions ring_items (demo_rm [demo_region 0] [demo_region 1] [demo_region 2])) (?s\<lparr>from_regions := []\<rparr>)"
    using demo_cache_ok [of "[]"] demo_ids by (simp add: gc_inv_def cache_ok_def)
  have T: "gc_inv demo_ext ring_items ring_cap 50 (region_ids layout_regions ring_items (demo_rm [demo_region 0] [demo_region 1] [demo_region 2])) ?t"
    using demo_collector.at_rest_pick(1) [OF wf] by simp
  then have ok: "cache_ok demo_ext ring_items ring_cap 50 ?t" by (simp add: gc_inv_def)
  have "size (region_ids layout_regions ring_items (cache_region_manager ?t)) < 50"
    using arg_cong [OF T [unfolded gc_inv_def, THEN conjunct2, THEN conjunct2, THEN conjunct1], of size] picked(1) demo_ids by simp
  from demo_round [OF ok picked(1) this, of True] obtain s' where r: "gc_round demo_gc demo_ext True ?t = Some (Inr s')"
      "length (ring_items (free_regions (cache_region_manager s'))) = 2"
    using picked(2) arg_cong [OF demo_queue_items [of "[demo_region 0]"], of length] by auto
  have "\<not> is_free_cache_high demo_gc ?s" by simp
  then have "gc_loop demo_gc demo_ext True ?s = gc_loop demo_gc demo_ext False s'"
    using r(1) picked(1) by (subst gc_loop.simps) simp
  also have "\<dots> = Some (Inr (False, s'))" using r(2) by (subst gc_loop.simps) simp
  finally have loop: "gc_loop demo_gc demo_ext True ?s = Some (Inr (False, s'))" .
  have e: "(preempt_disable (demo_fm [demo_region 0] []))\<lparr>self_th_status := GC demo_gc, gc_master_active := True\<rparr> = ?s"
    by (simp add: preempt_disable_def demo_fm_def demo_gc_def)
  have "\<not> gc_master_active (preempt_disable (demo_fm [demo_region 0] []))" by (simp add: preempt_disable_def demo_fm_def)
  moreover have "is_free_cache_low demo_gc ((preempt_disable (demo_fm [demo_region 0] []))\<lparr>self_th_status := GC demo_gc\<rparr>)"
    by (simp add: preempt_disable_def demo_free del: length_ring_items)
  ultimately have "gc_cache demo_gc demo_ext (demo_fm [demo_region 0] [])
      = Some (Inr (reset_guard False ((stop_prioritizing s')\<lparr>gc_master_spawned := False, gc_master_active := False\<rparr>)))"
    using loop by (simp add: gc_cache_def e Let_def del: demo_gc_simps)
  then show ?thesis by (simp add: reset_guard_def)
qed


text \<open>The object of \<open>demo_present\<close> with its header filled in: it belongs to the pointer at 64.\<close>

definition demo_owned :: "(ring, u8 \<times> u8 list \<Rightarrow> u8 list option) fm_state" where
  "demo_owned = (demo_present True)\<lparr>heap := wr_bytes (heap (demo_present True)) 2054 (u64_bytes 64)\<rparr>"

lemma demo_owned_object:
  "ob_get_ptr_addr byte_objects (heap demo_owned) 2054 = 64" "\<not> ob_is_freed byte_objects (heap demo_owned) 2054"
  "obj_view byte_objects (heap demo_owned) 2054 = (5, u64_bytes 9, [1, 2, 3])"
  "obj_ok byte_objects (heap demo_owned) 2054" "ob_size byte_objects (heap demo_owned) 2054 = 23"
  "metas demo_owned = metas (demo_present True)" "obj_locks demo_owned = {}"
proof -
  have own: "rd_u64 (heap demo_owned) 2054 = 64"
    using rd_wr_same [of 8 "u64_bytes 64" "heap (demo_present True)" 2054] by (simp add: demo_owned_def rd_u64_def)
  then show "ob_get_ptr_addr byte_objects (heap demo_owned) 2054 = 64" "\<not> ob_is_freed byte_objects (heap demo_owned) 2054"
    by (simp_all add: byte_objects_def)
  have rest: "heap demo_owned (2054 + of_nat i) = heap (demo_present True) (2054 + of_nat i)" if "8 \<le> i" "i < 2 ^ 16" for i
    unfolding demo_owned_def by (simp, rule wr_bytes_outside) (use that in \<open>simp add: outside_def unat_of_nat_u64\<close>)
  have "obj_view byte_objects (heap demo_owned) 2054 = obj_view byte_objects (heap (demo_present True)) 2054"
  proof (rule bo_view_agree(4), rule rest)
    fix i
    assume "i < 12 + unat (bo_len (heap (demo_present True)) 2054) + unat (heap (demo_present True) (2054 + 11))"
    then show "i < 2 ^ 16"
      using bo_size [OF demo_present_size(1) [of True]] unat_u16_less [of "ob_size byte_objects (heap (demo_present True)) 2054"] by simp
  qed
  then show view: "obj_view byte_objects (heap demo_owned) 2054 = (5, u64_bytes 9, [1, 2, 3])" by (simp only: demo_present_view)
  then show ok: "obj_ok byte_objects (heap demo_owned) 2054" by (simp add: obj_ok_def obj_view_def)
  have "unat (ob_size byte_objects (heap demo_owned) 2054) = 23" using bytes.size_view [OF ok] view by (simp add: obj_view_def)
  then show "ob_size byte_objects (heap demo_owned) 2054 = 23" by (simp add: word_unat_eq_iff)
qed (simp_all add: demo_owned_def)

theorem marker_marks_live_pointers_witness:
  "\<exists>ms. GCParallelMarker_slave_fn demo_gc demo_ext [(2054, 2086)] demo_owned = Some (Inr (demo_owned\<lparr>metas := ms\<rparr>))
    \<and> pt_is_evacuation format_ptrs (ms 64) \<and> pt_get_object_addr format_ptrs (ms 64) = 2054"
proof -
  note o = demo_owned_object
  have chain: "object_chain demo_gc demo_ext (heap demo_owned) 2086 2054 [2054]"
    by (simp add: o(5) demo_gc_def)
  have live: "live_ptrs demo_ext demo_owned [2054] = {64}"
    using o(1,2,6) demo_present_meta(5) [of True] by (auto simp: live_ptrs_def ptr_targets_def simp del: demo_present_simps)
  from marker_marks_live_pointers [OF demo_env _ o(7) chain] live o(6) demo_present_meta(1,6) [of True]
  show ?thesis by (auto simp: marked_of_def simp del: demo_present_simps split: if_splits)
qed

theorem spawned_flag_sticks_witness:
  "\<exists>s'. gc_thread demo_gc demo_ext ((demo_fm [demo_region 0, demo_region 4] [])\<lparr>gc_master_spawned := True\<rparr>) = Some (Inr s')
    \<and> gc_master_spawned s'
    \<and> (\<forall>t. gc_master_spawned t \<longrightarrow> preempt_cnt t = 1 \<longrightarrow> launch_gc_master demo_gc demo_ext t = Some (Inr t))"
proof -
  have "\<not> is_free_cache_low demo_gc t"
    if "cache_region_manager t = cache_region_manager ((demo_fm [demo_region 0, demo_region 4] [])\<lparr>gc_master_spawned := True\<rparr>)" for t
    using that by simp
  from spawned_flag_sticks [OF this] show ?thesis by fastforce
qed

end
