(* ===== verification/Fm_Space.thy ===== *)
theory Fm_Space
  imports Fm_Gc
begin

text \<open>
  Which bytes of the cache are free. A ghost account of the space: a region has an \<open>area\<close>, the
  bytes it covers, and in it \<open>room\<close>, the bytes it may still hand out. As long as the room of
  every region is apart from the bytes in use, what an allocation returns is apart from
  them too.
\<close>

section \<open>Areas and room\<close>

definition addr_range :: "addr \<Rightarrow> nat \<Rightarrow> addr set" where
  "addr_range a n = {x. \<not> outside a n x}"

locale region_space =
  fixes R :: region_ops and area :: "Region \<Rightarrow> addr set" and room :: "Region \<Rightarrow> addr set"
  assumes room_area: "room r \<subseteq> area r"
    and alloc_room: "rg_allocate_object R sz r h = (Some a, r', h') \<Longrightarrow>
      addr_range a (unat sz) \<subseteq> room r \<and> room r' \<subseteq> room r - addr_range a (unat sz) \<and> area r' = area r"
    and alloc_full: "rg_allocate_object R sz r h = (None, r', h') \<Longrightarrow> room r' \<subseteq> room r \<and> area r' = area r"
    and set_nt_room: "room (fst (rg_set_nt R r h)) = room r \<and> area (fst (rg_set_nt R r h)) = area r"
    and reset_area: "area (fst (rg_reset R r h)) = area r"

text \<open>
  \<open>T\<close> gives each region index its territory, \<open>X\<close> are the bytes in use: the region lies in its
  territory and its room is apart from \<open>X\<close>.
\<close>

definition spaced :: "(Region \<Rightarrow> addr set) \<Rightarrow> (Region \<Rightarrow> addr set) \<Rightarrow> (u32 \<Rightarrow> addr set) \<Rightarrow> addr set \<Rightarrow> Region \<Rightarrow> bool" where
  "spaced area room T X r \<longleftrightarrow> area r \<subseteq> T (region_idx r) \<and> room r \<inter> X = {}"

definition all_valid :: "region_ops \<Rightarrow> ('q \<Rightarrow> Region list) \<Rightarrow> (Region \<Rightarrow> bool) \<Rightarrow> 'q RegionManager \<Rightarrow> bool" where
  "all_valid R items P m \<longleftrightarrow> (\<forall>r \<in># owned_regions items m. \<not> rg_is_invalid R r \<longrightarrow> P r)"

definition space_ok :: "region_ops \<Rightarrow> ('q \<Rightarrow> Region list) \<Rightarrow> (Region \<Rightarrow> addr set) \<Rightarrow> (Region \<Rightarrow> addr set) \<Rightarrow>
   (u32 \<Rightarrow> addr set) \<Rightarrow> addr set \<Rightarrow> 'q RegionManager \<Rightarrow> bool" where
  "space_ok R items area room T X m \<longleftrightarrow> all_valid R items (spaced area room T X) m \<and> (\<forall>i. count (region_ids R items m) i \<le> 1)"

lemma spaced_mono: "spaced area room T X r \<Longrightarrow> Y \<subseteq> X \<Longrightarrow> spaced area room T Y r"
  by (auto simp: spaced_def)

lemma space_ok_mono: "space_ok R items area room T X m \<Longrightarrow> Y \<subseteq> X \<Longrightarrow> space_ok R items area room T Y m"
  by (auto simp: space_ok_def all_valid_def intro: spaced_mono)

section \<open>Regions move\<close>

lemma slot_owned:
  assumes "slot_core sl < kNumCPUs"
  shows "get_slot m sl \<in># core_regions m"
  using assms by (cases sl) (auto simp: core_regions_def get_slot.simps)

lemma owned_set_slot:
  assumes "slot_core sl < kNumCPUs"
  obtains M where "owned_regions items m = add_mset (get_slot m sl) M"
    and "\<And>r. owned_regions items (set_slot m sl r) = add_mset r M"
proof -
  let ?Q = "mset (items (free_regions m)) + mset (items (used_regions m)) + mset (items (nt_used_regions m))"
  let ?M = "?Q + (core_regions m - {#get_slot m sl#})"
  have c: "core_regions m = add_mset (get_slot m sl) (core_regions m - {#get_slot m sl#})"
    using insert_DiffM [OF slot_owned [OF assms, of m]] by simp
  have upd: "core_regions (set_slot m sl r) = add_mset r (core_regions m - {#get_slot m sl#})" for r
  proof -
    have "add_mset (get_slot m sl) (core_regions (set_slot m sl r)) = add_mset (get_slot m sl) (add_mset r (core_regions m - {#get_slot m sl#}))"
      using core_regions_set_slot [OF assms, of m r] arg_cong [OF c, of "add_mset r"] by (simp add: add_mset_commute)
    then show ?thesis by simp
  qed
  show thesis
  proof (rule that)
    show "owned_regions items m = add_mset (get_slot m sl) ?M" unfolding owned_regions_def using c by simp
    show "owned_regions items (set_slot m sl r) = add_mset r ?M" for r by (simp add: owned_regions_def upd)
  qed
qed

lemma core_set_slot_mem: "slot_core sl < kNumCPUs \<Longrightarrow> x \<in># core_regions (set_slot m sl r) \<Longrightarrow> x = r \<or> x \<in># core_regions m"
  using core_regions_set_slot [of sl m r] by (metis union_iff union_single_eq_member set_mset_single singletonD)

lemma all_valid_spin [simp]: "all_valid R items P (m\<lparr>region_spin := b\<rparr>) = all_valid R items P m"
  by (simp add: all_valid_def owned_regions_def)

context region_env
begin

lemma retire_all_valid:
  assumes "all_valid R items P m" and "slot_core full < kNumCPUs" and "retire_region R C full h m = Inr m'"
  shows "all_valid R items P m'"
proof -
  let ?r = "get_slot m full"
  have own: "?r \<in># owned_regions items m" using slot_owned [OF assms(2), of m] by (simp add: owned_regions_def)
  show ?thesis
  proof (cases "rg_is_invalid R ?r")
    case True
    then have "m' = m" using assms(3) by (simp add: retire_region_def)
    then show ?thesis using assms(1) by simp
  next
    case False
    have queued: "all_valid R items P (set_slot (u q) full r')"
      if "cb_push_back C ?r (f m) = (True, r', q)" and "items q = items (f m) @ [?r]" and "rg_is_invalid R r'"
        and "u = (\<lambda>q. m\<lparr>nt_used_regions := q\<rparr>) \<and> f = nt_used_regions \<or> u = (\<lambda>q. m\<lparr>used_regions := q\<rparr>) \<and> f = used_regions" for u f r' q
      using that(4)
    proof (elim disjE conjE)
      assume "u = (\<lambda>q. m\<lparr>nt_used_regions := q\<rparr>)" "f = nt_used_regions"
      then show ?thesis using assms(1) own that(2,3) core_set_slot_mem [OF assms(2), of _ "u q" r']
        unfolding all_valid_def owned_regions_def by auto
    next
      assume "u = (\<lambda>q. m\<lparr>used_regions := q\<rparr>)" "f = used_regions"
      then show ?thesis using assms(1) own that(2,3) core_set_slot_mem [OF assms(2), of _ "u q" r']
        unfolding all_valid_def owned_regions_def by auto
    qed
    show ?thesis
    proof (cases "rg_is_local R ?r \<and> rg_is_nt R ?r h")
      case True
      obtain ok r' q where p: "cb_push_back C ?r (nt_used_regions m) = (ok, r', q)" by (metis prod_cases3)
      then have ok: "ok" and m': "m' = set_slot (m\<lparr>nt_used_regions := q\<rparr>) full r'"
        using assms(3) False True by (auto simp: retire_region_def split: if_splits)
      then have "items q = items (nt_used_regions m) @ [?r]" "rg_is_invalid R r'"
        using push_back_success [of ?r "nt_used_regions m"] p by auto
      then show ?thesis using queued [of nt_used_regions r' q "\<lambda>q. m\<lparr>nt_used_regions := q\<rparr>"] p ok m' by simp
    next
      case used: False
      obtain ok r' q where p: "cb_push_back C ?r (used_regions m) = (ok, r', q)" by (metis prod_cases3)
      then have ok: "ok" and m': "m' = set_slot (m\<lparr>used_regions := q\<rparr>) full r'"
        using assms(3) False used by (auto simp: retire_region_def split: if_splits)
      then have "items q = items (used_regions m) @ [?r]" "rg_is_invalid R r'"
        using push_back_success [of ?r "used_regions m"] p by auto
      then show ?thesis using queued [of used_regions r' q "\<lambda>q. m\<lparr>used_regions := q\<rparr>"] p ok m' by simp
    qed
  qed
qed

text \<open>The scan for a used region takes it out of the manager and leaves all others as they are.\<close>

lemma pop_used_owned:
  assumes pop: "pop_used_region R C K seen m = (res, m')"
  shows "owned_regions items m = owned_regions items m' + (case res of None \<Rightarrow> {#} | Some r \<Rightarrow> {#r#})"
proof -
  obtain s1 r1 nq t1 where nt: "pick_retry R C (cb_push_back C) K seen 0 0 (rg_default R) (nt_used_regions m) = (s1, r1, nq, t1)"
    by (metis prod_cases4)
  obtain s2 r2 uq t2 where us: "pick_retry R C (cb_push_front C) K seen 0 t1 r1 (used_regions m) = (s2, r2, uq, t2)"
    by (metis prod_cases4)
  have res: "(res, m') = (if s1 then (Some r1, m\<lparr>nt_used_regions := nq, region_spin := False\<rparr>)
      else (if s2 then Some r2 else None, m\<lparr>nt_used_regions := nq, used_regions := uq, region_spin := False\<rparr>))"
    using pop nt us by (auto simp: pop_used_region_def Let_def spin_lock_def spin_unlock_def split: if_splits)
  show ?thesis
    using pick_retry_conserves [OF push_back_conserves nt] pick_retry_conserves [OF push_front_conserves us] res
    by (cases s1; cases s2) (auto simp: owned_regions_def core_regions_def)
qed

lemma pop_used_space:
  assumes wf: "rm_wf R items capacity N m" and sp: "space_ok R items area room T X m"
    and pop: "pop_used_region R C K seen m = (res, m')"
  shows "space_ok R items area room T X m'"
    and "res = Some r \<Longrightarrow> area r \<subseteq> T (region_idx r) \<and> region_idx r \<notin># region_ids R items m'"
proof -
  note own = pop_used_owned [OF pop] and c = pop_used_conserves [OF wf pop]
  have all: "all_valid R items (spaced area room T X) m" and one: "count (region_ids R items m) i \<le> 1" for i
    using sp by (simp_all add: space_ok_def)
  have "all_valid R items (spaced area room T X) m'" using all own by (auto simp: all_valid_def)
  moreover have "count (region_ids R items m') i \<le> 1" for i
    using one [of i] c by (cases res) (auto split: if_splits)
  ultimately show "space_ok R items area room T X m'" by (simp add: space_ok_def)
  show "res = Some r \<Longrightarrow> area r \<subseteq> T (region_idx r) \<and> region_idx r \<notin># region_ids R items m'"
    using all own c one [of "region_idx r"] by (auto simp: all_valid_def spaced_def not_in_iff)
qed

text \<open>A property of valid regions that setting the non-temporal flag keeps survives a refill.\<close>

lemma refill_all_valid:
  assumes P: "\<And>r h. P r \<Longrightarrow> P (fst (rg_set_nt R r h))" and all: "all_valid R items P m"
    and cl: "slot_core (cl nt) < kNumCPUs" and full: "\<And>f. full = Some f \<Longrightarrow> slot_core f < kNumCPUs"
    and run: "try_refill_core_local_free_region R C cl nt full h m = Inr (success, h', m')"
  shows "all_valid R items P m'"
proof -
  obtain m1 where m1: "(case full of None \<Rightarrow> Inr (spin_lock m) | Some f \<Rightarrow> retire_region R C f h (spin_lock m)) = Inr m1"
    using run by (auto simp: try_refill_core_local_free_region_def split: sum.splits)
  have all1: "all_valid R items P m1"
    using m1 all full retire_all_valid [of P "spin_lock m"] by (cases full) (auto simp: spin_lock_def)
  show ?thesis
  proof (cases "rg_is_invalid R (get_slot m1 (cl nt))")
    case False
    then have "m' = spin_unlock m1" using run m1 by (simp add: try_refill_core_local_free_region_def)
    then show ?thesis using all1 by (simp add: spin_unlock_def)
  next
    case True
    obtain s r q where pop: "cb_pop_front C (get_slot m1 (cl nt)) (free_regions m1) = (s, r, q)" by (metis prod_cases3)
    obtain r' g where mark: "(if nt then rg_set_nt R r h else (r, h)) = (r', g)" by fastforce
    have m': "m' = spin_unlock (set_slot (m1\<lparr>free_regions := q\<rparr>) (cl nt) r')"
      using run m1 True pop mark by (simp add: try_refill_core_local_free_region_def)
    have r': "r' = r \<or> r' = fst (rg_set_nt R r h)" using mark by (metis fst_conv)
    have popped: "\<not> rg_is_invalid R r' \<longrightarrow> P r'" "set (items q) \<subseteq> set (items (free_regions m1))"
    proof -
      have "\<not> rg_is_invalid R r' \<longrightarrow> P r'" if "rg_is_invalid R r"
        using r' that set_nt_idx [of r h] by (auto simp: invalid_iff)
      moreover have "\<not> rg_is_invalid R r' \<longrightarrow> P r'" if "r \<in> set (items (free_regions m1))"
        using r' that P all1 set_nt_idx [of r h] by (auto simp: all_valid_def owned_regions_def invalid_iff)
      moreover have "rg_is_invalid R r \<and> q = free_regions m1 \<or> r \<in> set (items (free_regions m1)) \<and> set (items q) \<subseteq> set (items (free_regions m1))"
        using pop True pop_front_Nil [of "free_regions m1" "get_slot m1 (cl nt)"] pop_front_Cons [of "free_regions m1" _ _ "get_slot m1 (cl nt)"]
        by (cases "items (free_regions m1)") auto
      ultimately show "\<not> rg_is_invalid R r' \<longrightarrow> P r'" "set (items q) \<subseteq> set (items (free_regions m1))" by blast+
    qed
    have "all_valid R items P (set_slot (m1\<lparr>free_regions := q\<rparr>) (cl nt) r')"
      using all1 popped core_set_slot_mem [OF cl, of _ "m1\<lparr>free_regions := q\<rparr>" r']
      unfolding all_valid_def owned_regions_def by auto
    then show ?thesis by (simp add: m' spin_unlock_def)
  qed
qed

end

section \<open>Allocation takes free bytes\<close>

text \<open>
  The regions of a manager, of the cache or of far memory, have territories of their own.
  \<open>taken\<close> says what an attempt that found \<open>res\<close> did to the space.
\<close>

locale territory_space = region_env R C items capacity + region_space R area room
  for R :: region_ops and C :: "'q cb_ops" and items capacity area room +
  fixes T :: "u32 \<Rightarrow> addr set"
  assumes territories: "i \<noteq> j \<Longrightarrow> T i \<inter> T j = {}"
begin

definition taken :: "addr set \<Rightarrow> u32 multiset \<Rightarrow> u16 \<Rightarrow> addr option \<Rightarrow> 'q RegionManager \<Rightarrow> bool" where
  "taken X ids sz res m \<longleftrightarrow> (case res of None \<Rightarrow> space_ok R items area room T X m
     | Some a \<Rightarrow> space_ok R items area room T (X \<union> addr_range a (unat sz)) m \<and> addr_range a (unat sz) \<inter> X = {}
         \<and> (\<exists>i \<in># ids. addr_range a (unat sz) \<subseteq> T i))"

lemma slot_space:
  assumes al: "rg_allocate_object R sz (get_slot m sl) h = (res, r, h')" and sl: "slot_core sl < kNumCPUs"
    and sp: "space_ok R items area room T X m"
  shows "taken X (region_ids R items m) sz res (set_slot m sl r)"
proof -
  let ?r = "get_slot m sl"
  obtain M where M: "owned_regions items m = add_mset ?r M" "owned_regions items (set_slot m sl r) = add_mset r M"
    using owned_set_slot [OF sl] by metis
  have idx: "region_idx r = region_idx ?r" by (rule alloc_idx [OF al])
  have ids: "region_ids R items (set_slot m sl r) = region_ids R items m"
    unfolding region_ids_def M using idx by (simp add: invalid_iff)
  have old: "spaced area room T X x" if "x \<in># add_mset ?r M" "\<not> rg_is_invalid R x" for x
    using sp that M(1) by (auto simp: space_ok_def all_valid_def)
  show ?thesis
  proof (cases res)
    case None
    have "room r \<subseteq> room ?r \<and> area r = area ?r" using al None by (intro alloc_full) simp
    then have "spaced area room T X r" if "\<not> rg_is_invalid R r"
      using old [of ?r] that idx by (auto simp: spaced_def invalid_iff)
    then have "all_valid R items (spaced area room T X) (set_slot m sl r)"
      using old M(2) by (auto simp: all_valid_def)
    then show ?thesis using sp ids None by (simp add: taken_def space_ok_def)
  next
    case (Some a)
    let ?Y = "addr_range a (unat sz)"
    have rm: "?Y \<subseteq> room ?r \<and> room r \<subseteq> room ?r - ?Y \<and> area r = area ?r" using al Some by (intro alloc_room) simp
    have v: "\<not> rg_is_invalid R ?r" using al Some alloc_invalid by (metis option.distinct(1) prod.inject)
    have r0: "spaced area room T X ?r" using old v by simp
    have inT: "?Y \<subseteq> T (region_idx ?r)" using rm r0 room_area by (force simp: spaced_def)
    have mem: "region_idx ?r \<in># region_ids R items m" unfolding region_ids_def M using v by simp
    have other: "region_idx x \<noteq> region_idx ?r" if "x \<in># M" "\<not> rg_is_invalid R x" for x
    proof
      assume e: "region_idx x = region_idx ?r"
      have "region_idx x \<in># valid_ids R M" using that by (auto simp: valid_ids_def)
      then have "2 \<le> count (region_ids R items m) (region_idx ?r)"
        unfolding region_ids_def M using v e by (simp add: count_greater_zero_iff Suc_le_eq)
      moreover have "count (region_ids R items m) (region_idx ?r) \<le> 1" using sp by (simp add: space_ok_def)
      ultimately show False by linarith
    qed
    have "spaced area room T (X \<union> ?Y) x" if "x \<in># M" "\<not> rg_is_invalid R x" for x
    proof -
      have "area x \<subseteq> T (region_idx x)" "room x \<inter> X = {}" using old [of x] that by (simp_all add: spaced_def)
      moreover have "T (region_idx x) \<inter> T (region_idx ?r) = {}" using territories other [OF that] by blast
      ultimately show ?thesis using inT room_area [of x] unfolding spaced_def by blast
    qed
    moreover have "spaced area room T (X \<union> ?Y) r" using r0 rm idx by (auto simp: spaced_def)
    ultimately have "all_valid R items (spaced area room T (X \<union> ?Y)) (set_slot m sl r)"
      using M(2) by (auto simp: all_valid_def)
    moreover have "?Y \<inter> X = {}" using rm r0 by (auto simp: spaced_def)
    ultimately show ?thesis using sp ids Some inT mem by (auto simp: taken_def space_ok_def)
  qed
qed

lemma refill_space:
  assumes run: "try_refill_core_local_free_region R C cl nt (Some (cl nt)) h m = Inr (ok, h', m')"
    and cl: "slot_core (cl nt) < kNumCPUs" and wf: "rm_wf R items capacity N m" and sp: "space_ok R items area room T X m"
  shows "space_ok R items area room T X m'"
proof -
  have "all_valid R items (spaced area room T X) m'"
  proof (rule refill_all_valid [OF _ _ cl _ run])
    show "spaced area room T X (fst (rg_set_nt R q h))" if "spaced area room T X q" for q h
      using that set_nt_room [of q h] set_nt_idx [of q h] by (simp add: spaced_def)
  qed (use sp cl in \<open>simp_all add: space_ok_def\<close>)
  moreover have "region_ids R items m' = region_ids R items m"
    using refill_spec [where cl = cl and nt = nt and full = "Some (cl nt)" and h = h, OF wf cl] cl run by auto
  ultimately show ?thesis using sp by (simp add: space_ok_def)
qed

end

text \<open>The cache.\<close>

locale cache_space = manager_env E items capacity contents + territory_space "Rg E" "Cb E" items capacity area room T
  for E :: "('q, 'd) ext" and items capacity contents area room T
begin

abbreviation space :: "addr set \<Rightarrow> ('q, 'd) fm_state \<Rightarrow> bool" where
  "space X s \<equiv> space_ok (Rg E) items area room T X (cache_region_manager s)"

lemma try_local_space:
  assumes run: "try_local E nt sz s = (res, s')" and ok: "cache_ok E items capacity N s" and sp: "space X s"
  shows "taken X (region_ids (Rg E) items (cache_region_manager s)) sz res (cache_region_manager s')"
proof -
  let ?m = "cache_region_manager s" and ?sl = "cur_slot s nt"
  have sl: "slot_core ?sl < kNumCPUs" using ok by (simp add: cache_ok_def)
  obtain r h where al: "rg_allocate_object (Rg E) sz (get_slot ?m ?sl) (heap s) = (res, r, h)"
      and m': "cache_region_manager s' = set_slot ?m ?sl r"
    using run by (auto simp: try_local_def Let_def split: prod.splits)
  show ?thesis unfolding m' by (rule slot_space [OF al sl sp])
qed

lemma refill_local_space:
  assumes run: "refill_local E nt s = Inr (ok, s')" and cok: "cache_ok E items capacity N s" and sp: "space X s"
  shows "space X s'" and "region_ids (Rg E) items (cache_region_manager s') = region_ids (Rg E) items (cache_region_manager s)"
    and "cache_ok E items capacity N s'"
proof -
  obtain s'' where "refill_local E nt s = Inr (ok, s'')" "cache_step E items capacity N s s''"
    using refill_local_spec [OF cok, of nt] run by auto
  then have st: "cache_step E items capacity N s s'" using run by simp
  then show ids: "region_ids (Rg E) items (cache_region_manager s') = region_ids (Rg E) items (cache_region_manager s)"
    by (auto simp: cache_step_def)
  show "cache_ok E items capacity N s'" using cache_step_ok [OF st cok] .
  obtain h m where r: "try_refill_core_local_free_region (Rg E) (Cb E) (cur_slot s) nt (Some (cur_slot s nt)) (heap s) (cache_region_manager s)
      = Inr (ok, h, m)" "cache_region_manager s' = m"
    using run by (auto simp: refill_local_def split: sum.splits prod.splits)
  show "space X s'" unfolding r(2)
    by (rule refill_space [OF r(1), where N = N]) (use cok sp in \<open>simp_all add: cache_ok_def\<close>)
qed

lemma retry_nb_space:
  assumes run: "retry_allocate_local_nb E nt sz refilled s = Some (Inr (res, refilled', s'))"
    and ok: "cache_ok E items capacity N s" and sp: "space X s"
  shows "taken X (region_ids (Rg E) items (cache_region_manager s)) sz res (cache_region_manager s')"
proof -
  have "E' = E \<longrightarrow> cache_ok E items capacity N s \<longrightarrow> space X s \<longrightarrow>
      (\<forall>res refilled' s'. y = Inr (res, refilled', s') \<longrightarrow> taken X (region_ids (Rg E) items (cache_region_manager s)) sz res (cache_region_manager s'))"
    if "retry_allocate_local_nb E' nt sz refilled s = Some y" for E' y
  proof (rule retry_allocate_local_nb.raw_induct [OF _ that], goal_cases)
    case (1 f E' nt sz refilled s y)
    show ?case
    proof (intro impI allI)
      fix res refilled' s'
      assume E: "E' = E" and ok: "cache_ok E items capacity N s" and sp: "space X s" and y: "y = Inr (res, refilled', s')"
      obtain res1 s1 where one: "try_local E nt sz s = (res1, s1)" by fastforce
      note t = try_local_space [OF one ok sp] and st = try_local_spec [OF one ok]
      have ids1: "region_ids (Rg E) items (cache_region_manager s1) = region_ids (Rg E) items (cache_region_manager s)"
        using st(1) by (auto simp: cache_step_def)
      show "taken X (region_ids (Rg E) items (cache_region_manager s)) sz res (cache_region_manager s')"
      proof (cases res1)
        case (Some a)
        then show ?thesis using 1(2) one t E y by simp
      next
        case None
        have sp1: "space X s1" using t None by (simp add: taken_def)
        have ok1: "cache_ok E items capacity N s1" using st(1) ok by (rule cache_step_ok)
        obtain b s2 where two: "refill_local E nt s1 = Inr (b, s2)" using refill_local_spec [OF ok1, of nt] by blast
        note r = refill_local_space [OF two ok1 sp1]
        show ?thesis
        proof (cases b)
          case False
          then show ?thesis using 1(2) one None two E y r(1) by (auto simp: taken_def)
        next
          case True
          then have "f E nt sz True s2 = Some y" using 1(2) one None two E by simp
          from 1(1) [OF this] r y ids1 show ?thesis by simp
        qed
      qed
    qed
  qed
  then show ?thesis using assms by blast
qed

lemma allocate_nb_space:
  assumes run: "allocate_local_object_nb E nt sz s = Some (Inr (res, s'))" and ok: "cache_ok E items capacity N s" and sp: "space X s"
  shows "taken X (region_ids (Rg E) items (cache_region_manager s)) sz res (cache_region_manager s')"
proof -
  have pd: "cache_region_manager (preempt_disable s) = cache_region_manager s" "cache_ok E items capacity N (preempt_disable s)"
    using ok by (simp_all add: preempt_disable_def cache_ok_def)
  obtain refilled s1 where r: "retry_allocate_local_nb E nt sz False (preempt_disable s) = Some (Inr (res, refilled, s1))"
      and s': "s' = leave_allocation E refilled s1"
    using run by (auto simp: allocate_local_object_nb_def and_then_Some_Inr)
  obtain b c where g: "gc_check E s1 = s1\<lparr>almost_empty := b, gc_master_spawned := c\<rparr>" by (rule gc_check_obtain)
  have m: "cache_region_manager s' = cache_region_manager s1" by (simp add: s' leave_allocation_def g preempt_enable_def)
  have "taken X (region_ids (Rg E) items (cache_region_manager s)) sz res (cache_region_manager s1)"
    using retry_nb_space [OF r pd(2)] sp pd(1) by simp
  then show ?thesis by (simp add: taken_def m split: option.splits)
qed

text \<open>A region that comes back is free as far as nothing in use lies in it.\<close>

lemma push_free_space:
  assumes wf: "rm_wf (Rg E) items capacity N m" and sz: "size (region_ids (Rg E) items m) < N" and valid: "\<not> rg_is_invalid (Rg E) r"
    and sp: "space_ok (Rg E) items area room T X m" and fresh: "region_idx r \<notin># region_ids (Rg E) items m"
    and r: "area r \<subseteq> T (region_idx r)" "area r \<inter> X = {}"
    and run: "push_free_region (Rg E) (Cb E) r h m = Inr (r', h', m')"
  shows "space_ok (Rg E) items area room T X m'"
proof -
  obtain r'' h'' m'' where p: "push_free_region (Rg E) (Cb E) r h m = Inr (r'', h'', m'')"
      "region_ids (Rg E) items m'' = add_mset (region_idx r) (region_ids (Rg E) items m)"
      "items (free_regions m'') = items (free_regions m) @ [fst (rg_reset (Rg E) r h)]"
      "used_regions m'' = used_regions m" "nt_used_regions m'' = nt_used_regions m"
    using push_free_spec [OF wf sz valid] by blast
  have m': "m' = m''" using p(1) run by simp
  have "core_regions m' = core_regions m"
    using run by (auto simp: push_free_region_def spin_lock_def spin_unlock_def split: prod.splits if_splits)
  then have "owned_regions items m' = add_mset (fst (rg_reset (Rg E) r h)) (owned_regions items m)"
    using p m' by (simp add: owned_regions_def)
  moreover have "spaced area room T X (fst (rg_reset (Rg E) r h))"
    using r reset_area [of r h] reset_idx [of r h] room_area [of "fst (rg_reset (Rg E) r h)"] by (auto simp: spaced_def)
  ultimately have "all_valid (Rg E) items (spaced area room T X) m'" using sp by (auto simp: all_valid_def space_ok_def)
  moreover have "count (region_ids (Rg E) items m') i \<le> 1" for i
    using sp fresh p(2) m' by (cases "i = region_idx r") (auto simp: space_ok_def not_in_iff)
  ultimately show ?thesis by (simp add: space_ok_def)
qed

end

text \<open>
  Far memory. Its addresses are the ids of plain pointers, and fit the 38 bits a pointer word
  has for an id.
\<close>

locale far_space = manager_env E items capacity contents + territory_space "Rg E" "Cb E" items capacity area room Tf
  for E :: "('q, 'd) ext" and items capacity contents area room Tf +
  assumes low: "x \<in> Tf i \<Longrightarrow> x < 2 ^ 38"
begin

abbreviation space :: "addr set \<Rightarrow> ('q, 'd) fm_state \<Rightarrow> bool" where
  "space X s \<equiv> space_ok (Rg E) items area room Tf X (far_mem_region_manager s)"

lemma try_remote_space:
  assumes run: "try_remote E nt sz s = (res, s')" and ok: "far_ok E items capacity N s" and sp: "space X s"
  shows "taken X (region_ids (Rg E) items (far_mem_region_manager s)) sz res (far_mem_region_manager s')"
proof -
  let ?m = "far_mem_region_manager s" and ?sl = "cur_slot s nt"
  have sl: "slot_core ?sl < kNumCPUs" using ok by (simp add: far_ok_def)
  obtain r h where al: "rg_allocate_object (Rg E) sz (get_slot ?m ?sl) (heap s) = (res, r, h)"
      and m': "far_mem_region_manager s' = set_slot ?m ?sl r"
    using run by (auto simp: try_remote_def Let_def split: prod.splits)
  show ?thesis unfolding m' by (rule slot_space [OF al sl sp])
qed

lemma refill_remote_space:
  assumes run: "refill_remote E nt s = Inr (ok, s')" and fok: "far_ok E items capacity N s" and sp: "space X s"
  shows "space X s'" and "region_ids (Rg E) items (far_mem_region_manager s') = region_ids (Rg E) items (far_mem_region_manager s)"
    and "far_ok E items capacity N s'"
proof -
  obtain s'' where "refill_remote E nt s = Inr (ok, s'')" "far_step E items capacity N s s''"
    using refill_remote_spec [OF fok, of nt] run by auto
  then have st: "far_step E items capacity N s s'" using run by simp
  then show "region_ids (Rg E) items (far_mem_region_manager s') = region_ids (Rg E) items (far_mem_region_manager s)"
    by (auto simp: far_step_def)
  show "far_ok E items capacity N s'" using far_step_ok [OF st fok] .
  obtain h m where r: "try_refill_core_local_free_region (Rg E) (Cb E) (cur_slot s) nt (Some (cur_slot s nt)) (heap s) (far_mem_region_manager s)
      = Inr (ok, h, m)" "far_mem_region_manager s' = m"
    using run by (auto simp: refill_remote_def split: sum.splits prod.splits)
  show "space X s'" unfolding r(2)
    by (rule refill_space [OF r(1), where N = N]) (use fok sp in \<open>simp_all add: far_ok_def\<close>)
qed

lemma retry_far_space:
  assumes run: "retry_allocate_far_mem E nt sz s = Some (Inr (a, s'))" and ok: "far_ok E items capacity N s" and sp: "space X s"
  shows "taken X (region_ids (Rg E) items (far_mem_region_manager s)) sz (Some a) (far_mem_region_manager s')"
proof -
  have "E' = E \<longrightarrow> far_ok E items capacity N s \<longrightarrow> space X s \<longrightarrow>
      (\<forall>a s'. y = Inr (a, s') \<longrightarrow> taken X (region_ids (Rg E) items (far_mem_region_manager s)) sz (Some a) (far_mem_region_manager s'))"
    if "retry_allocate_far_mem E' nt sz s = Some y" for E' y
  proof (rule retry_allocate_far_mem.raw_induct [OF _ that], goal_cases)
    case (1 f E' nt sz s y)
    show ?case
    proof (intro impI allI)
      fix a s'
      assume E: "E' = E" and ok: "far_ok E items capacity N s" and sp: "space X s" and y: "y = Inr (a, s')"
      obtain res s1 where one: "try_remote E nt sz s = (res, s1)" by fastforce
      note t = try_remote_space [OF one ok sp] and st = try_remote_spec [OF one ok]
      have ids1: "region_ids (Rg E) items (far_mem_region_manager s1) = region_ids (Rg E) items (far_mem_region_manager s)"
        using st(1) by (auto simp: far_step_def)
      show "taken X (region_ids (Rg E) items (far_mem_region_manager s)) sz (Some a) (far_mem_region_manager s')"
      proof (cases res)
        case (Some b)
        then show ?thesis using 1(2) one t E y by simp
      next
        case None
        have sp1: "space X s1" using t None by (simp add: taken_def)
        have ok1: "far_ok E items capacity N s1" using st(1) ok by (rule far_step_ok)
        obtain b s2 where two: "refill_remote E nt s1 = Inr (b, s2)" using refill_remote_spec [OF ok1, of nt] by blast
        note r = refill_remote_space [OF two ok1 sp1]
        have "f E nt sz s2 = Some y" using 1(2) one None two E by (simp split: if_splits)
        from 1(1) [OF this] r y ids1 show ?thesis by simp
      qed
    qed
  qed
  then show ?thesis using assms by blast
qed

lemma allocate_remote_space:
  assumes run: "allocate_remote_object E nt sz s = Some (Inr (a, s'))" and ok: "far_ok E items capacity N s" and sp: "space X s"
  shows "taken X (region_ids (Rg E) items (far_mem_region_manager s)) sz (Some a) (far_mem_region_manager s')"
proof -
  obtain s1 where r: "retry_allocate_far_mem E nt sz (preempt_disable s) = Some (Inr (a, s1))" "s' = preempt_enable s1"
    using run by (auto simp: allocate_remote_object_def and_then_Some_Inr)
  have pd: "far_ok E items capacity N (preempt_disable s)" "space X (preempt_disable s)"
    using ok sp by (simp_all add: far_ok_def preempt_disable_def)
  show ?thesis using retry_far_space [OF r(1) pd] by (simp add: r(2) state_ops)
qed

text \<open>The id a plain pointer gets is an address that no plain pointer got before.\<close>

lemma drawn_space:
  assumes d: "far_drawn E sz oidb s s'" and ok: "far_ok E items capacity N s" and sp: "space X s" and sz: "0 < unat sz"
  obtains r where "oidb = u64_bytes r" "r < 2 ^ 38" "r \<notin> X" "space (X \<union> addr_range r (unat sz)) s'" "r \<in> addr_range r (unat sz)"
    "far_ok E items capacity N s'"
proof -
  obtain u u' r where run: "allocate_remote_object E False sz u = Some (Inr (r, u'))" and r: "oidb = u64_bytes r"
      and u: "far_mem_region_manager u = far_mem_region_manager s" "cur_slot u = cur_slot s"
      and u': "far_mem_region_manager s' = far_mem_region_manager u'" "cur_slot s' = cur_slot u'"
    using d unfolding far_drawn_def by (elim exE conjE) (rule that)
  have oku: "far_ok E items capacity N u" and spu: "space X u" using ok sp u by (simp_all add: far_ok_def)
  have "far_step E items capacity N u u'" using remote_spec [OF oku run] by auto
  from far_step_ok [OF this oku] have ok': "far_ok E items capacity N s'" using u' by (simp add: far_ok_def)
  have tk: "space (X \<union> addr_range r (unat sz)) s'" "addr_range r (unat sz) \<inter> X = {}" "\<exists>i. addr_range r (unat sz) \<subseteq> Tf i"
    using allocate_remote_space [OF run oku spu] u' by (auto simp: taken_def)
  have mem: "r \<in> addr_range r (unat sz)" using sz by (simp add: addr_range_def outside_def)
  show thesis
  proof (rule that [OF r _ _ tk(1) mem ok'])
    show "r < 2 ^ 38" using mem tk(3) low by blast
    show "r \<notin> X" using mem tk(2) by blast
  qed
qed

end

section \<open>The documented layout\<close>

text \<open>Room is what lies behind \<^verbatim>\<open>first_free_byte_idx_\<close>.\<close>

definition layout_area :: "Region \<Rightarrow> addr set" where
  "layout_area r = addr_range (region_base r) kSize"

definition layout_room :: "Region \<Rightarrow> addr set" where
  "layout_room r = addr_range (region_base r + ucast (first_free_byte_idx r)) (kSize - unat (first_free_byte_idx r))"

lemma addr_range_at: "x \<in> addr_range a n \<longleftrightarrow> unat (x - a) < n"
  by (simp add: addr_range_def outside_def not_le)

lemma addr_range_shift:
  assumes "x \<in> addr_range (b + of_nat k) n" and "k + n \<le> 2 ^ 64"
  shows "unat (x - b) = k + unat (x - (b + of_nat k))"
proof -
  have lt: "unat (x - (b + of_nat k)) < n" using assms(1) by (simp add: addr_range_at)
  have "x - b = of_nat k + (x - (b + of_nat k))" by simp
  then have "unat (x - b) = unat (of_nat k + of_nat (unat (x - (b + of_nat k))) :: u64)" by simp
  also have "\<dots> = k + unat (x - (b + of_nat k))"
    unfolding of_nat_add [symmetric] using lt assms(2) by (intro unat_of_nat_u64) simp
  finally show ?thesis .
qed

lemma layout_allocated:
  assumes "rg_allocate_object layout_regions sz r h = (Some a, r', h')"
  shows "unat (first_free_byte_idx r) + bump_size sz \<le> kSize" "unat (first_free_byte_idx r) < kSize"
    and "a = region_base r + of_nat (unat (first_free_byte_idx r))"
    and "r' = r\<lparr>first_free_byte_idx := first_free_byte_idx r + of_nat (bump_size sz), num_boundaries := 1\<rparr>"
    and "unat (first_free_byte_idx r') = unat (first_free_byte_idx r) + bump_size sz" "region_base r' = region_base r"
    and "num_boundaries r = (if first_free_byte_idx r = of_nat kObjectPos then 0 else 1)"
    and "buf_ptr r = 0 \<or> buf_ok (buf_ptr r)"
proof -
  show fit: "unat (first_free_byte_idx r) + bump_size sz \<le> kSize" "unat (first_free_byte_idx r) < kSize"
    and "a = region_base r + of_nat (unat (first_free_byte_idx r))"
    and r': "r' = r\<lparr>first_free_byte_idx := first_free_byte_idx r + of_nat (bump_size sz), num_boundaries := 1\<rparr>"
    and "num_boundaries r = (if first_free_byte_idx r = of_nat kObjectPos then 0 else 1)"
    and "buf_ptr r = 0 \<or> buf_ok (buf_ptr r)"
    using assms by (auto simp: layout_regions_def split: if_splits)
  show "region_base r' = region_base r" by (simp add: r' region_base_def)
  have "first_free_byte_idx r' = of_nat (unat (first_free_byte_idx r) + bump_size sz)" by (simp add: r')
  moreover have "unat (first_free_byte_idx r) + bump_size sz < 2 ^ 32" using fit(1) by (simp add: kSize_val)
  ultimately show "unat (first_free_byte_idx r') = unat (first_free_byte_idx r) + bump_size sz"
    by (simp only: unat_of_nat take_bit_nat_eq_self len_num1 len_bit0 len_num0) (simp add: take_bit_nat_eq_self)
qed

interpretation layout_space: region_space layout_regions layout_area layout_room
proof
  have f64: "(ucast (w :: u32) :: u64) = of_nat (unat w)" for w by simp
  show "layout_room r \<subseteq> layout_area r" for r
  proof
    fix x
    assume x: "x \<in> layout_room r"
    let ?f = "unat (first_free_byte_idx r)"
    have "?f < 2 ^ 32" using unsigned_less [of "first_free_byte_idx r"] by simp
    then have "unat (x - region_base r) = ?f + unat (x - (region_base r + of_nat ?f))"
      by (intro addr_range_shift [OF x [unfolded layout_room_def f64 kSize_val]]) (cases "?f \<le> 1024"; simp)
    then show "x \<in> layout_area r" using x unfolding layout_room_def layout_area_def f64 by (simp add: addr_range_at)
  qed
  show "addr_range a (unat sz) \<subseteq> layout_room r \<and> layout_room r' \<subseteq> layout_room r - addr_range a (unat sz) \<and> layout_area r' = layout_area r"
    if al: "rg_allocate_object layout_regions sz r h = (Some a, r', h')" for sz r h a r' h'
  proof -
    let ?f = "unat (first_free_byte_idx r)" and ?b = "bump_size sz"
    note al = layout_allocated [OF al]
    note fit = al(1,2) and a = al(3) and f' = al(5) and base = al(6)
    have sz: "unat sz \<le> ?b" by (simp add: bump_size_def)
    have room: "layout_room r = addr_range a (kSize - ?f)" unfolding layout_room_def a f64 by simp
    have "unat (x - a) = ?b + unat (x - (a + of_nat ?b)) \<and> unat (x - (a + of_nat ?b)) < kSize - (?f + ?b)" if "x \<in> layout_room r'" for x
    proof -
      have x: "x \<in> addr_range (a + of_nat ?b) (kSize - (?f + ?b))"
        using that unfolding layout_room_def f64 f' base a by (simp add: add.assoc)
      then show ?thesis using addr_range_shift [OF x] fit by (simp add: addr_range_at kSize_val)
    qed
    then have "layout_room r' \<subseteq> layout_room r - addr_range a (unat sz)"
      using sz fit unfolding room by (fastforce simp: addr_range_at)
    moreover have "addr_range a (unat sz) \<subseteq> layout_room r" using sz fit unfolding room by (auto simp: addr_range_at)
    ultimately show ?thesis using base by (simp add: layout_area_def)
  qed
  show "layout_room r' \<subseteq> layout_room r \<and> layout_area r' = layout_area r"
    if "rg_allocate_object layout_regions sz r h = (None, r', h')" for sz r h r' h'
    using that by (auto simp: layout_regions_def split: if_splits)
qed (simp_all add: layout_regions_def layout_area_def layout_room_def region_base_def)

text \<open>The territory of region \<open>i\<close> of the demo cache: its buffer begins at \<open>1024 * (i + 1)\<close>.\<close>

definition demo_territory :: "u32 \<Rightarrow> addr set" where
  "demo_territory i = {x. unat x div 1024 = unat i + 1}"

lemma addr_range_mem:
  assumes "n \<le> 2 ^ 64"
  shows "x \<in> addr_range a n \<longleftrightarrow> (\<exists>i < n. x = a + of_nat i)"
proof
  assume "x \<in> addr_range a n"
  then show "\<exists>i < n. x = a + of_nat i" by (intro exI [of _ "unat (x - a)"]) (simp add: addr_range_at)
next
  assume "\<exists>i < n. x = a + of_nat i"
  then obtain i where "i < n" "x - a = of_nat i" by auto
  then show "x \<in> addr_range a n" using assms by (simp add: addr_range_at unat_of_nat_u64)
qed

lemma demo_area:
  assumes "i < 2 ^ 20" and "buf_ptr r = buf_ptr (demo_region i)"
  shows "layout_area r \<subseteq> demo_territory (of_nat i)"
proof
  have "unat (of_nat (1024 * (i + 1)) :: u64) = 1024 * (i + 1)" using assms(1) by (intro unat_of_nat_u64) simp
  then have "(of_nat (1024 * (i + 1)) :: u64) \<noteq> 0" by (metis Suc_eq_plus1 Zero_not_Suc mult_is_0 unat_0 zero_neq_numeral)
  then have base: "region_base r = of_nat (1024 * (i + 1))"
    using assms(2) by (simp add: region_base_def demo_region_def layout_regions_def)
  fix x
  assume "x \<in> layout_area r"
  then obtain k where k: "k < 1024" "x = of_nat (1024 * (i + 1) + k)"
    unfolding layout_area_def base by (auto simp: addr_range_mem kSize_val)
  have "unat x = 1024 * (i + 1) + k" unfolding k(2) using assms(1) k(1) by (intro unat_of_nat_u64) simp
  moreover have "unat (of_nat i :: u32) = i" using assms(1) by (simp add: unat_of_nat take_bit_nat_eq_self)
  ultimately show "x \<in> demo_territory (of_nat i)" using k(1) by (simp add: demo_territory_def)
qed

interpretation demo_space: cache_space demo_ext ring_items ring_cap "\<lambda>d. d" layout_area layout_room demo_territory
proof (intro cache_space.intro territory_space.intro territory_space_axioms.intro)
  show "manager_env demo_ext ring_items ring_cap (\<lambda>d. d)" by (rule demo_env)
  show "region_env (Rg demo_ext) (Cb demo_ext) ring_items ring_cap" by (simp add: ring_regions.region_env_axioms)
  show "region_space (Rg demo_ext) layout_area layout_room" by (simp add: layout_space.region_space_axioms)
  show "demo_territory i \<inter> demo_territory j = {}" if "i \<noteq> j" for i j
    using that by (auto simp: demo_territory_def word_unat_eq_iff)
qed

text \<open>
  The addresses of region \<open>i\<close> of far memory begin at \<open>1024 * i\<close>; a pointer word can name those
  of the first $2^{28}$ regions.
\<close>

definition demo_far_territory :: "u32 \<Rightarrow> addr set" where
  "demo_far_territory i = {x. unat x div 1024 = unat i \<and> x < 2 ^ 38}"

interpretation demo_far: far_space demo_ext ring_items ring_cap "\<lambda>d. d" layout_area layout_room demo_far_territory
proof (intro far_space.intro far_space_axioms.intro territory_space.intro territory_space_axioms.intro)
  show "manager_env demo_ext ring_items ring_cap (\<lambda>d. d)" by (rule demo_env)
  show "region_env (Rg demo_ext) (Cb demo_ext) ring_items ring_cap" by (simp add: ring_regions.region_env_axioms)
  show "region_space (Rg demo_ext) layout_area layout_room" by (simp add: layout_space.region_space_axioms)
  show "demo_far_territory i \<inter> demo_far_territory j = {}" if "i \<noteq> j" for i j
    using that by (auto simp: demo_far_territory_def word_unat_eq_iff)
qed (simp add: demo_far_territory_def)

end
