(* ===== verification/Fm_Values.thy ===== *)
theory Fm_Values
  imports Fm_Space
begin

text \<open>
  A collection round does not lose an object: when no other thread runs, every pointer to a
  unique object has the same value after the round, its object is apart from all others and
  from the free space, and none is left in the regions given back.
\<close>

section \<open>The store of objects\<close>

text \<open>
  The pointers under consideration are \<open>Q\<close>. Present ones occupy bytes of the cache, all have
  the values \<open>V\<close>, and their keys on the device differ.
\<close>

definition present :: "('q, 'd) ext \<Rightarrow> ('q, 'd) fm_state \<Rightarrow> addr \<Rightarrow> bool" where
  "present E s q \<longleftrightarrow> pt_is_present (Pt E) (metas s q)"

definition obj_at :: "('q, 'd) ext \<Rightarrow> ('q, 'd) fm_state \<Rightarrow> addr \<Rightarrow> addr" where
  "obj_at E s q = pt_get_object_addr (Pt E) (metas s q)"

definition bytes_of :: "('q, 'd) ext \<Rightarrow> heap \<Rightarrow> addr \<Rightarrow> addr set" where
  "bytes_of E h a = addr_range a (unat (ob_size (Ob E) h a))"

definition obj_bytes :: "('q, 'd) ext \<Rightarrow> ('q, 'd) fm_state \<Rightarrow> addr \<Rightarrow> addr set" where
  "obj_bytes E s q = bytes_of E (heap s) (obj_at E s q)"

definition live_bytes :: "('q, 'd) ext \<Rightarrow> addr set \<Rightarrow> ('q, 'd) fm_state \<Rightarrow> addr set" where
  "live_bytes E Q s = (\<Union>q \<in> {q \<in> Q. present E s q}. obj_bytes E s q)"

definition key :: "(addr \<Rightarrow> u8 \<times> u8 list \<times> u8 list) \<Rightarrow> addr \<Rightarrow> u8 \<times> u8 list" where
  "key V q = (fst (V q), fst (snd (V q)))"

definition stored :: "('q, 'd) ext \<Rightarrow> ('d \<Rightarrow> u8 \<times> u8 list \<Rightarrow> u8 list option) \<Rightarrow> (addr \<Rightarrow> u8 \<times> u8 list \<times> u8 list) \<Rightarrow>
   addr set \<Rightarrow> ('q, 'd) fm_state \<Rightarrow> bool" where
  "stored E contents V Q s \<longleftrightarrow> (\<forall>q \<in> Q. ptr_ok E contents s q \<and> value_of E contents s q = Some (V q))"

definition apart :: "('q, 'd) ext \<Rightarrow> addr set \<Rightarrow> ('q, 'd) fm_state \<Rightarrow> bool" where
  "apart E Q s \<longleftrightarrow> (\<forall>q \<in> Q. \<forall>q' \<in> Q. present E s q \<longrightarrow> present E s q' \<longrightarrow> q \<noteq> q' \<longrightarrow> obj_bytes E s q \<inter> obj_bytes E s q' = {})"

text \<open>No data structure has asked for a notifier.\<close>

definition calm :: "('q, 'd) fm_state \<Rightarrow> bool" where
  "calm s \<longleftrightarrow> evac_notifiers s = (\<lambda>_. 0) \<and> copy_notifiers s = (\<lambda>_. 0)"

lemma live_bytesI: "q \<in> Q \<Longrightarrow> present E s q \<Longrightarrow> obj_bytes E s q \<subseteq> live_bytes E Q s"
  by (auto simp: live_bytes_def)

lemma bytes_of_offset: "x \<in> bytes_of E h a \<longleftrightarrow> (\<exists>i < unat (ob_size (Ob E) h a). x = a + of_nat i)"
  unfolding bytes_of_def
  by (rule addr_range_mem) (rule order.trans [OF less_imp_le [OF unat_u16_less]], simp)

lemma bytes_body: "placed a (unat (ob_size (Ob E) h a)) \<Longrightarrow> x \<in> bytes_of E h a \<Longrightarrow> body x"
  using placed_body by (auto simp: bytes_of_offset)

context manager_env
begin

text \<open>A pointer whose word, bytes and device entry stay keeps everything.\<close>

lemma pointer_kept:
  assumes ok: "ptr_ok E contents s q" and val: "value_of E contents s q = Some v" and m: "metas s' q = metas s q"
    and h: "\<And>x. present E s q \<Longrightarrow> body x \<Longrightarrow> x \<in> obj_bytes E s q \<Longrightarrow> heap s' x = heap s x"
    and d: "contents (device s') (fst v, fst (snd v)) = contents (device s) (fst v, fst (snd v))"
  shows "ptr_ok E contents s' q \<and> value_of E contents s' q = Some v \<and> present E s' q = present E s q
    \<and> obj_at E s' q = obj_at E s q \<and> (present E s q \<longrightarrow> obj_bytes E s' q = obj_bytes E s q)"
proof (cases "present E s q")
  case False
  then show ?thesis using assms(1-3) d by (auto simp: ptr_ok_def value_of_def present_def obj_at_def Let_def)
next
  case True
  let ?a = "pt_get_object_addr (Pt E) (metas s q)"
  have bk: "obj_backed E contents s (pt_is_dirty (Pt E) (metas s q)) ?a"
    using ok True by (simp add: ptr_ok_def present_def Let_def)
  then have o: "obj_ok (Ob E) (heap s) ?a" "placed ?a (unat (ob_size (Ob E) (heap s) ?a))" by (simp_all add: obj_backed_def)
  have "heap s' (?a + of_nat i) = heap s (?a + of_nat i)" if "i < unat (ob_size (Ob E) (heap s) ?a)" for i
    using h [OF True] placed_body [OF o(2) that] that by (auto simp: obj_bytes_def obj_at_def bytes_of_offset)
  note view = view_agree [OF o(1) this]
  have v: "v = obj_view (Ob E) (heap s) ?a" using val True by (simp add: value_of_def present_def Let_def)
  have "obj_backed E contents s' (pt_is_dirty (Pt E) (metas s q)) ?a"
    using bk view view_ok [of "heap s'" ?a "heap s" ?a] d v by (auto simp: obj_backed_def obj_view_def)
  then have "ptr_ok E contents s' q" using ok True m by (simp add: ptr_ok_def present_def Let_def)
  then show ?thesis using m v view True by (simp add: value_of_def present_def obj_at_def obj_bytes_def bytes_of_def Let_def)
qed

end

section \<open>Swapping out one object\<close>

text \<open>
  What an operation may do that gives the pointer \<open>p\<close> the value \<open>v\<close>; its object, where it has
  one in the cache, lies in the bytes \<open>Y\<close>.
\<close>

definition moved :: "('q, 'd) ext \<Rightarrow> ('d \<Rightarrow> u8 \<times> u8 list \<Rightarrow> u8 list option) \<Rightarrow> addr \<Rightarrow> u8 \<times> u8 list \<times> u8 list \<Rightarrow> addr set \<Rightarrow>
   ('q, 'd) fm_state \<Rightarrow> ('q, 'd) fm_state \<Rightarrow> bool" where
  "moved E contents p v Y s s' \<longleftrightarrow>
     obj_locks s' = obj_locks s \<and> evac_notifiers s' = evac_notifiers s \<and> copy_notifiers s' = copy_notifiers s
   \<and> from_regions s' = from_regions s \<and> cur_slot s' = cur_slot s \<and> (\<forall>q. q \<noteq> p \<longrightarrow> metas s' q = metas s q)
   \<and> ptr_ok E contents s' p \<and> value_of E contents s' p = Some v
   \<and> (\<forall>k. k \<noteq> (fst v, fst (snd v)) \<longrightarrow> contents (device s') k = contents (device s) k)
   \<and> (\<forall>x. body x \<longrightarrow> x \<notin> Y \<longrightarrow> heap s' x = heap s x)
   \<and> (present E s' p \<longrightarrow> obj_bytes E s' p \<subseteq> Y)"

lemma moved_fields:
  assumes "moved E contents p v Y s s'"
  shows "obj_locks s' = obj_locks s" "evac_notifiers s' = evac_notifiers s" "copy_notifiers s' = copy_notifiers s"
    "from_regions s' = from_regions s" "cur_slot s' = cur_slot s" "q \<noteq> p \<Longrightarrow> metas s' q = metas s q"
  using assms by (auto simp: moved_def)

text \<open>
  The same step seen by the regions: either nothing was allocated and the object of \<open>p\<close> stays
  where it was or leaves the cache, or the space for it was allocated just before: then the
  object fills it, and belongs to its pointer.
\<close>

definition settled :: "('q, 'd) ext \<Rightarrow> u16 \<Rightarrow> addr \<Rightarrow> addr \<Rightarrow> ('q, 'd) fm_state \<Rightarrow> bool" where
  "settled E n a p s' \<longleftrightarrow> present E s' p \<and> obj_at E s' p = a \<and> obj_ok (Ob E) (heap s') a
     \<and> ob_size (Ob E) (heap s') a = n \<and> placed a (unat n) \<and> ob_kHeaderSize (Ob E) < unat n
     \<and> (p \<noteq> 0 \<longrightarrow> owned_by (Ob E) (heap s') a p)"

definition nothing_drawn :: "('q, 'd) ext \<Rightarrow> ('q, 'd) fm_state \<Rightarrow> ('q, 'd) fm_state \<Rightarrow> bool" where
  "nothing_drawn E s s' \<longleftrightarrow> only_headers (heap s) (heap s')
     \<and> (cache_region_manager s' = cache_region_manager s
        \<or> (\<exists>n s1. allocate_local_object_nb E False n s = Some (Inr (None, s1)) \<and> cache_region_manager s' = cache_region_manager s1))"

definition space_drawn :: "('q, 'd) ext \<Rightarrow> u16 \<Rightarrow> addr \<Rightarrow> ('q, 'd) fm_state \<Rightarrow> ('q, 'd) fm_state \<Rightarrow> bool" where
  "space_drawn E n a s s' \<longleftrightarrow> (\<forall>x. body x \<longrightarrow> x \<notin> addr_range a (unat n) \<longrightarrow> heap s' x = heap s x)
     \<and> (\<exists>s1. allocate_local_object_nb E False n s = Some (Inr (Some a, s1)) \<and> cache_region_manager s' = cache_region_manager s1)"

definition space_step :: "('q, 'd) ext \<Rightarrow> addr \<Rightarrow> ('q, 'd) fm_state \<Rightarrow> ('q, 'd) fm_state \<Rightarrow> bool" where
  "space_step E p s s' \<longleftrightarrow> (\<forall>q. q \<noteq> p \<longrightarrow> metas s' q = metas s q)
     \<and> (nothing_drawn E s s' \<and> (present E s' p \<longrightarrow> metas s' p = metas s p)
        \<or> (\<exists>n a. space_drawn E n a s s' \<and> settled E n a p s'))"

definition object_step :: "('q, 'd) ext \<Rightarrow> addr \<Rightarrow> ('q, 'd) fm_state \<Rightarrow> ('q, 'd) fm_state \<Rightarrow> bool" where
  "object_step E p s s' \<longleftrightarrow> (\<forall>q. q \<noteq> p \<longrightarrow> metas s' q = metas s q) \<and> (\<exists>n a. space_drawn E n a s s' \<and> settled E n a p s')"

lemma object_step_space: "object_step E p s s' \<Longrightarrow> space_step E p s s'"
  by (auto simp: object_step_def space_step_def)

context manager_env
begin

lemma present_size:
  assumes "ptr_ok E contents s p" and "present E s p"
  shows "obj_ok (Ob E) (heap s) (obj_at E s p)"
    and "unat (ob_size (Ob E) (heap s) (obj_at E s p)) = ob_kHeaderSize (Ob E) + length (obj_data (Ob E) (heap s) (obj_at E s p)) + 8"
    and "ob_kHeaderSize (Ob E) < unat (ob_size (Ob E) (heap s) (obj_at E s p))"
    and "placed (obj_at E s p) (unat (ob_size (Ob E) (heap s) (obj_at E s p)))"
proof -
  have bk: "obj_backed E contents s (pt_is_dirty (Pt E) (metas s p)) (obj_at E s p)"
    using assms by (simp add: ptr_ok_def present_def obj_at_def Let_def)
  then have "length (obj_id_bytes (Ob E) (heap s) (obj_at E s p)) = 8" by (auto simp: obj_backed_def)
  moreover show ok: "obj_ok (Ob E) (heap s) (obj_at E s p)" using bk by (simp add: obj_backed_def)
  ultimately show "unat (ob_size (Ob E) (heap s) (obj_at E s p)) = ob_kHeaderSize (Ob E) + length (obj_data (Ob E) (heap s) (obj_at E s p)) + 8"
    using size_view by simp
  then show "ob_kHeaderSize (Ob E) < unat (ob_size (Ob E) (heap s) (obj_at E s p))" by simp
  show "placed (obj_at E s p) (unat (ob_size (Ob E) (heap s) (obj_at E s p)))" using bk by (simp add: obj_backed_def)
qed

lemma evict_moved:
  assumes ok: "ptr_ok E contents t p" and pres: "present E t p" and val: "value_of E contents t p = Some v"
    and nn: "evac_notifiers t = (\<lambda>_. 0)"
  defines "t' \<equiv> evict_object E p (obj_at E t p) (pt_is_dirty (Pt E) (metas t p)) t"
  shows "moved E contents p v {} t t' \<and> cache_region_manager t' = cache_region_manager t
    \<and> far_mem_region_manager t' = far_mem_region_manager t \<and> cur_slot t' = cur_slot t \<and> heap t' = heap t \<and> \<not> present E t' p"
proof -
  let ?a = "obj_at E t p" and ?dirty = "pt_is_dirty (Pt E) (metas t p)"
  have here: "pt_is_present (Pt E) (metas t p)" "pt_get_object_addr (Pt E) (metas t p) = ?a" using pres by (simp_all add: present_def obj_at_def)
  have un: "\<not> pt_is_shared (Pt E) (metas t p)" and bk: "obj_backed E contents t ?dirty ?a"
    using ok here by (simp_all add: ptr_ok_def Let_def)
  then obtain oid where oid: "obj_id_bytes (Ob E) (heap t) ?a = u64_bytes oid" "oid < 2 ^ 38" and obj: "obj_ok (Ob E) (heap t) ?a"
    by (auto simp: obj_backed_def)
  have n: "evac_notifiers t (ob_get_ds_id (Ob E) (heap t) ?a) = 0" using nn by simp
  obtain d where e: "t' = t\<lparr>device := d, metas := (metas t)(p := pt_gc_wb (Pt E) (ob_get_ds_id (Ob E) (heap t) ?a) (ob_size (Ob E) (heap t) ?a) oid (metas t p))\<rparr>"
      "contents d = (if ?dirty then (contents (device t))((ob_get_ds_id (Ob E) (heap t) ?a, u64_bytes oid) \<mapsto> obj_data (Ob E) (heap t) ?a) else contents (device t))"
    using evict_spec [OF un n obj oid] unfolding t'_def by blast
  note v = evict_value [OF ok here n refl, folded t'_def]
  have k: "(fst v, fst (snd v)) = (ob_get_ds_id (Ob E) (heap t) ?a, u64_bytes oid)"
    using val here oid(1) by (auto simp: value_of_def obj_view_def Let_def)
  have dev: "\<forall>j. j \<noteq> (fst v, fst (snd v)) \<longrightarrow> contents (device t') j = contents (device t) j"
    unfolding k by (simp add: e)
  have "heap t' = heap t" "cache_region_manager t' = cache_region_manager t" "far_mem_region_manager t' = far_mem_region_manager t"
    "cur_slot t' = cur_slot t" by (simp_all add: e(1))
  moreover have "ptr_ok E contents t' p" "value_of E contents t' p = Some v" "\<not> present E t' p" using v val by (simp_all add: present_def)
  ultimately show ?thesis using dev unfolding moved_def by (simp add: e(1))
qed

end

text \<open>Allocating first changes nothing that counts.\<close>

lemma moved_after_alloc:
  assumes fr: "alloc_frame E items capacity N s t" and mv: "moved E contents p v Y t t'"
  shows "moved E contents p v Y s t'"
proof -
  note f = alloc_frame_fields [OF fr]
  have "\<forall>x. body x \<longrightarrow> x \<notin> Y \<longrightarrow> heap t' x = heap s x"
    using mv f(8) by (simp add: moved_def only_headers_def)
  moreover have "\<forall>k. k \<noteq> (fst v, fst (snd v)) \<longrightarrow> contents (device t') k = contents (device s) k"
    using mv f(2) by (simp add: moved_def)
  ultimately show ?thesis using mv f by (simp add: moved_def)
qed

lemma bytes_of_view:
  "object_env Ob' \<Longrightarrow> Ob E = Ob' \<Longrightarrow> obj_view (Ob E) h' a' = obj_view (Ob E) h a \<Longrightarrow> obj_ok (Ob E) h a \<Longrightarrow>
   bytes_of E h' a' = addr_range a' (unat (ob_size (Ob E) h a))"
  unfolding bytes_of_def using object_env.view_size by metis

context cache_space
begin

lemma swap_out_moved:
  assumes cok: "cache_ok E items capacity N s" and ok: "ptr_ok E contents s p" and pres: "present E s p"
    and val: "value_of E contents s p = Some v" and evac: "pt_is_evacuation (Pt E) (metas s p)" and calm: "calm s" and sp: "space X s"
  shows "\<exists>s' Y. swap_out E p (obj_at E s p) s = Some (Inr s') \<and> moved E contents p v Y s s' \<and> cache_ok E items capacity N s'
    \<and> far_mem_region_manager s' = far_mem_region_manager s
    \<and> region_ids (Rg E) items (cache_region_manager s') = region_ids (Rg E) items (cache_region_manager s)
    \<and> space (X \<union> Y) s' \<and> Y \<inter> X = {} \<and> (Y = {} \<or> (\<exists>i \<in># region_ids (Rg E) items (cache_region_manager s). Y \<subseteq> T i))
    \<and> space_step E p s s'"
proof -
  let ?a = "obj_at E s p" and ?dirty = "pt_is_dirty (Pt E) (metas s p)"
  have nn: "evac_notifiers s = (\<lambda>_. 0)" "copy_notifiers s = (\<lambda>_. 0)" using calm by (simp_all add: calm_def)
  have here: "pt_is_present (Pt E) (metas s p)" "pt_get_object_addr (Pt E) (metas s p) = ?a" using pres by (simp_all add: present_def obj_at_def)
  have un: "\<not> pt_is_shared (Pt E) (metas s p)" using ok by (simp add: ptr_ok_def Let_def)
  have flags: "evacuation_flags E p s = (pt_is_hot (Pt E) (metas s p), pt_is_nt (Pt E) (heap s) (metas s p), ?dirty)"
    using un by (simp add: evacuation_flags_def)
  show ?thesis
  proof (cases "pt_is_hot (Pt E) (metas s p) \<and> \<not> pt_is_nt (Pt E) (heap s) (metas s p) \<and> \<not> almost_empty s")
    case False
    then have "swap_out E p ?a s = Some (Inr (evict_object E p ?a ?dirty s))" using evac flags by (auto simp: swap_out_def)
    then show ?thesis using evict_moved [OF ok pres val nn(1)] cok sp
      by (intro exI [of _ "evict_object E p ?a ?dirty s"] exI [of _ "{}"])
        (simp add: cache_ok_def space_step_def nothing_drawn_def moved_def)
  next
    case hot: True
    let ?n = "ob_size (Ob E) (heap s) ?a"
    obtain res t where al: "allocate_local_object_nb E False ?n s = Some (Inr (res, t))"
        and fr: "alloc_frame E items capacity N s t"
        and res: "case res of None \<Rightarrow> items (free_regions (cache_region_manager t)) = []
          | Some a \<Rightarrow> placed a (unat ?n) \<and> addressable (Ob E) a"
      using allocate_nb_spec [OF cok] by blast
    note f = alloc_frame_fields [OF fr] and tk = allocate_nb_space [OF al cok sp] and tok = alloc_frame_ok [OF fr cok]
    have tv: "ptr_ok E contents t p" "value_of E contents t p = Some v"
        "obj_view (Ob E) (heap t) ?a = obj_view (Ob E) (heap s) ?a" "ob_size (Ob E) (heap t) ?a = ?n"
      using frame_value [OF ok fr] here val by auto
    have tp: "present E t p" "obj_at E t p = ?a" using pres f(1) by (simp_all add: present_def obj_at_def)
    note rebase = moved_after_alloc [OF fr]
    show ?thesis
    proof (cases res)
      case None
      then have out: "swap_out E p ?a s = Some (Inr (evict_object E p ?a ?dirty t))"
        using evac flags hot al by (simp add: swap_out_def Let_def)
      have d: "?dirty = pt_is_dirty (Pt E) (metas t p)" using f(1) by simp
      have m: "moved E contents p v {} t (evict_object E p ?a ?dirty t)"
          "cache_region_manager (evict_object E p ?a ?dirty t) = cache_region_manager t"
          "far_mem_region_manager (evict_object E p ?a ?dirty t) = far_mem_region_manager t" "cur_slot (evict_object E p ?a ?dirty t) = cur_slot t"
          "heap (evict_object E p ?a ?dirty t) = heap t" "\<not> present E (evict_object E p ?a ?dirty t) p"
        using evict_moved [OF tv(1) tp(1) tv(2)] f(11) nn(1) unfolding tp(2) d by simp_all
      have "nothing_drawn E s (evict_object E p ?a ?dirty t)" using al None f(8) m(2,5) by (auto simp: nothing_drawn_def)
      then have "space_step E p s (evict_object E p ?a ?dirty t)"
        using moved_fields(6) [OF m(1)] f(1) m(6) by (simp add: space_step_def)
      then show ?thesis using out rebase [OF m(1)] m(2-4) tok tk None f(7,10)
        by (intro exI [of _ "evict_object E p ?a ?dirty t"] exI [of _ "{}"]) (simp add: cache_ok_def taken_def)
    next
      case (Some b)
      let ?Y = "addr_range b (unat ?n)" and ?t' = "copy_object E p ?a ?n b t"
      have out: "swap_out E p ?a s = Some (Inr ?t')"
        using evac flags hot al Some by (simp add: swap_out_def Let_def)
      have bk: "obj_ok (Ob E) (heap t) ?a" using tv(1) tp by (simp add: ptr_ok_def obj_backed_def present_def obj_at_def Let_def)
      have b: "placed b (unat (ob_size (Ob E) (heap t) ?a))" "addressable (Ob E) b" using res Some tv(4) by simp_all
      have cn: "copy_notifiers t (ob_get_ds_id (Ob E) (heap t) ?a) = 0" using f(12) nn(2) by simp
      have unt: "\<not> pt_is_shared (Pt E) (metas t p)" using un f(1) by simp
      obtain h m where c: "?t' = t\<lparr>heap := h, metas := (metas t)(p := m)\<rparr>" "pt_is_present (Pt E) m" "pt_get_object_addr (Pt E) m = b"
          "obj_view (Ob E) h b = obj_view (Ob E) (heap t) ?a" "\<forall>x. body x \<longrightarrow> outside b (unat ?n) x \<longrightarrow> h x = heap t x"
        using copy_spec [OF unt cn bk b] unfolding tv(4) by blast
      have hv: "pt_is_present (Pt E) (metas t p)" "pt_get_object_addr (Pt E) (metas t p) = ?a" using here f(1) by simp_all
      note v = copy_value [OF tv(1) hv cn b, unfolded tv(4)]
      have "obj_bytes E ?t' p = ?Y"
        using bytes_of_view [OF object_env_axioms refl c(4) bk] c(1,3) tv(4) by (simp add: obj_bytes_def obj_at_def)
      moreover have "\<forall>x. body x \<longrightarrow> x \<notin> ?Y \<longrightarrow> heap ?t' x = heap t x" using c(1,5) by (simp add: addr_range_def)
      ultimately have mv: "moved E contents p v ?Y t ?t'" using v tv(2) unfolding moved_def by (simp add: c(1))
      have large: "ob_kHeaderSize (Ob E) < unat ?n"
        using present_size(3) [OF tv(1) tp(1)] tp(2) tv(4) by simp
      have here': "present E ?t' p" "obj_at E ?t' p = b" using c(1-3) by (simp_all add: present_def obj_at_def)
      have "ob_size (Ob E) (heap ?t') b = ?n" "obj_ok (Ob E) (heap ?t') b"
        using view_size [OF c(4) bk] view_ok [OF c(4)] bk tv(4) by (simp_all add: c(1))
      moreover have "owned_by (Ob E) (heap ?t') b p" if "p \<noteq> 0"
        using copy_owner [OF unt _ that, where n = "unat ?n" and a' = b] b(1) tv(4) large f(12) nn(2) by simp
      ultimately have "settled E ?n b p ?t'" using here' b(1) tv(4) large by (simp add: settled_def)
      moreover have "space_drawn E ?n b s ?t'"
        using al Some c(1,5) f(8) by (auto simp: space_drawn_def only_headers_def addr_range_def)
      ultimately have "space_step E p s ?t'" using moved_fields(6) [OF mv] f(1) unfolding space_step_def by auto
      moreover note mv
      moreover have "cache_region_manager ?t' = cache_region_manager t" "far_mem_region_manager ?t' = far_mem_region_manager t" "cur_slot ?t' = cur_slot t"
        by (simp_all add: c(1))
      ultimately show ?thesis using out rebase tok tk Some f(7,10)
        by (intro exI [of _ ?t'] exI [of _ ?Y]) (auto simp: cache_ok_def taken_def)
    qed
  qed
qed

end

section \<open>One object of the write-back\<close>

text \<open>
  The surroundings of a collection that runs alone: the owner and the id of an object are
  read from its bytes, a free lock is taken at once, no thread is left to be waited for.
\<close>

locale object_store = cache_space E items capacity contents area room T + gc_env E items capacity contents G
  for E :: "('q, 'd) ext" and items capacity contents area room T G +
  assumes owner_bytes: "obj_ok (Ob E) h a \<Longrightarrow> rd_bytes h' a (unat (ob_size (Ob E) h a)) = rd_bytes h a (unat (ob_size (Ob E) h a)) \<Longrightarrow>
      ob_get_ptr_addr (Ob E) h' a = ob_get_ptr_addr (Ob E) h a
      \<and> rd_bytes h' (ob_get_obj_id (Ob E) h a) (unat (ob_get_obj_id_len (Ob E) h a)) = obj_id_bytes (Ob E) h a"
    and lock_free: "obj_locks t = {} \<Longrightarrow> lock_wait E oid t = Some t"
    and no_threads: "get_num_threads G st t = 0"

text \<open>
  The state between two objects of the write-back: \<open>F\<close> are the bytes of the picked regions
  with the contents \<open>h0\<close>, \<open>rem\<close> the objects in them still to come, \<open>X\<close> the bytes in use. A
  live object still to come belongs to a present marked pointer, and a pointer into \<open>F\<close> has
  its object still to come.
\<close>

definition to_come :: "('q, 'd) ext \<Rightarrow> addr set \<Rightarrow> addr set \<Rightarrow> heap \<Rightarrow> addr set \<Rightarrow> ('q, 'd) fm_state \<Rightarrow> bool" where
  "to_come E Q F h0 rem s \<longleftrightarrow>
     (\<forall>x \<in> F. body x \<longrightarrow> heap s x = h0 x)
   \<and> (\<forall>a \<in> rem. \<not> ob_is_freed (Ob E) h0 a \<longrightarrow> ob_get_ptr_addr (Ob E) h0 a \<in> Q \<and> present E s (ob_get_ptr_addr (Ob E) h0 a)
        \<and> obj_at E s (ob_get_ptr_addr (Ob E) h0 a) = a \<and> pt_is_evacuation (Pt E) (metas s (ob_get_ptr_addr (Ob E) h0 a)))
   \<and> (\<forall>q \<in> Q. present E s q \<longrightarrow> obj_bytes E s q \<inter> F = {} \<or> obj_at E s q \<in> rem \<and> \<not> ob_is_freed (Ob E) h0 (obj_at E s q))"

lemma to_comeD:
  assumes "to_come E Q F h0 rem s"
  shows "\<forall>x \<in> F. body x \<longrightarrow> heap s x = h0 x"
    and "b \<in> rem \<Longrightarrow> \<not> ob_is_freed (Ob E) h0 b \<Longrightarrow> ob_get_ptr_addr (Ob E) h0 b \<in> Q \<and> present E s (ob_get_ptr_addr (Ob E) h0 b)
      \<and> obj_at E s (ob_get_ptr_addr (Ob E) h0 b) = b \<and> pt_is_evacuation (Pt E) (metas s (ob_get_ptr_addr (Ob E) h0 b))"
    and "q \<in> Q \<Longrightarrow> present E s q \<Longrightarrow> obj_bytes E s q \<inter> F = {} \<or> obj_at E s q \<in> rem \<and> \<not> ob_is_freed (Ob E) h0 (obj_at E s q)"
  using assms unfolding to_come_def by blast+

definition in_use :: "('q, 'd) ext \<Rightarrow> ('d \<Rightarrow> u8 \<times> u8 list \<Rightarrow> u8 list option) \<Rightarrow> (addr \<Rightarrow> u8 \<times> u8 list \<times> u8 list) \<Rightarrow>
   addr set \<Rightarrow> addr set \<Rightarrow> ('q, 'd) fm_state \<Rightarrow> bool" where
  "in_use E contents V Q X s \<longleftrightarrow> stored E contents V Q s \<and> apart E Q s \<and> live_bytes E Q s \<subseteq> X \<and> calm s \<and> obj_locks s = {}"

definition whole_object :: "('q, 'd) ext \<Rightarrow> addr set \<Rightarrow> heap \<Rightarrow> addr \<Rightarrow> bool" where
  "whole_object E F h a \<longleftrightarrow> obj_ok (Ob E) h a \<and> placed a (unat (ob_size (Ob E) h a)) \<and> bytes_of E h a \<subseteq> F"

lemma whole_object_same:
  assumes "whole_object E F h0 a" and "\<forall>x \<in> F. body x \<longrightarrow> h x = h0 x"
  shows "rd_bytes h a (unat (ob_size (Ob E) h0 a)) = rd_bytes h0 a (unat (ob_size (Ob E) h0 a))"
proof -
  have "h (a + of_nat i) = h0 (a + of_nat i)" if "i < unat (ob_size (Ob E) h0 a)" for i
  proof -
    have "a + of_nat i \<in> bytes_of E h0 a" using that by (auto simp: bytes_of_offset)
    moreover have "body (a + of_nat i)" using assms(1) that by (intro placed_body) (simp_all add: whole_object_def)
    ultimately show ?thesis using assms by (auto simp: whole_object_def)
  qed
  then show ?thesis by (simp add: rd_bytes_def)
qed

context manager_env
begin

text \<open>
  Giving one pointer a value, and bytes of its own, keeps all others; the pointer may be one
  of \<open>Q\<close> or a new one.
\<close>

lemma moved_in_use:
  assumes use: "in_use E contents V Q X s" and inj: "inj_on (key V') (insert p Q)" and V': "\<forall>q \<in> Q. q \<noteq> p \<longrightarrow> V' q = V q"
    and mv: "moved E contents p (V' p) Y (s\<lparr>obj_locks := l\<rparr>) s1" and Y: "Y \<inter> X = {}"
  shows "in_use E contents V' (insert p Q) (X \<union> Y) (s1\<lparr>obj_locks := {}\<rparr>)"
    and "q \<in> Q \<Longrightarrow> q \<noteq> p \<Longrightarrow> present E s1 q = present E s q \<and> obj_at E s1 q = obj_at E s q \<and> (present E s q \<longrightarrow> obj_bytes E s1 q = obj_bytes E s q)"
proof -
  note f = moved_fields [OF mv]
  have st: "\<And>q. q \<in> Q \<Longrightarrow> ptr_ok E contents s q \<and> value_of E contents s q = Some (V q)" and ap: "apart E Q s"
    and liv: "\<And>q. q \<in> Q \<Longrightarrow> present E s q \<Longrightarrow> obj_bytes E s q \<subseteq> X"
    using use by (auto simp: in_use_def stored_def live_bytes_def)
  have kept: "ptr_ok E contents s1 q \<and> value_of E contents s1 q = Some (V' q) \<and> present E s1 q = present E s q
      \<and> obj_at E s1 q = obj_at E s q \<and> (present E s q \<longrightarrow> obj_bytes E s1 q = obj_bytes E s q)" if q: "q \<in> Q" "q \<noteq> p" for q
  proof (rule pointer_kept)
    show "ptr_ok E contents s q" "value_of E contents s q = Some (V' q)" using st [OF q(1)] V' q by simp_all
    show "metas s1 q = metas s q" using f(6) [OF q(2)] by simp
    show "heap s1 x = heap s x" if "present E s q" "body x" "x \<in> obj_bytes E s q" for x
      using mv that liv [OF q(1)] Y by (auto simp: moved_def)
    have "key V' q \<noteq> key V' p" using inj_onD [OF inj, of q p] q by blast
    then show "contents (device s1) (fst (V' q), fst (snd (V' q))) = contents (device s) (fst (V' q), fst (snd (V' q)))"
      using mv by (simp add: moved_def key_def)
  qed
  then show "q \<in> Q \<Longrightarrow> q \<noteq> p \<Longrightarrow> present E s1 q = present E s q \<and> obj_at E s1 q = obj_at E s q \<and> (present E s q \<longrightarrow> obj_bytes E s1 q = obj_bytes E s q)"
    by blast
  let ?s = "s1\<lparr>obj_locks := {}\<rparr>"
  have same: "ptr_ok E contents ?s q = ptr_ok E contents s1 q" "value_of E contents ?s q = value_of E contents s1 q"
      "present E ?s q = present E s1 q" "obj_bytes E ?s q = obj_bytes E s1 q" for q
    by (simp_all add: ptr_ok_cong [of ?s q s1] present_def obj_bytes_def obj_at_def)
  have new: "present E s1 p \<longrightarrow> obj_bytes E s1 p \<subseteq> Y" "ptr_ok E contents s1 p" "value_of E contents s1 p = Some (V' p)"
    using mv by (simp_all add: moved_def)
  have "stored E contents V' (insert p Q) ?s" using kept new by (auto simp: stored_def same)
  moreover have at: "obj_bytes E s1 q \<subseteq> (if q = p then Y else X)" if "q \<in> insert p Q" "present E s1 q" for q
    using kept [of q] new liv [of q] that by auto
  have "apart E (insert p Q) ?s" unfolding apart_def same
  proof (intro ballI impI)
    fix q q'
    assume q: "q \<in> insert p Q" "q' \<in> insert p Q" "present E s1 q" "present E s1 q'" "q \<noteq> q'"
    show "obj_bytes E s1 q \<inter> obj_bytes E s1 q' = {}"
    proof (cases "q = p \<or> q' = p")
      case True
      then show ?thesis using at [OF q(1,3)] at [OF q(2,4)] q(5) Y by (auto split: if_splits)
    next
      case False
      then show ?thesis using kept [of q] kept [of q'] q ap by (auto simp: apart_def)
    qed
  qed
  moreover have "live_bytes E (insert p Q) ?s \<subseteq> X \<union> Y" using at by (fastforce simp: live_bytes_def same split: if_splits)
  ultimately show "in_use E contents V' (insert p Q) (X \<union> Y) ?s" using use f by (simp add: in_use_def calm_def)
qed

text \<open>What the store depends on.\<close>

lemma in_use_frame:
  assumes use: "in_use E contents V Q X s" and f: "metas s' = metas s" "device s' = device s" "obj_locks s' = obj_locks s"
      "evac_notifiers s' = evac_notifiers s" "copy_notifiers s' = copy_notifiers s"
    and h: "\<And>x. body x \<Longrightarrow> x \<in> live_bytes E Q s \<Longrightarrow> heap s' x = heap s x"
  shows "in_use E contents V Q X s'" and "present E s' q = present E s q" and "obj_at E s' q = obj_at E s q"
    and "q \<in> Q \<Longrightarrow> present E s q \<Longrightarrow> obj_bytes E s' q = obj_bytes E s q" and "live_bytes E Q s' = live_bytes E Q s"
proof -
  show p: "present E s' q = present E s q" "obj_at E s' q = obj_at E s q" for q using f(1) by (simp_all add: present_def obj_at_def)
  have kept: "ptr_ok E contents s' q \<and> value_of E contents s' q = Some (V q) \<and> (present E s q \<longrightarrow> obj_bytes E s' q = obj_bytes E s q)"
    if "q \<in> Q" for q
  proof -
    have "heap s' x = heap s x" if "present E s q" "body x" "x \<in> obj_bytes E s q" for x
      using h [OF that(2)] live_bytesI [OF \<open>q \<in> Q\<close> that(1)] that(3) by blast
    then show ?thesis using pointer_kept [of s q "V q" s'] use that f(1,2) by (simp add: in_use_def stored_def)
  qed
  then show b: "q \<in> Q \<Longrightarrow> present E s q \<Longrightarrow> obj_bytes E s' q = obj_bytes E s q" for q by blast
  have l: "live_bytes E Q s' = live_bytes E Q s"
    unfolding live_bytes_def p by (rule SUP_cong) (use b in simp_all)
  then show "live_bytes E Q s' = live_bytes E Q s" .
  have "stored E contents V Q s'" using kept by (simp add: stored_def)
  moreover have "apart E Q s'" using use b unfolding in_use_def apart_def p by simp
  ultimately show "in_use E contents V Q X s'" using use f l by (simp add: in_use_def calm_def)
qed

lemma in_use_headers:
  assumes "in_use E contents V Q X s" and "metas s' = metas s" "device s' = device s" "obj_locks s' = obj_locks s"
      "evac_notifiers s' = evac_notifiers s" "copy_notifiers s' = copy_notifiers s" and "only_headers (heap s) (heap s')"
  shows "in_use E contents V Q X s'" and "present E s' q = present E s q" and "obj_at E s' q = obj_at E s q"
    and "q \<in> Q \<Longrightarrow> present E s q \<Longrightarrow> obj_bytes E s' q = obj_bytes E s q" and "live_bytes E Q s' = live_bytes E Q s"
  using in_use_frame [OF assms(1-6)] assms(7) unfolding only_headers_def by blast+

end

context object_store
begin

text \<open>The whole state between two objects; \<open>ids\<close> are the regions of the manager.\<close>

definition writing :: "(('q, 'd) fm_state \<Rightarrow> bool) \<Rightarrow> (addr \<Rightarrow> u8 \<times> u8 list \<times> u8 list) \<Rightarrow> addr set \<Rightarrow> nat \<Rightarrow> addr set \<Rightarrow> heap \<Rightarrow> u32 multiset \<Rightarrow> Region list \<Rightarrow>
   'q RegionManager \<Rightarrow> addr list \<Rightarrow> addr set \<Rightarrow> ('q, 'd) fm_state \<Rightarrow> bool" where
  "writing I V Q N F h0 ids fr fm rem X s \<longleftrightarrow> I s \<and>
     cache_ok E items capacity N s \<and> region_ids (Rg E) items (cache_region_manager s) = ids \<and> from_regions s = fr
   \<and> far_mem_region_manager s = fm \<and> in_use E contents V Q X s \<and> F \<subseteq> X \<and> space X s \<and> to_come E Q F h0 (set rem) s"

text \<open>
  An invariant of pointer words, memory and regions that every eviction of an object in \<open>F\<close> keeps.
\<close>

definition kept_by_eviction :: "(('q, 'd) fm_state \<Rightarrow> bool) \<Rightarrow> (addr \<Rightarrow> u8 \<times> u8 list \<times> u8 list) \<Rightarrow> addr set \<Rightarrow> nat \<Rightarrow> addr set \<Rightarrow> bool" where
  "kept_by_eviction I V Q N F \<longleftrightarrow>
     (\<forall>s s'. metas s' = metas s \<longrightarrow> heap s' = heap s \<longrightarrow> cache_region_manager s' = cache_region_manager s \<longrightarrow> I s \<longrightarrow> I s')
   \<and> (\<forall>s X p l s2. I s \<longrightarrow> cache_ok E items capacity N s \<longrightarrow> in_use E contents V Q X s \<longrightarrow> space X s \<longrightarrow>
     p \<in> Q \<longrightarrow> present E s p \<longrightarrow> obj_bytes E s p \<subseteq> F \<longrightarrow> space_step E p (s\<lparr>obj_locks := l\<rparr>) s2 \<longrightarrow> I (s2\<lparr>obj_locks := {}\<rparr>))"

lemma kept_trivial: "kept_by_eviction (\<lambda>_. True) V Q N F"
  by (simp add: kept_by_eviction_def)

lemma same_object:
  assumes "whole_object E F h0 a" and "\<forall>x \<in> F. body x \<longrightarrow> h x = h0 x"
  shows "ob_is_freed (Ob E) h a = ob_is_freed (Ob E) h0 a" "ob_size (Ob E) h a = ob_size (Ob E) h0 a"
    "ob_get_ptr_addr (Ob E) h a = ob_get_ptr_addr (Ob E) h0 a" "obj_ok (Ob E) h a"
    "rd_bytes h (ob_get_obj_id (Ob E) h0 a) (unat (ob_get_obj_id_len (Ob E) h0 a)) = obj_id_bytes (Ob E) h0 a"
proof -
  have ok: "obj_ok (Ob E) h0 a" using assms(1) by (simp add: whole_object_def)
  note same = whole_object_same [OF assms]
  show "ob_is_freed (Ob E) h a = ob_is_freed (Ob E) h0 a" "ob_size (Ob E) h a = ob_size (Ob E) h0 a"
    using view_bytes [OF ok same] by blast+
  show "obj_ok (Ob E) h a" using view_bytes [OF ok same] view_ok ok by blast
  show "ob_get_ptr_addr (Ob E) h a = ob_get_ptr_addr (Ob E) h0 a"
    "rd_bytes h (ob_get_obj_id (Ob E) h0 a) (unat (ob_get_obj_id_len (Ob E) h0 a)) = obj_id_bytes (Ob E) h0 a"
    using owner_bytes [OF ok same] by blast+
qed

text \<open>
  Swapping out the object \<open>a\<close>, whatever locks are held: the pointer keeps its value, other
  pointers keep their words, and the other objects are still to come.
\<close>

lemma evict_step:
  assumes cok: "cache_ok E items capacity N s" and use: "in_use E contents V Q X s" and FX: "F \<subseteq> X" and sp: "space X s"
    and tc: "to_come E Q F h0 (insert a R) s" and inj: "inj_on (key V) Q" and d: "a \<notin> R" and live: "\<not> ob_is_freed (Ob E) h0 a"
  defines "p \<equiv> ob_get_ptr_addr (Ob E) h0 a"
  shows "\<exists>s2 Y. swap_out E p a (s\<lparr>obj_locks := l\<rparr>) = Some (Inr s2) \<and> space_step E p (s\<lparr>obj_locks := l\<rparr>) s2
    \<and> moved E contents p (V p) Y (s\<lparr>obj_locks := l\<rparr>) s2
    \<and> cache_ok E items capacity N s2 \<and> region_ids (Rg E) items (cache_region_manager s2) = region_ids (Rg E) items (cache_region_manager s)
    \<and> far_mem_region_manager s2 = far_mem_region_manager s \<and> space (X \<union> Y) s2 \<and> Y \<inter> X = {} \<and> to_come E Q F h0 R s2"
proof -
  let ?s1 = "s\<lparr>obj_locks := l\<rparr>"
  note h0 = to_comeD(1) [OF tc] and owner = to_comeD(2) [OF tc] and inside = to_comeD(3) [OF tc]
  have p: "p \<in> Q" "present E s p" "obj_at E s p = a" "pt_is_evacuation (Pt E) (metas s p)"
    using owner [of a] live by (simp_all add: p_def)
  have st: "ptr_ok E contents s p" "value_of E contents s p = Some (V p)" using use p(1) by (simp_all add: in_use_def stored_def)
  have one: "cache_ok E items capacity N ?s1" "ptr_ok E contents ?s1 p" "present E ?s1 p" "value_of E contents ?s1 p = Some (V p)"
      "calm ?s1" "space X ?s1" "obj_at E ?s1 p = a"
    using cok st p use sp by (simp_all add: cache_ok_def ptr_ok_cong [of ?s1 p s] present_def in_use_def calm_def obj_at_def)
  obtain s2 Y where run: "swap_out E p a ?s1 = Some (Inr s2)" and mv: "moved E contents p (V p) Y ?s1 s2"
      and s2: "cache_ok E items capacity N s2" "region_ids (Rg E) items (cache_region_manager s2) = region_ids (Rg E) items (cache_region_manager s)"
        "far_mem_region_manager s2 = far_mem_region_manager s" "space (X \<union> Y) s2" and Y: "Y \<inter> X = {}"
      and step: "space_step E p ?s1 s2"
    using swap_out_moved [OF one(1-4) _ one(5,6)] p(4) one(7) by auto
  have inj': "inj_on (key V) (insert p Q)" using inj p(1) by (simp add: insert_absorb)
  note m = moved_in_use(2) [OF use inj' _ mv Y, simplified] and f = moved_fields(6) [OF mv]
  have YF: "Y \<inter> F = {}" using Y FX by blast
  have heap2: "\<forall>x \<in> F. body x \<longrightarrow> heap s2 x = h0 x" using mv YF h0 by (auto simp: moved_def)
  have other: "present E s2 q = present E s q" "obj_at E s2 q = obj_at E s q" "present E s q \<Longrightarrow> obj_bytes E s2 q = obj_bytes E s q"
      "metas s2 q = metas s q" if "q \<in> Q" "q \<noteq> p" for q
    using m [OF that] f [OF that(2)] by simp_all
  have rest: "ob_get_ptr_addr (Ob E) h0 b \<in> Q \<and> present E s2 (ob_get_ptr_addr (Ob E) h0 b)
      \<and> obj_at E s2 (ob_get_ptr_addr (Ob E) h0 b) = b \<and> pt_is_evacuation (Pt E) (metas s2 (ob_get_ptr_addr (Ob E) h0 b))"
    if b: "b \<in> R" "\<not> ob_is_freed (Ob E) h0 b" for b
  proof -
    let ?q = "ob_get_ptr_addr (Ob E) h0 b"
    have q: "?q \<in> Q" "present E s ?q" "obj_at E s ?q = b" "pt_is_evacuation (Pt E) (metas s ?q)" using owner [of b] b by simp_all
    have "?q \<noteq> p" using p(3) q(3) b(1) d by metis
    then show ?thesis using other [OF q(1)] q by metis
  qed
  have gone: "obj_bytes E s2 q \<inter> F = {} \<or> obj_at E s2 q \<in> R \<and> \<not> ob_is_freed (Ob E) h0 (obj_at E s2 q)"
    if q: "q \<in> Q" "present E s2 q" for q
  proof (cases "q = p")
    case True
    then have "obj_bytes E s2 q \<subseteq> Y" using mv q(2) by (simp add: moved_def)
    then show ?thesis using YF by blast
  next
    case q': False
    have "obj_at E s q \<noteq> a"
    proof
      assume e: "obj_at E s q = a"
      have "obj_bytes E s q \<inter> obj_bytes E s p = {}"
        using use q p(1,2) q' other [OF q(1) q'] by (simp add: in_use_def apart_def)
      moreover have "a \<in> bytes_of E (heap s) a"
      proof -
        have "obj_backed E contents s (pt_is_dirty (Pt E) (metas s p)) a"
          using st(1) p(2,3) by (simp add: ptr_ok_def present_def obj_at_def Let_def)
        then have "length (obj_id_bytes (Ob E) (heap s) a) = 8" "obj_ok (Ob E) (heap s) a" by (auto simp: obj_backed_def)
        then have "0 < unat (ob_size (Ob E) (heap s) a)" using size_view [of "heap s" a] by linarith
        then show ?thesis unfolding bytes_of_offset by (intro exI [of _ 0]) simp
      qed
      ultimately show False using e p(3) by (auto simp: obj_bytes_def)
    qed
    then show ?thesis using inside [OF q(1)] q other [OF q(1) q'] by auto
  qed
  have "to_come E Q F h0 R s2" unfolding to_come_def using heap2 rest gone by simp
  then show ?thesis using run mv s2 Y step by blast
qed

lemma visit_write:
  assumes w: "writing I V Q N F h0 ids fr fm (a # rem) X s" and inj: "inj_on (key V) Q" and d: "a \<notin> set rem"
    and obj: "whole_object E F h0 a" and terr: "\<forall>i \<in># ids. T i \<inter> F = {}"
    and keep: "kept_by_eviction I V Q N F"
  shows "\<exists>s' X'. visit_object E (swap_out E) a s = Some (Inr s') \<and> writing I V Q N F h0 ids fr fm rem X' s'"
proof -
  have cok: "cache_ok E items capacity N s" and ids: "region_ids (Rg E) items (cache_region_manager s) = ids"
    and fr: "from_regions s = fr" "far_mem_region_manager s = fm"
    and use: "in_use E contents V Q X s" and FX: "F \<subseteq> X" and sp: "space X s" and inv: "I s"
    and tc: "to_come E Q F h0 (insert a (set rem)) s"
    using w by (simp_all add: writing_def)
  have h0: "\<forall>x \<in> F. body x \<longrightarrow> heap s x = h0 x" using tc by (simp add: to_come_def)
  note a = same_object [OF obj h0]
  show ?thesis
  proof (cases "ob_is_freed (Ob E) h0 a")
    case True
    then have "visit_object E (swap_out E) a s = Some (Inr s)" using a(1) by (simp add: visit_object_def)
    moreover have "to_come E Q F h0 (set rem) s" using tc True by (auto simp: to_come_def)
    ultimately show ?thesis using w by (auto simp: writing_def)
  next
    case False
    let ?p = "ob_get_ptr_addr (Ob E) h0 a"
    let ?id = "ob_get_obj_id (Ob E) (heap s) a" and ?len = "unat (ob_get_obj_id_len (Ob E) (heap s) a)"
    let ?k = "rd_bytes (heap s) ?id ?len"
    let ?s1 = "s\<lparr>obj_locks := {?k}\<rparr>"
    obtain s2 Y where run: "swap_out E ?p a ?s1 = Some (Inr s2)" and mv: "moved E contents ?p (V ?p) Y ?s1 s2"
        and s2: "cache_ok E items capacity N s2" "region_ids (Rg E) items (cache_region_manager s2) = ids"
          "far_mem_region_manager s2 = far_mem_region_manager s" "space (X \<union> Y) s2"
        and Y: "Y \<inter> X = {}" and rest: "to_come E Q F h0 (set rem) s2" and step: "space_step E ?p ?s1 s2"
      using evict_step [OF cok use FX sp tc inj d False, of "{?k}"] unfolding ids by (elim exE conjE) (rule that)
    let ?s' = "s2\<lparr>obj_locks := {}\<rparr>"
    have p: "?p \<in> Q" "present E s ?p" "obj_at E s ?p = a" using tc False by (simp_all add: to_come_def)
    have inj': "inj_on (key V) (insert ?p Q)" using inj p by (simp add: insert_absorb)
    note m = moved_in_use(1) [OF use inj' _ mv Y, simplified insert_absorb [OF p(1)], simplified] and f = moved_fields [OF mv]
    have whole: "whole_object E F (heap s) a" using obj a by (simp add: whole_object_def bytes_of_def)
    then have "obj_bytes E s ?p \<subseteq> F" by (simp add: obj_bytes_def p(3) whole_object_def)
    then have inv': "I ?s'" using keep inv cok use sp p(1,2) step unfolding kept_by_eviction_def by blast
    have "\<forall>x \<in> F. body x \<longrightarrow> heap s2 x = heap s x" using rest h0 by (simp add: to_come_def)
    from same_object(5) [OF whole this] have idk: "rd_bytes (heap s2) ?id ?len = ?k" by (simp add: obj_id_bytes_def)
    have l: "obj_locks s = {}" using use by (simp add: in_use_def)
    then have "lock_wait E ?k s = Some s" by (rule lock_free)
    moreover have "unlock_object ?k s2 = ?s'" using f(1) by (simp add: unlock_object_def)
    ultimately have "visit_object E (swap_out E) a s = Some (Inr ?s')"
      using False a(1,3) run idk l by (simp add: visit_object_def lock_object_def Let_def)
    moreover have "to_come E Q F h0 (set rem) ?s'" using rest by (simp add: to_come_def present_def obj_at_def obj_bytes_def)
    moreover have "cache_ok E items capacity N ?s'" using s2(1) by (simp add: cache_ok_def)
    ultimately show ?thesis using m s2 FX f(4) fr inv'
      by (intro exI [of _ ?s'] exI [of _ "X \<union> Y"]) (auto simp: writing_def)
  qed
qed

section \<open>The phases\<close>

lemma walk_write:
  assumes inj: "inj_on (key V) Q" and terr: "\<forall>i \<in># ids. T i \<inter> F = {}"
    and keep: "kept_by_eviction I V Q N F"
  shows "object_chain G E h0 right cur as \<Longrightarrow> writing I V Q N F h0 ids fr fm (as @ rem) X s \<Longrightarrow> distinct (as @ rem) \<Longrightarrow>
    \<forall>a \<in> set as. whole_object E F h0 a \<Longrightarrow>
    \<exists>s' X'. walk_objects G E (swap_out E) right cur s = Some (Inr s') \<and> writing I V Q N F h0 ids fr fm rem X' s'"
proof (induction as arbitrary: cur s X)
  case Nil
  then show ?case by (subst walk_objects.simps) auto
next
  case (Cons a as)
  have a: "a = cur" "cur + of_nat (ob_kHeaderSize (Ob E)) < right"
    and rest: "object_chain G E h0 right (cur + align_to G (ucast (ob_size (Ob E) h0 cur)) (of_nat 8)) as"
    using Cons.prems(1) by simp_all
  have obj: "whole_object E F h0 a" using Cons.prems(4) by simp
  have w: "writing I V Q N F h0 ids fr fm (a # (as @ rem)) X s" "a \<notin> set (as @ rem)" using Cons.prems(2,3) by simp_all
  obtain s1 X1 where v: "visit_object E (swap_out E) a s = Some (Inr s1)" "writing I V Q N F h0 ids fr fm (as @ rem) X1 s1"
    using visit_write [OF w(1) inj w(2) obj terr keep] by (elim exE conjE) (rule that)
  have "\<forall>x \<in> F. body x \<longrightarrow> heap s1 x = h0 x" using v(2) unfolding writing_def to_come_def by (elim conjE)
  from same_object(2) [OF obj this] have "ob_size (Ob E) (heap s1) cur = ob_size (Ob E) h0 cur" unfolding a(1) .
  then have "walk_objects G E (swap_out E) right cur s
      = walk_objects G E (swap_out E) right (cur + align_to G (ucast (ob_size (Ob E) h0 cur)) (of_nat 8)) s1"
    using a v(1) by (subst walk_objects.simps) simp
  then show ?case using Cons.IH [OF rest v(2)] Cons.prems(3,4) by simp
qed

lemma slave_write:
  assumes inj: "inj_on (key V) Q" and terr: "\<forall>i \<in># ids. T i \<inter> F = {}"
    and keep: "kept_by_eviction I V Q N F"
  shows "\<forall>t \<in> set tasks. object_chain G E h0 (snd t) (fst t) (ch t) \<Longrightarrow> writing I V Q N F h0 ids fr fm (concat (map ch tasks)) X s \<Longrightarrow>
    distinct (concat (map ch tasks)) \<Longrightarrow> \<forall>a \<in> set (concat (map ch tasks)). whole_object E F h0 a \<Longrightarrow>
    \<exists>s' X'. slave_fn G E (swap_out E) tasks s = Some (Inr s') \<and> writing I V Q N F h0 ids fr fm [] X' s'"
proof (induction tasks arbitrary: s X)
  case (Cons t tasks)
  obtain s1 X1 where w: "walk_objects G E (swap_out E) (snd t) (fst t) s = Some (Inr s1)" "writing I V Q N F h0 ids fr fm (concat (map ch tasks)) X1 s1"
    using walk_write [OF inj terr keep, of h0 "snd t" "fst t" "ch t" fr fm "concat (map ch tasks)" X s] Cons.prems by (simp del: walk_objects.simps) blast
  then show ?case using Cons.IH [OF _ w(2)] Cons.prems by simp
qed auto

text \<open>Marking over several tasks.\<close>

lemma live_ptrs_append: "live_ptrs E s (xs @ ys) = live_ptrs E s xs \<union> live_ptrs E s ys"
  by (auto simp: live_ptrs_def)

lemma slave_mark:
  "obj_locks s = {} \<Longrightarrow> \<forall>t \<in> set tasks. object_chain G E (heap s) (snd t) (fst t) (ch t) \<Longrightarrow>
   \<forall>q \<in> live_ptrs E s (concat (map ch tasks)). present E s q \<Longrightarrow>
   \<exists>ms. slave_fn G E (mark_pointers E) tasks s = Some (Inr (s\<lparr>metas := ms\<rparr>))
     \<and> (\<forall>q. if q \<in> live_ptrs E s (concat (map ch tasks)) then marked_of E (metas s q) (ms q) else ms q = metas s q)"
proof (induction tasks arbitrary: s)
  case Nil
  show ?case by (intro exI [of _ "metas s"]) (simp add: live_ptrs_def)
next
  case (Cons t tasks)
  let ?L = "live_ptrs E s (ch t)" and ?L' = "live_ptrs E s (concat (map ch tasks))"
  have split: "live_ptrs E s (concat (map ch (t # tasks))) = ?L \<union> ?L'" by (simp add: live_ptrs_append)
  have there: "pt_is_present (Pt E) (metas s q)" if "q \<in> ?L \<union> ?L'" for q
    using Cons.prems(3) that unfolding split by (auto simp: present_def)
  obtain ms where w: "walk_objects G E (mark_pointers E) (snd t) (fst t) s = Some (Inr (s\<lparr>metas := ms\<rparr>))"
      "\<forall>q. if q \<in> ?L then marked_of E (metas s q) (ms q) else ms q = metas s q"
    using walk_mark [OF lock_free Cons.prems(1), of G "snd t" "fst t" "ch t"] Cons.prems(2) there by auto
  let ?s = "s\<lparr>metas := ms\<rparr>"
  have sh: "pt_is_shared (Pt E) (ms q) = pt_is_shared (Pt E) (metas s q)"
      "pt_is_present (Pt E) (metas s q) \<Longrightarrow> pt_is_present (Pt E) (ms q)" for q
    using w(2) [rule_format, of q] by (cases "q \<in> ?L"; simp add: marked_of_def)+
  have "ptr_targets E q ?s = ptr_targets E q s" for q
    using sh(1) [of q] by (cases "pt_is_shared (Pt E) (metas s q)") (simp_all add: ptr_targets_def)
  then have same: "live_ptrs E ?s as = live_ptrs E s as" for as by (simp add: live_ptrs_def)
  have "\<exists>ms'. slave_fn G E (mark_pointers E) tasks ?s = Some (Inr (?s\<lparr>metas := ms'\<rparr>))
      \<and> (\<forall>q. if q \<in> live_ptrs E ?s (concat (map ch tasks)) then marked_of E (metas ?s q) (ms' q) else ms' q = metas ?s q)"
    by (rule Cons.IH) (use Cons.prems(1,2) same there sh(2) in \<open>simp_all add: present_def\<close>)
  then obtain ms' where r: "slave_fn G E (mark_pointers E) tasks ?s = Some (Inr (s\<lparr>metas := ms'\<rparr>))"
      "\<forall>q. if q \<in> ?L' then marked_of E (ms q) (ms' q) else ms' q = ms q"
    unfolding same by (auto cong: if_cong simp del: if_split)
  have "slave_fn G E (mark_pointers E) (t # tasks) s = Some (Inr (s\<lparr>metas := ms'\<rparr>))" using w(1) r(1) by simp
  moreover have "if q \<in> ?L \<union> ?L' then marked_of E (metas s q) (ms' q) else ms' q = metas s q" for q
    using w(2) [rule_format, of q] r(2) [rule_format, of q] by (cases "q \<in> ?L"; cases "q \<in> ?L'") (auto simp: marked_of_def)
  ultimately show ?case unfolding split by blast
qed

text \<open>Marked pointers have the same object and value.\<close>

lemma marked_in_use:
  assumes use: "in_use E contents V Q X s" and ms: "\<forall>q. ms q = metas s q \<or> pt_is_present (Pt E) (metas s q) \<and> marked_of E (metas s q) (ms q)"
  shows "in_use E contents V Q X (s\<lparr>metas := ms\<rparr>)"
    and "present E (s\<lparr>metas := ms\<rparr>) q = present E s q" and "present E s q \<Longrightarrow> obj_at E (s\<lparr>metas := ms\<rparr>) q = obj_at E s q"
proof -
  let ?s = "s\<lparr>metas := ms\<rparr>"
  have p: "present E ?s q = present E s q" "present E s q \<Longrightarrow> obj_at E ?s q = obj_at E s q" for q
    using ms [rule_format, of q] by (auto simp: present_def obj_at_def marked_of_def)
  then show "present E ?s q = present E s q" "present E s q \<Longrightarrow> obj_at E ?s q = obj_at E s q" by blast+
  have b: "present E s q \<Longrightarrow> obj_bytes E ?s q = obj_bytes E s q" for q using p by (simp add: obj_bytes_def)
  have "ptr_ok E contents ?s q = ptr_ok E contents s q \<and> value_of E contents ?s q = value_of E contents s q" for q
  proof (cases "ms q = metas s q")
    case True
    then show ?thesis by (simp add: ptr_ok_def value_of_def obj_backed_def Let_def)
  next
    case False
    then show ?thesis using ms [rule_format, of q] by (simp add: ptr_ok_def value_of_def obj_backed_def marked_of_def Let_def)
  qed
  then have "stored E contents V Q ?s" using use by (simp add: in_use_def stored_def)
  moreover have "apart E Q ?s" using use p b unfolding in_use_def apart_def by simp
  moreover have "live_bytes E Q ?s \<subseteq> X" using use p b by (auto simp: in_use_def live_bytes_def)
  ultimately show "in_use E contents V Q X ?s" using use by (simp add: in_use_def calm_def)
qed

lemma space_add:
  assumes "space X s" and "\<forall>i \<in># region_ids (Rg E) items (cache_region_manager s). T i \<inter> F = {}"
  shows "space (X \<union> F) s"
proof -
  have "spaced area room T (X \<union> F) r" if r: "r \<in># owned_regions items (cache_region_manager s)" "\<not> rg_is_invalid (Rg E) r" for r
  proof -
    have "region_idx r \<in># region_ids (Rg E) items (cache_region_manager s)" using r by (auto simp: region_ids_def valid_ids_def)
    then have "T (region_idx r) \<inter> F = {}" using assms(2) by blast
    moreover have "spaced area room T X r" using assms(1) r by (simp add: space_ok_def all_valid_def)
    ultimately show ?thesis using room_area [of r] unfolding spaced_def by blast
  qed
  then show ?thesis using assms(1) by (simp add: space_ok_def all_valid_def)
qed

lemma push_from_space:
  assumes "cache_ok E items capacity N s" and "space X s"
    and "\<forall>r \<in> set rs. \<not> rg_is_invalid (Rg E) r \<and> area r \<subseteq> T (region_idx r) \<and> area r \<inter> X = {}"
    and "distinct (map region_idx rs)" and "region_idx ` set rs \<inter> set_mset (region_ids (Rg E) items (cache_region_manager s)) = {}"
    and "size (region_ids (Rg E) items (cache_region_manager s)) + length rs \<le> N"
  shows "\<exists>h m fr. push_from_regions E pushed rs s = Inr (s\<lparr>heap := h, cache_region_manager := m, from_regions := fr\<rparr>)
    \<and> only_headers (heap s) h \<and> rm_wf (Rg E) items capacity N m \<and> space_ok (Rg E) items area room T X m
    \<and> region_ids (Rg E) items m = region_ids (Rg E) items (cache_region_manager s) + mset (map region_idx rs)"
  using assms
proof (induction rs arbitrary: s pushed)
  case Nil
  then show ?case
    by (intro exI [of _ "heap s"] exI [of _ "cache_region_manager s"] exI [of _ pushed]) (simp add: cache_ok_def)
next
  case (Cons r rs)
  let ?m = "cache_region_manager s"
  have wf: "rm_wf (Rg E) items capacity N ?m" and sz: "size (region_ids (Rg E) items ?m) < N" and v: "\<not> rg_is_invalid (Rg E) r"
    and fresh: "region_idx r \<notin># region_ids (Rg E) items ?m" and ar: "area r \<subseteq> T (region_idx r)" "area r \<inter> X = {}"
    using Cons.prems by (auto simp: cache_ok_def)
  obtain r' h m where p: "push_free_region (Rg E) (Cb E) r (heap s) ?m = Inr (r', h, m)" "rm_wf (Rg E) items capacity N m"
      "region_ids (Rg E) items m = add_mset (region_idx r) (region_ids (Rg E) items ?m)"
    using push_free_spec [OF wf sz v, of "heap s"] by blast
  have sp: "space_ok (Rg E) items area room T X m"
    by (rule push_free_space [OF wf sz v Cons.prems(2) fresh ar p(1)])
  have hd: "only_headers (heap s) h"
    using p(1) reset_headers by (auto simp: push_free_region_def Let_def split: prod.splits if_splits)
  let ?s = "s\<lparr>heap := h, cache_region_manager := m\<rparr>"
  have "\<exists>h' m' fr. push_from_regions E (pushed @ [r']) rs ?s = Inr (?s\<lparr>heap := h', cache_region_manager := m', from_regions := fr\<rparr>)
      \<and> only_headers (heap ?s) h' \<and> rm_wf (Rg E) items capacity N m' \<and> space_ok (Rg E) items area room T X m'
      \<and> region_ids (Rg E) items m' = region_ids (Rg E) items (cache_region_manager ?s) + mset (map region_idx rs)"
    by (rule Cons.IH) (use Cons.prems p sp in \<open>auto simp: cache_ok_def\<close>)
  then obtain h' m' fr where r: "push_from_regions E (pushed @ [r']) rs ?s = Inr (?s\<lparr>heap := h', cache_region_manager := m', from_regions := fr\<rparr>)"
      "only_headers h h'" "rm_wf (Rg E) items capacity N m'" "space_ok (Rg E) items area room T X m'"
      "region_ids (Rg E) items m' = region_ids (Rg E) items m + mset (map region_idx rs)" by auto
  have "push_from_regions E pushed (r # rs) s = Inr (s\<lparr>heap := h', cache_region_manager := m', from_regions := fr\<rparr>)"
    using p(1) r(1) by simp
  then show ?case using r(2-5) p(3) only_headers_trans [OF hd r(2)] by auto
qed

end

section \<open>A round\<close>

text \<open>
  The invariant of the cache between collections: the managers are well formed, the objects
  of present pointers are apart, and free space is apart from all of them.
\<close>

definition store_inv :: "('q, 'd) ext \<Rightarrow> ('q \<Rightarrow> Region list) \<Rightarrow> ('q \<Rightarrow> nat) \<Rightarrow> ('d \<Rightarrow> u8 \<times> u8 list \<Rightarrow> u8 list option) \<Rightarrow>
   (Region \<Rightarrow> addr set) \<Rightarrow> (Region \<Rightarrow> addr set) \<Rightarrow> (u32 \<Rightarrow> addr set) \<Rightarrow> (addr \<Rightarrow> u8 \<times> u8 list \<times> u8 list) \<Rightarrow> addr set \<Rightarrow> nat \<Rightarrow>
   ('q, 'd) fm_state \<Rightarrow> bool" where
  "store_inv E items capacity contents area room T V Q N s \<longleftrightarrow>
     cache_ok E items capacity N s \<and> inj_on (key V) Q \<and> in_use E contents V Q (live_bytes E Q s) s
   \<and> space_ok (Rg E) items area room T (live_bytes E Q s) (cache_region_manager s)"

text \<open>
  The picked regions: they have left the manager, and every task of the master is a chain of
  whole objects, each freed or belonging to its pointer; no other pointer of \<open>Q\<close> has its
  object there.
\<close>

definition picked_bytes :: "(Region \<Rightarrow> addr set) \<Rightarrow> ('q, 'd) fm_state \<Rightarrow> addr set" where
  "picked_bytes area s = (\<Union>r \<in> set (from_regions s). area r)"

definition picked_objects :: "('q, 'd) ext \<Rightarrow> ((addr \<times> addr) \<Rightarrow> addr list) \<Rightarrow> ('q, 'd) fm_state \<Rightarrow> addr list" where
  "picked_objects E ch s = concat (map ch (master_fn (Rg E) (from_regions s)))"

definition picked_ok :: "('q, 'd) ext \<Rightarrow> ('q \<Rightarrow> Region list) \<Rightarrow> (Region \<Rightarrow> addr set) \<Rightarrow> (u32 \<Rightarrow> addr set) \<Rightarrow> nat \<Rightarrow> ('q, 'd) fm_state \<Rightarrow> bool" where
  "picked_ok E items area T N s \<longleftrightarrow>
     (\<forall>r \<in> set (from_regions s). \<not> rg_is_invalid (Rg E) r \<and> area r \<subseteq> T (region_idx r)
        \<and> region_idx r \<notin># region_ids (Rg E) items (cache_region_manager s))
   \<and> distinct (map region_idx (from_regions s))
   \<and> size (region_ids (Rg E) items (cache_region_manager s)) + length (from_regions s) \<le> N"

definition parsed :: "('q, 'd) gc_ext \<Rightarrow> ('q, 'd) ext \<Rightarrow> (Region \<Rightarrow> addr set) \<Rightarrow> addr set \<Rightarrow> ((addr \<times> addr) \<Rightarrow> addr list) \<Rightarrow> ('q, 'd) fm_state \<Rightarrow> bool" where
  "parsed G E area Q ch s \<longleftrightarrow>
     (\<forall>t \<in> set (master_fn (Rg E) (from_regions s)). object_chain G E (heap s) (snd t) (fst t) (ch t))
   \<and> distinct (picked_objects E ch s)
   \<and> (\<forall>a \<in> set (picked_objects E ch s). whole_object E (picked_bytes area s) (heap s) a
        \<and> (\<not> ob_is_freed (Ob E) (heap s) a \<longrightarrow> ob_get_ptr_addr (Ob E) (heap s) a \<in> Q
             \<and> present E s (ob_get_ptr_addr (Ob E) (heap s) a) \<and> obj_at E s (ob_get_ptr_addr (Ob E) (heap s) a) = a))
   \<and> (\<forall>q \<in> Q. present E s q \<longrightarrow> obj_bytes E s q \<inter> picked_bytes area s = {}
        \<or> obj_at E s q \<in> set (picked_objects E ch s) \<and> \<not> ob_is_freed (Ob E) (heap s) (obj_at E s q))"

text \<open>The order in which the slaves run changes no object.\<close>

lemma tasks_perm:
  assumes "mset xs = mset ys"
  shows "mset (concat (map ch xs)) = mset (concat (map ch ys))"
proof -
  have "mset (concat (map ch zs)) = sum_mset (image_mset (\<lambda>z. mset (ch z)) (mset zs))" for zs
    by (induction zs) simp_all
  then show ?thesis using assms by simp
qed

lemma live_ptrs_set: "set as = set bs \<Longrightarrow> live_ptrs E s as = live_ptrs E s bs"
  by (simp add: live_ptrs_def)

context object_store
begin

text \<open>Marking, up to the pointer words, changes only the flags of the phase.\<close>

lemma mark_phase:
  assumes use: "in_use E contents V Q X s" and pa: "parsed G E area Q ch s"
  obtains ms where "mark_fm_ptrs G E armed s = Some (Inr ((reset_guard armed (start_prioritizing (GC G) s))\<lparr>metas := ms\<rparr>))"
    and "\<forall>q. ms q = metas s q \<or> pt_is_present (Pt E) (metas s q) \<and> marked_of E (metas s q) (ms q)"
    and "\<forall>a \<in> set (picked_objects E ch s). \<not> ob_is_freed (Ob E) (heap s) a \<longrightarrow> pt_is_evacuation (Pt E) (ms (ob_get_ptr_addr (Ob E) (heap s) a))"
proof -
  let ?u = "reset_guard armed (start_prioritizing (GC G) s)"
  let ?ts = "run_order G ?u (master_fn (Rg E) (from_regions s))"
  have u: "metas ?u = metas s" "heap ?u = heap s" "obj_locks ?u = obj_locks s" "from_regions ?u = from_regions s" "next_ptrs ?u = next_ptrs s"
    by (simp_all add: reset_guard_def start_prioritizing_def preempt_enable_def)
  have perm: "mset ?ts = mset (master_fn (Rg E) (from_regions s))" by (rule run_order_perm)
  have objs: "set (concat (map ch ?ts)) = set (picked_objects E ch s)"
    using mset_eq_setD [OF tasks_perm [OF perm, of ch]] by (simp only: picked_objects_def)
  have live: "live_ptrs E ?u (concat (map ch ?ts)) = live_ptrs E s (picked_objects E ch s)"
    unfolding live_ptrs_set [OF objs] by (simp add: live_ptrs_def ptr_targets_def u cong: if_cong)
  have owner: "ob_get_ptr_addr (Ob E) (heap s) a \<in> Q \<and> present E s (ob_get_ptr_addr (Ob E) (heap s) a)"
    if "a \<in> set (picked_objects E ch s)" "\<not> ob_is_freed (Ob E) (heap s) a" for a
    using pa that by (simp add: parsed_def)
  have single: "ptr_targets E q s = [q]" if "q \<in> Q" for q
    using use that by (simp add: in_use_def stored_def ptr_ok_def ptr_targets_def Let_def)
  have chains: "\<forall>t \<in> set ?ts. object_chain G E (heap ?u) (snd t) (fst t) (ch t)"
    unfolding u mset_eq_setD [OF perm] using pa by (simp add: parsed_def)
  have there: "\<forall>q \<in> live_ptrs E ?u (concat (map ch ?ts)). present E ?u q"
    unfolding live using owner single by (auto simp: live_ptrs_def present_def u)
  have locks: "obj_locks ?u = {}" using use u(3) by (simp add: in_use_def)
  obtain ms where ms: "slave_fn G E (mark_pointers E) ?ts ?u = Some (Inr (?u\<lparr>metas := ms\<rparr>))"
      "\<forall>q. if q \<in> live_ptrs E s (picked_objects E ch s) then marked_of E (metas s q) (ms q) else ms q = metas s q"
    using slave_mark [OF locks chains there] unfolding live u by blast
  show thesis
  proof (rule that)
    show "mark_fm_ptrs G E armed s = Some (Inr (?u\<lparr>metas := ms\<rparr>))"
      using ms(1) u(4) by (simp add: mark_fm_ptrs_def execute_def slave_defs Let_def)
    show "\<forall>q. ms q = metas s q \<or> pt_is_present (Pt E) (metas s q) \<and> marked_of E (metas s q) (ms q)"
    proof
      fix q
      have p: "q \<in> live_ptrs E s (picked_objects E ch s) \<Longrightarrow> pt_is_present (Pt E) (metas s q)"
        using bspec [OF there, of q] unfolding live by (simp add: present_def u)
      show "ms q = metas s q \<or> pt_is_present (Pt E) (metas s q) \<and> marked_of E (metas s q) (ms q)"
        using ms(2) [rule_format, of q] p by (cases "q \<in> live_ptrs E s (picked_objects E ch s)") simp_all
    qed
    show "\<forall>a \<in> set (picked_objects E ch s). \<not> ob_is_freed (Ob E) (heap s) a \<longrightarrow> pt_is_evacuation (Pt E) (ms (ob_get_ptr_addr (Ob E) (heap s) a))"
    proof (intro ballI impI)
      fix a
      assume a: "a \<in> set (picked_objects E ch s)" "\<not> ob_is_freed (Ob E) (heap s) a"
      then have "ob_get_ptr_addr (Ob E) (heap s) a \<in> live_ptrs E s (picked_objects E ch s)"
        using single owner by (auto simp: live_ptrs_def)
      then have "marked_of E (metas s (ob_get_ptr_addr (Ob E) (heap s) a)) (ms (ob_get_ptr_addr (Ob E) (heap s) a))"
        using ms(2) by metis
      then show "pt_is_evacuation (Pt E) (ms (ob_get_ptr_addr (Ob E) (heap s) a))" by (simp add: marked_of_def)
    qed
  qed
qed

lemma wait_phase:
  obtains e p where "wait_mutators_observation G s = Some (Inr (s\<lparr>expected_status := e, prioritized_status := p, global_prioritizing := True, self_th_status := GC G\<rparr>))"
proof -
  have "wait_threads G st t = Some (Inr t)" for st t by (subst wait_threads.simps) (simp add: no_threads)
  then show thesis using that by (simp add: wait_mutators_observation_def start_prioritizing_def Let_def)
qed

text \<open>The regions a round picks leave the manager one by one.\<close>

lemma pick_loop_space:
  assumes "cache_ok E items capacity N s" and "space X s" and "picked_ok E items area T N s"
  shows "space X (pick_loop G E n s) \<and> picked_ok E items area T N (pick_loop G E n s)"
  using assms
proof (induction "n - length (from_regions s)" arbitrary: s rule: less_induct)
  case less
  obtain res m where pop: "pop_used_region (Rg E) (Cb E) (kPickRegionMaxRetryTimes G) (seen_by_scan G s) (cache_region_manager s) = (res, m)"
    by fastforce
  have wf: "rm_wf (Rg E) items capacity N (cache_region_manager s)" using less.prems(1) by (simp add: cache_ok_def)
  note c = pop_used_conserves [OF wf pop] and sp = pop_used_space [OF wf less.prems(2) pop]
  show ?case
  proof (cases res)
    case None
    then have "pick_loop G E n s = s\<lparr>cache_region_manager := m\<rparr>" using pop by (subst pick_loop.simps) simp
    then show ?thesis using c sp(1) less.prems(3) None by (simp add: picked_ok_def)
  next
    case (Some r)
    let ?s = "s\<lparr>cache_region_manager := m, from_regions := from_regions s @ [r]\<rparr>"
    have unf: "pick_loop G E n s = (if length (from_regions ?s) < n then pick_loop G E n ?s else ?s)"
      using pop Some by (subst pick_loop.simps) (simp add: Let_def)
    have ok: "cache_ok E items capacity N ?s" using c less.prems(1) by (simp add: cache_ok_def)
    have r: "\<not> rg_is_invalid (Rg E) r" "region_ids (Rg E) items (cache_region_manager s) = add_mset (region_idx r) (region_ids (Rg E) items m)"
        "area r \<subseteq> T (region_idx r)" "region_idx r \<notin># region_ids (Rg E) items m"
      using c sp(2) [OF Some] Some by simp_all
    have po: "picked_ok E items area T N ?s" using less.prems(3) r by (auto simp: picked_ok_def)
    show ?thesis
    proof (cases "length (from_regions ?s) < n")
      case False
      then show ?thesis using unf sp(1) po by simp
    next
      case True
      then have "n - length (from_regions ?s) < n - length (from_regions s)" by simp
      from less.hyps [OF this ok _ po] show ?thesis using unf True sp(1) by simp
    qed
  qed
qed

lemma pick_store:
  assumes inv: "store_inv E items capacity contents area room T V Q N s" and N: "size (region_ids (Rg E) items (cache_region_manager s)) \<le> N"
  defines "t \<equiv> pick_from_regions G E s"
  shows "store_inv E items capacity contents area room T V Q N t" and "picked_ok E items area T N t"
    and "region_ids (Rg E) items (cache_region_manager t) + mset (map region_idx (from_regions t)) = region_ids (Rg E) items (cache_region_manager s)"
    and "far_mem_region_manager t = far_mem_region_manager s"
proof -
  let ?s = "s\<lparr>from_regions := []\<rparr>" and ?n = "num_regions_per_gc_round G (cache_region_manager s)"
  have cok: "cache_ok E items capacity N s" and inj: "inj_on (key V) Q" and use: "in_use E contents V Q (live_bytes E Q s) s"
    and sp: "space (live_bytes E Q s) s"
    using inv by (simp_all add: store_inv_def)
  have t: "t = pick_loop G E ?n ?s" by (simp add: t_def pick_from_regions_def)
  have gi: "gc_inv E items capacity N (region_ids (Rg E) items (cache_region_manager s)) ?s"
    using cok N by (simp add: gc_inv_def cache_ok_def)
  note pick = pick_loop_spec [OF gi, of ?n, folded t]
  then show "region_ids (Rg E) items (cache_region_manager t) + mset (map region_idx (from_regions t)) = region_ids (Rg E) items (cache_region_manager s)"
    by (simp add: gc_inv_def)
  have "cache_ok E items capacity N ?s" using cok by (simp add: cache_ok_def)
  then have spt: "space (live_bytes E Q s) t \<and> picked_ok E items area T N t"
    unfolding t by (rule pick_loop_space) (use sp N in \<open>simp_all add: picked_ok_def\<close>)
  then show "picked_ok E items area T N t" by blast
  obtain m fr where e: "t = s\<lparr>cache_region_manager := m, from_regions := fr\<rparr>" using pick by auto
  then show "far_mem_region_manager t = far_mem_region_manager s" by simp
  have u: "in_use E contents V Q (live_bytes E Q s) t" "live_bytes E Q t = live_bytes E Q s"
    using in_use_headers(1,5) [OF use, of t] by (simp_all add: e)
  have "cache_ok E items capacity N t" using pick by (simp add: gc_inv_def)
  then show "store_inv E items capacity contents area room T V Q N t" using inj u spt by (simp add: store_inv_def)
qed

text \<open>The state of a write-back does not depend on the flags of the phases, nor on the order of what is to come.\<close>

lemma writing_flags:
  assumes w: "writing I V Q N F h0 ids fr fm rem X s" and f: "metas s' = metas s" "device s' = device s" "obj_locks s' = obj_locks s"
      "evac_notifiers s' = evac_notifiers s" "copy_notifiers s' = copy_notifiers s" "heap s' = heap s"
      "cache_region_manager s' = cache_region_manager s" "cur_slot s' = cur_slot s" "from_regions s' = from_regions s"
      "far_mem_region_manager s' = far_mem_region_manager s"
    and rem: "set rem' = set rem" and keep: "kept_by_eviction I V Q N F"
  shows "writing I V Q N F h0 ids fr fm rem' X s'"
proof -
  have use: "in_use E contents V Q X s" using w by (simp add: writing_def)
  have "in_use E contents V Q X s'" by (rule in_use_headers(1) [OF use f(1-5)]) (simp add: f(6))
  moreover have "to_come E Q F h0 (set rem') s'"
  proof -
    have "present E s' q = present E s q" "obj_at E s' q = obj_at E s q" "obj_bytes E s' q = obj_bytes E s q" for q
      by (simp_all add: present_def obj_at_def obj_bytes_def f)
    moreover have "to_come E Q F h0 (set rem) s" using w by (simp add: writing_def)
    ultimately show ?thesis unfolding to_come_def rem f by (simp only: simp_thms)
  qed
  moreover have "I s'" using keep w f(1,6,7) unfolding kept_by_eviction_def writing_def by blast
  ultimately show ?thesis using w f by (simp add: writing_def cache_ok_def)
qed

lemma write_phase:
  assumes w: "writing I V Q N F h0 ids fr fm (concat (map ch (master_fn (Rg E) fr))) X s" and inj: "inj_on (key V) Q"
    and terr: "\<forall>i \<in># ids. T i \<inter> F = {}" and chains: "\<forall>t \<in> set (master_fn (Rg E) fr). object_chain G E h0 (snd t) (fst t) (ch t)"
    and dist: "distinct (concat (map ch (master_fn (Rg E) fr)))"
    and whole: "\<forall>a \<in> set (concat (map ch (master_fn (Rg E) fr))). whole_object E F h0 a"
    and keep: "kept_by_eviction I V Q N F"
  shows "\<exists>s' X'. write_back_regions G E s = Some (Inr s') \<and> writing I V Q N F h0 ids fr fm [] X' s'"
proof -
  let ?s = "start_prioritizing (GC G) s"
  let ?ts = "run_order G ?s (master_fn (Rg E) fr)"
  have perm: "mset ?ts = mset (master_fn (Rg E) fr)" by (rule run_order_perm)
  note objs = tasks_perm [OF perm, of ch]
  have w': "writing I V Q N F h0 ids fr fm (concat (map ch ?ts)) X ?s"
    by (rule writing_flags [OF w _ _ _ _ _ _ _ _ _ _ mset_eq_setD [OF objs] keep]) (simp_all add: start_prioritizing_def)
  have "from_regions ?s = fr" using w' by (simp add: writing_def)
  moreover have "\<exists>s' X'. slave_fn G E (swap_out E) ?ts ?s = Some (Inr s') \<and> writing I V Q N F h0 ids fr fm [] X' s'"
  proof (rule slave_write [OF inj terr keep _ w'])
    show "\<forall>t \<in> set ?ts. object_chain G E h0 (snd t) (fst t) (ch t)" using chains unfolding mset_eq_setD [OF perm] .
    show "distinct (concat (map ch ?ts))" using dist mset_eq_imp_distinct_iff [OF objs] by blast
    show "\<forall>a \<in> set (concat (map ch ?ts)). whole_object E F h0 a" using whole unfolding mset_eq_setD [OF objs] .
  qed
  ultimately show ?thesis by (simp add: write_back_regions_def execute_def slave_defs)
qed

text \<open>The whole round.\<close>

lemma marked_store:
  assumes inv: "store_inv E items capacity contents area room T V Q N s" and po: "picked_ok E items area T N s"
    and pa: "parsed G E area Q ch s"
    and ms: "\<forall>q. ms q = metas s q \<or> pt_is_present (Pt E) (metas s q) \<and> marked_of E (metas s q) (ms q)"
    and ev: "\<forall>a \<in> set (picked_objects E ch s). \<not> ob_is_freed (Ob E) (heap s) a \<longrightarrow> pt_is_evacuation (Pt E) (ms (ob_get_ptr_addr (Ob E) (heap s) a))"
    and mI: "I (s\<lparr>metas := ms\<rparr>)"
  shows "writing I V Q N (picked_bytes area s) (heap s) (region_ids (Rg E) items (cache_region_manager s)) (from_regions s)
     (far_mem_region_manager s) (picked_objects E ch s) (live_bytes E Q s \<union> picked_bytes area s) (s\<lparr>metas := ms\<rparr>)"
    and "\<forall>i \<in># region_ids (Rg E) items (cache_region_manager s). T i \<inter> picked_bytes area s = {}"
proof -
  let ?s = "s\<lparr>metas := ms\<rparr>" and ?F = "picked_bytes area s"
  have cok: "cache_ok E items capacity N s" and use: "in_use E contents V Q (live_bytes E Q s) s" and sp: "space (live_bytes E Q s) s"
    using inv by (simp_all add: store_inv_def)
  note m = marked_in_use [OF use ms]
  show terr: "\<forall>i \<in># region_ids (Rg E) items (cache_region_manager s). T i \<inter> ?F = {}"
  proof
    fix i
    assume i: "i \<in># region_ids (Rg E) items (cache_region_manager s)"
    have "T i \<inter> area r = {}" if r: "r \<in> set (from_regions s)" for r
    proof -
      have "i \<noteq> region_idx r" "area r \<subseteq> T (region_idx r)" using po r i by (auto simp: picked_ok_def)
      then show ?thesis using territories [of i "region_idx r"] by blast
    qed
    then show "T i \<inter> ?F = {}" by (auto simp: picked_bytes_def)
  qed
  have "in_use E contents V Q (live_bytes E Q s \<union> ?F) ?s" using m(1) by (auto simp: in_use_def)
  moreover have "space (live_bytes E Q s \<union> ?F) ?s" using space_add [OF sp terr] by simp
  moreover have "to_come E Q ?F (heap s) (set (picked_objects E ch s)) ?s"
  proof -
    have b: "present E s q \<Longrightarrow> obj_bytes E ?s q = obj_bytes E s q" for q using m(3) [of q] by (simp add: obj_bytes_def)
    have own: "\<forall>a \<in> set (picked_objects E ch s). \<not> ob_is_freed (Ob E) (heap s) a \<longrightarrow> ob_get_ptr_addr (Ob E) (heap s) a \<in> Q
        \<and> present E s (ob_get_ptr_addr (Ob E) (heap s) a) \<and> obj_at E s (ob_get_ptr_addr (Ob E) (heap s) a) = a"
      and ins: "\<forall>q \<in> Q. present E s q \<longrightarrow> obj_bytes E s q \<inter> ?F = {}
        \<or> obj_at E s q \<in> set (picked_objects E ch s) \<and> \<not> ob_is_freed (Ob E) (heap s) (obj_at E s q)"
      using pa unfolding parsed_def by blast+
    show ?thesis unfolding to_come_def using own ins ev m(2,3) b by simp
  qed
  ultimately show "writing I V Q N ?F (heap s) (region_ids (Rg E) items (cache_region_manager s)) (from_regions s)
     (far_mem_region_manager s) (picked_objects E ch s) (live_bytes E Q s \<union> ?F) ?s"
    using cok mI by (simp add: writing_def cache_ok_def)
qed

lemma written_store:
  assumes w: "writing I V Q N F h0 ids fr fm [] X s" and inj: "inj_on (key V) Q"
  shows "store_inv E items capacity contents area room T V Q N s" and "q \<in> Q \<Longrightarrow> present E s q \<Longrightarrow> obj_bytes E s q \<inter> F = {}"
    and "live_bytes E Q s \<inter> F = {}"
proof -
  have use: "in_use E contents V Q X s" using w by (simp add: writing_def)
  have live: "live_bytes E Q s \<subseteq> X" using use by (simp add: in_use_def)
  have "space X s" using w by (simp add: writing_def)
  then have "space (live_bytes E Q s) s" using live by (rule space_ok_mono)
  moreover have "in_use E contents V Q (live_bytes E Q s) s" using use by (simp add: in_use_def)
  ultimately show "store_inv E items capacity contents area room T V Q N s" using w inj by (simp add: store_inv_def writing_def)
  have "to_come E Q F h0 {} s" using w by (simp add: writing_def)
  then show p: "q \<in> Q \<Longrightarrow> present E s q \<Longrightarrow> obj_bytes E s q \<inter> F = {}" for q by (simp add: to_come_def)
  show "live_bytes E Q s \<inter> F = {}" using p by (auto simp: live_bytes_def)
qed

lemma returned_store:
  assumes inv: "store_inv E items capacity contents area room T V Q N s" and po: "picked_ok E items area T N s"
    and off: "live_bytes E Q s \<inter> picked_bytes area s = {}"
  shows "\<exists>s'. push_from_regions E [] (from_regions s) s = Inr s' \<and> store_inv E items capacity contents area room T V Q N (notify_mutators G s')
    \<and> region_ids (Rg E) items (cache_region_manager s')
      = region_ids (Rg E) items (cache_region_manager s) + mset (map region_idx (from_regions s))
    \<and> far_mem_region_manager s' = far_mem_region_manager s
    \<and> (\<forall>q \<in> Q. present E s' q = present E s q \<and> (present E s q \<longrightarrow> obj_bytes E s' q = obj_bytes E s q))"
proof -
  have cok: "cache_ok E items capacity N s" and inj: "inj_on (key V) Q" and use: "in_use E contents V Q (live_bytes E Q s) s"
    and sp: "space (live_bytes E Q s) s"
    using inv by (simp_all add: store_inv_def)
  have rs: "\<forall>r \<in> set (from_regions s). \<not> rg_is_invalid (Rg E) r \<and> area r \<subseteq> T (region_idx r) \<and> area r \<inter> live_bytes E Q s = {}"
    using po off by (auto simp: picked_ok_def picked_bytes_def)
  have fresh: "region_idx ` set (from_regions s) \<inter> set_mset (region_ids (Rg E) items (cache_region_manager s)) = {}"
    using po by (auto simp: picked_ok_def)
  have d: "distinct (map region_idx (from_regions s))" "size (region_ids (Rg E) items (cache_region_manager s)) + length (from_regions s) \<le> N"
    using po by (simp_all add: picked_ok_def)
  obtain h m fr where r: "push_from_regions E [] (from_regions s) s = Inr (s\<lparr>heap := h, cache_region_manager := m, from_regions := fr\<rparr>)"
      "only_headers (heap s) h" "rm_wf (Rg E) items capacity N m" "space_ok (Rg E) items area room T (live_bytes E Q s) m"
      "region_ids (Rg E) items m = region_ids (Rg E) items (cache_region_manager s) + mset (map region_idx (from_regions s))"
    using push_from_space [OF cok sp rs d(1) fresh d(2), of "[]"] by (elim exE conjE) (rule that)
  let ?s = "s\<lparr>heap := h, cache_region_manager := m, from_regions := fr\<rparr>"
  have "notify_mutators G ?s = ?s\<lparr>gc_lock := False, almost_empty := almost_empty (notify_mutators G ?s)\<rparr>"
    by (simp add: notify_mutators_def Let_def)
  then obtain b where n: "notify_mutators G ?s = ?s\<lparr>gc_lock := False, almost_empty := b\<rparr>" by blast
  note u = in_use_headers [OF use, of ?s, simplified, OF r(2)] in_use_headers [OF use, of "notify_mutators G ?s", unfolded n, simplified, OF r(2)]
  have "cache_ok E items capacity N (notify_mutators G ?s)" using cok r(3) by (simp add: n cache_ok_def)
  then have "store_inv E items capacity contents area room T V Q N (notify_mutators G ?s)"
    unfolding store_inv_def n using inj u r(4) by simp
  then show ?thesis using r(1,5) u by (intro exI [of _ ?s]) simp
qed

lemma round_written:
  assumes inv: "store_inv E items capacity contents area room T V Q N s" and po: "picked_ok E items area T N s"
    and pa: "parsed G E area Q ch s" and keep: "kept_by_eviction I V Q N (picked_bytes area s)"
    and marks: "\<And>ms. \<forall>q. ms q = metas s q \<or> pt_is_present (Pt E) (metas s q) \<and> marked_of E (metas s q) (ms q) \<Longrightarrow> I (s\<lparr>metas := ms\<rparr>)"
  shows "\<exists>s'. gc_round G E armed s = and_then (Some (push_from_regions E [] (from_regions s) s')) (\<lambda>s. Some (Inr (notify_mutators G s)))
    \<and> I s' \<and> store_inv E items capacity contents area room T V Q N s' \<and> picked_ok E items area T N s'
    \<and> from_regions s' = from_regions s \<and> far_mem_region_manager s' = far_mem_region_manager s
    \<and> region_ids (Rg E) items (cache_region_manager s') = region_ids (Rg E) items (cache_region_manager s)
    \<and> (\<forall>q \<in> Q. present E s' q \<longrightarrow> obj_bytes E s' q \<inter> picked_bytes area s = {})
    \<and> live_bytes E Q s' \<inter> picked_bytes area s = {}"
proof -
  let ?F = "picked_bytes area s" and ?ids = "region_ids (Rg E) items (cache_region_manager s)"
  have use: "in_use E contents V Q (live_bytes E Q s) s" and inj: "inj_on (key V) Q" using inv by (simp_all add: store_inv_def)
  obtain ms where ms: "mark_fm_ptrs G E armed s = Some (Inr ((reset_guard armed (start_prioritizing (GC G) s))\<lparr>metas := ms\<rparr>))"
      "\<forall>q. ms q = metas s q \<or> pt_is_present (Pt E) (metas s q) \<and> marked_of E (metas s q) (ms q)"
      "\<forall>a \<in> set (picked_objects E ch s). \<not> ob_is_freed (Ob E) (heap s) a \<longrightarrow> pt_is_evacuation (Pt E) (ms (ob_get_ptr_addr (Ob E) (heap s) a))"
    by (rule mark_phase [OF use pa])
  let ?s1 = "(reset_guard armed (start_prioritizing (GC G) s))\<lparr>metas := ms\<rparr>"
  obtain e p where w: "wait_mutators_observation G ?s1
      = Some (Inr (?s1\<lparr>expected_status := e, prioritized_status := p, global_prioritizing := True, self_th_status := GC G\<rparr>))"
    by (rule wait_phase)
  let ?s2 = "?s1\<lparr>expected_status := e, prioritized_status := p, global_prioritizing := True, self_th_status := GC G\<rparr>"
  note mk = marked_store [OF inv po pa ms(2,3), where I = I, OF marks [OF ms(2)]]
  have w2: "writing I V Q N ?F (heap s) ?ids (from_regions s) (far_mem_region_manager s) (concat (map ch (master_fn (Rg E) (from_regions s))))
      (live_bytes E Q s \<union> ?F) ?s2"
    by (rule writing_flags [OF mk(1)]) (simp_all add: reset_guard_def start_prioritizing_def preempt_enable_def picked_objects_def keep)
  obtain s3 X3 where s3: "write_back_regions G E ?s2 = Some (Inr s3)" "writing I V Q N ?F (heap s) ?ids (from_regions s) (far_mem_region_manager s) [] X3 s3"
  proof -
    have "\<exists>s3 X3. write_back_regions G E ?s2 = Some (Inr s3) \<and> writing I V Q N ?F (heap s) ?ids (from_regions s) (far_mem_region_manager s) [] X3 s3"
      using pa keep by (intro write_phase [OF w2 inj mk(2)]) (simp_all only: parsed_def picked_objects_def, blast+)
    then show thesis by (elim exE conjE) (rule that)
  qed
  note wr = written_store [OF s3(2) inj]
  have f3: "from_regions s3 = from_regions s" "region_ids (Rg E) items (cache_region_manager s3) = ?ids"
      "far_mem_region_manager s3 = far_mem_region_manager s" "I s3"
    using s3(2) by (simp_all add: writing_def)
  have "gc_round G E armed s = and_then (Some (push_from_regions E [] (from_regions s) s3)) (\<lambda>s. Some (Inr (notify_mutators G s)))"
    using ms(1) w s3(1) f3(1) by (simp add: gc_round_def)
  moreover have "picked_ok E items area T N s3" using po by (simp add: picked_ok_def f3)
  ultimately show ?thesis using f3 wr by (intro exI [of _ s3]) simp
qed

lemma round_keeps_store:
  assumes inv: "store_inv E items capacity contents area room T V Q N s" and po: "picked_ok E items area T N s"
    and pa: "parsed G E area Q ch s"
  shows "\<exists>s'. gc_round G E armed s = Some (Inr s') \<and> store_inv E items capacity contents area room T V Q N s'
    \<and> region_ids (Rg E) items (cache_region_manager s')
      = region_ids (Rg E) items (cache_region_manager s) + mset (map region_idx (from_regions s))
    \<and> far_mem_region_manager s' = far_mem_region_manager s
    \<and> (\<forall>q \<in> Q. present E s' q \<longrightarrow> obj_bytes E s' q \<inter> picked_bytes area s = {})"
proof -
  let ?F = "picked_bytes area s" and ?ids = "region_ids (Rg E) items (cache_region_manager s)"
  obtain s3 where s3: "gc_round G E armed s = and_then (Some (push_from_regions E [] (from_regions s) s3)) (\<lambda>s. Some (Inr (notify_mutators G s)))"
      "store_inv E items capacity contents area room T V Q N s3" "picked_ok E items area T N s3"
      "from_regions s3 = from_regions s" "far_mem_region_manager s3 = far_mem_region_manager s"
      "region_ids (Rg E) items (cache_region_manager s3) = ?ids"
      "\<forall>q \<in> Q. present E s3 q \<longrightarrow> obj_bytes E s3 q \<inter> ?F = {}" "live_bytes E Q s3 \<inter> ?F = {}"
    using round_written [OF inv po pa kept_trivial TrueI, of armed] by (elim exE conjE) (rule that)
  have off: "live_bytes E Q s3 \<inter> picked_bytes area s3 = {}" using s3(4,8) by (simp add: picked_bytes_def)
  obtain s4 where s4: "push_from_regions E [] (from_regions s) s3 = Inr s4" "store_inv E items capacity contents area room T V Q N (notify_mutators G s4)"
      "region_ids (Rg E) items (cache_region_manager s4) = ?ids + mset (map region_idx (from_regions s))"
      "far_mem_region_manager s4 = far_mem_region_manager s"
      "\<forall>q \<in> Q. present E s4 q = present E s3 q \<and> (present E s3 q \<longrightarrow> obj_bytes E s4 q = obj_bytes E s3 q)"
    using returned_store [OF s3(2,3) off] unfolding s3(4-6) by (elim exE conjE) (rule that)
  have n: "cache_region_manager (notify_mutators G s4) = cache_region_manager s4"
      "far_mem_region_manager (notify_mutators G s4) = far_mem_region_manager s4" "metas (notify_mutators G s4) = metas s4"
      "heap (notify_mutators G s4) = heap s4" by (simp_all add: notify_mutators_def Let_def)
  have "gc_round G E armed s = Some (Inr (notify_mutators G s4))" using s3(1) s4(1) by simp
  moreover have "\<forall>q \<in> Q. present E (notify_mutators G s4) q \<longrightarrow> obj_bytes E (notify_mutators G s4) q \<inter> ?F = {}"
    using s4(5) s3(7) by (simp add: present_def obj_bytes_def obj_at_def n)
  ultimately show ?thesis using s4(2-4) n(1,2) by (intro exI [of _ "notify_mutators G s4"]) simp
qed

end

text \<open>
  Collection keeps every object: a round of a collector that runs alone, from the pick
  of its regions to their return, over regions that hold whole objects, returns, in whatever
  order its slaves finish. Every pointer still has its value: its object is where it was, has
  moved to another region, or is on the device under its id. No object is left in the picked
  regions, which are back with the manager, and objects stay apart from one another and from
  all free space.
\<close>

theorem collection_keeps_objects:
  assumes "object_store E items capacity contents area room T G"
    and "store_inv E items capacity contents area room T V Q N s"
    and "size (region_ids (Rg E) items (cache_region_manager s)) \<le> N"
    and "parsed G E area Q ch (pick_from_regions G E s)"
  shows "\<exists>s'. gc_round G E armed (pick_from_regions G E s) = Some (Inr s')
    \<and> store_inv E items capacity contents area room T V Q N s'
    \<and> (\<forall>q \<in> Q. value_of E contents s' q = Some (V q))
    \<and> (\<forall>q \<in> Q. present E s' q \<longrightarrow> obj_bytes E s' q \<inter> picked_bytes area (pick_from_regions G E s) = {})
    \<and> region_ids (Rg E) items (cache_region_manager s') = region_ids (Rg E) items (cache_region_manager s)"
  using object_store.round_keeps_store [OF assms(1) object_store.pick_store(1,2) [OF assms(1-3)] assms(4), of armed]
    object_store.pick_store(3) [OF assms(1-3)]
  by (auto simp: store_inv_def in_use_def stored_def)

section \<open>An instance\<close>

interpretation demo_store: object_store demo_ext ring_items ring_cap "\<lambda>d. d" layout_area layout_room demo_territory demo_gc
proof (intro object_store.intro object_store_axioms.intro)
  show "cache_space demo_ext ring_items ring_cap (\<lambda>d. d) layout_area layout_room demo_territory"
    by (rule demo_space.cache_space_axioms)
  show "gc_env demo_ext ring_items ring_cap (\<lambda>d. d) demo_gc" by (rule demo_collector.gc_env_axioms)
  fix h h' :: heap and a :: addr
  assume ok: "obj_ok (Ob demo_ext) h a"
    and eq: "rd_bytes h' a (unat (ob_size (Ob demo_ext) h a)) = rd_bytes h a (unat (ob_size (Ob demo_ext) h a))"
  have "h' (a + of_nat i) = h (a + of_nat i)" if "i < 12 + unat (bo_len h a) + unat (h (a + 11))" for i
    using arg_cong [OF eq, of "\<lambda>bs. bs ! i"] that ok by (simp add: bo_size rd_bytes_nth)
  note agree = bo_agree [of h a h' a, OF this]
  have "obj_id_bytes byte_objects h' a = obj_id_bytes byte_objects h a" using agree(5) by (simp add: obj_view_def)
  then have "rd_bytes h' (ob_get_obj_id byte_objects h a) (unat (ob_get_obj_id_len byte_objects h a)) = obj_id_bytes byte_objects h a"
    using agree(1,3) by (simp add: obj_id_bytes_def byte_objects_def)
  then show "ob_get_ptr_addr (Ob demo_ext) h' a = ob_get_ptr_addr (Ob demo_ext) h a
      \<and> rd_bytes h' (ob_get_obj_id (Ob demo_ext) h a) (unat (ob_get_obj_id_len (Ob demo_ext) h a)) = obj_id_bytes (Ob demo_ext) h a"
    using agree(4) by (simp add: byte_objects_def)
qed simp_all

text \<open>
  Region 1 is used up. It holds one object, of the hot pointer at 64, at address 2054; region 0
  is free, so a collection copies the object there.
\<close>

definition demo_used :: Region where
  "demo_used = (demo_region 1)\<lparr>first_free_byte_idx := 30, num_boundaries := 1\<rparr>"

definition demo_full :: "(ring, u8 \<times> u8 list \<Rightarrow> u8 list option) fm_state" where
  "demo_full = demo_owned\<lparr>cache_region_manager := demo_rm [demo_region 0] [demo_used] []\<rparr>"

lemma demo_used_simps [simp]:
  "region_idx demo_used = 1" "buf_ptr demo_used = 2048" "first_free_byte_idx demo_used = 30" "region_base demo_used = 2048"
  "\<not> rg_is_invalid layout_regions demo_used" "num_boundaries demo_used = 1"
  by (simp_all add: demo_used_def demo_region_def layout_regions_def region_base_def kInvalidIdx_def)

lemma demo_full_fields [simp]:
  "heap demo_full = heap demo_owned" "metas demo_full = metas (demo_present True)"
  "cache_region_manager demo_full = demo_rm [demo_region 0] [demo_used] []"
  "device demo_full = Map.empty" "obj_locks demo_full = {}"
  "cur_slot demo_full = (\<lambda>nt. if nt then Nt_Slot 3 else Slot 3)" "evac_notifiers demo_full = (\<lambda>_. 0)" "copy_notifiers demo_full = (\<lambda>_. 0)"
  by (simp_all add: demo_full_def demo_owned_object(6) demo_owned_def)

lemma demo_full_ids: "region_ids layout_regions ring_items (demo_rm [demo_region 0] [demo_used] []) = {#0, 1#}"
  by (simp add: region_ids_split valid_ids_default) (simp add: demo_rm_def demo_queue_items kInvalidIdx_def)

lemma demo_full_owned: "\<not> rg_is_invalid layout_regions r \<Longrightarrow> r \<in># owned_regions ring_items (demo_rm [demo_region 0] [demo_used] []) \<Longrightarrow>
    r = demo_region 0 \<or> r = demo_used"
  by (auto simp: owned_regions_def core_regions_def demo_rm_def demo_queue_items)

lemma demo_full_object:
  "present demo_ext demo_full 64" "obj_at demo_ext demo_full 64 = 2054"
  "value_of demo_ext (\<lambda>d. d) demo_full 64 = Some (5, u64_bytes 9, [1, 2, 3])" "ptr_ok demo_ext (\<lambda>d. d) demo_full 64"
  "live_bytes demo_ext {64} demo_full = addr_range 2054 23"
proof -
  note m = demo_present_meta [of True] and o = demo_owned_object
  show p: "present demo_ext demo_full 64" and a: "obj_at demo_ext demo_full 64 = 2054"
    using m by (simp_all add: present_def obj_at_def del: demo_present_simps)
  have "obj_bytes demo_ext demo_full 64 = addr_range 2054 23" by (simp add: obj_bytes_def bytes_of_def a o(5))
  then show "live_bytes demo_ext {64} demo_full = addr_range 2054 23" using p by (auto simp: live_bytes_def)
  show "value_of demo_ext (\<lambda>d. d) demo_full 64 = Some (5, u64_bytes 9, [1, 2, 3])"
    using m(1,6) o(3) by (simp add: value_of_def Let_def del: demo_present_simps)
  have "\<exists>oid < 2 ^ 38. obj_id_bytes byte_objects (heap demo_owned) 2054 = u64_bytes oid"
    using o(3) by (intro exI [of _ 9]) (simp add: obj_view_def)
  then show "ptr_ok demo_ext (\<lambda>d. d) demo_full 64"
    using m o(4,5) by (simp add: ptr_ok_def obj_backed_def placed_def addressable_def kHeaderSize_def kSize_val Let_def del: demo_present_simps)
qed

lemma demo_used_bytes:
  "addr_range 2054 23 \<subseteq> layout_area demo_used" "layout_room demo_used \<inter> addr_range 2054 23 = {}"
proof -
  have off: "unat (x - 2048) = 6 + unat (x - 2054)" if "x \<in> addr_range 2054 23" for x
    using addr_range_shift [of x 2048 6 23] that by simp
  then show "addr_range 2054 23 \<subseteq> layout_area demo_used" by (auto simp: layout_area_def addr_range_at kSize_val)
  show "layout_room demo_used \<inter> addr_range 2054 23 = {}"
  proof (intro equalityI subsetI)
    fix x
    assume x: "x \<in> layout_room demo_used \<inter> addr_range 2054 23"
    then have "unat (x - 2048) = 30 + unat (x - 2078)"
      using addr_range_shift [of x 2048 30 994] by (simp add: layout_room_def kSize_val)
    moreover have "unat (x - 2054) < 23" using x by (simp add: addr_range_at)
    ultimately show "x \<in> {}" using off [of x] x by simp
  qed simp
qed

lemma demo_full_inv:
  "store_inv demo_ext ring_items ring_cap (\<lambda>d. d) layout_area layout_room demo_territory (\<lambda>_. (5, u64_bytes 9, [1, 2, 3])) {64} 50 demo_full"
proof -
  have "rm_wf layout_regions ring_items ring_cap 50 (demo_rm [demo_region 0] [demo_used] [])"
    by (simp add: rm_wf_def rm_ok_def demo_full_ids) (simp add: demo_rm_def demo_queue_items kInvalidIdx_def)
  then have cok: "cache_ok demo_ext ring_items ring_cap 50 demo_full" by (simp add: cache_ok_def kNumCPUs_def)
  have area: "layout_area (demo_region 0) \<subseteq> demo_territory 0" "layout_area demo_used \<subseteq> demo_territory 1"
    using demo_area [of 0 "demo_region 0"] demo_area [of 1 demo_used] by (simp_all add: demo_used_def)
  have "demo_territory 0 \<inter> demo_territory 1 = {}" by (rule demo_space.territories) simp
  then have "spaced layout_area layout_room demo_territory (addr_range 2054 23) (demo_region 0)"
    unfolding spaced_def using area demo_used_bytes(1) layout_space.room_area [of "demo_region 0"] by simp blast
  moreover have "spaced layout_area layout_room demo_territory (addr_range 2054 23) demo_used"
    using area demo_used_bytes(2) by (simp add: spaced_def)
  ultimately have "space_ok layout_regions ring_items layout_area layout_room demo_territory (addr_range 2054 23) (demo_rm [demo_region 0] [demo_used] [])"
    unfolding space_ok_def all_valid_def demo_full_ids using demo_full_owned by fastforce
  moreover have "in_use demo_ext (\<lambda>d. d) (\<lambda>_. (5, u64_bytes 9, [1, 2, 3])) {64} (addr_range 2054 23) demo_full"
    using demo_full_object by (simp add: in_use_def stored_def apart_def calm_def)
  ultimately show ?thesis using cok demo_full_object(5) by (simp add: store_inv_def)
qed

lemma demo_full_picks:
  "\<exists>m. pick_from_regions demo_gc demo_ext demo_full = demo_full\<lparr>cache_region_manager := m, from_regions := [demo_used]\<rparr>"
proof -
  obtain res m where pop: "pop_used_region layout_regions ring_ops 3 (\<lambda>_. heap demo_full) (demo_rm [demo_region 0] [demo_used] []) = (res, m)"
    by fastforce
  have "heap demo_owned 2048 = 0"
    by (simp add: demo_owned_def demo_present_def wr_bytes_def byte_objects_def)
  then have "rg_is_gcable layout_regions demo_used (heap demo_full)" by (simp add: layout_regions_def kRefCntPos_def)
  then have "res = Some demo_used"
    using ring_regions.pop_used_static [OF pop] by (simp add: demo_rm_def demo_queue_items)
  moreover have "num_regions_per_gc_round demo_gc m \<le> 1" for m :: "ring RegionManager"
    by (simp add: num_regions_per_gc_round_def Let_def min_def word_le_nat_alt)
  then have "\<not> Suc 0 < num_regions_per_gc_round demo_gc m" for m :: "ring RegionManager" by (simp add: not_less)
  ultimately show ?thesis
    using pop by (intro exI [of _ m]) (simp add: pick_from_regions_def pick_loop.simps [of demo_gc demo_ext] Let_def)
qed

lemma demo_full_parsed: "parsed demo_gc demo_ext layout_area {64} (\<lambda>t. [2054]) (pick_from_regions demo_gc demo_ext demo_full)"
proof -
  obtain m where t: "pick_from_regions demo_gc demo_ext demo_full = demo_full\<lparr>cache_region_manager := m, from_regions := [demo_used]\<rparr>"
    using demo_full_picks by blast
  let ?t = "demo_full\<lparr>cache_region_manager := m, from_regions := [demo_used]\<rparr>"
  have tasks: "master_fn (Rg demo_ext) (from_regions ?t) = [(2054, 2078)]"
    by (simp add: master_fn_def) (simp add: layout_regions_def kObjectPos_def kHeaderSize_def)
  have objs: "picked_objects demo_ext (\<lambda>t. [2054]) ?t = [2054]" unfolding picked_objects_def tasks by simp
  have "object_chain demo_gc demo_ext (heap ?t) 2078 2054 [2054]" by (simp add: demo_owned_object(5) demo_gc_def)
  moreover have "whole_object demo_ext (picked_bytes layout_area ?t) (heap ?t) 2054"
    using demo_owned_object(4,5) demo_used_bytes(1)
    by (simp add: picked_bytes_def whole_object_def bytes_of_def placed_def kHeaderSize_def kSize_val)
  moreover have "present demo_ext ?t 64" "obj_at demo_ext ?t 64 = 2054"
    using demo_full_object(1,2) by (simp_all add: present_def obj_at_def)
  ultimately show ?thesis unfolding t parsed_def objs tasks using demo_owned_object(1,2) by simp
qed

theorem collection_keeps_objects_witness:
  "\<exists>s'. gc_round demo_gc demo_ext True (pick_from_regions demo_gc demo_ext demo_full) = Some (Inr s')
    \<and> value_of demo_ext (\<lambda>d. d) s' 64 = Some (5, u64_bytes 9, [1, 2, 3])
    \<and> region_ids layout_regions ring_items (cache_region_manager s') = {#0, 1#}"
proof -
  have "size (region_ids (Rg demo_ext) ring_items (cache_region_manager demo_full)) \<le> 50" by (simp add: demo_full_ids)
  from collection_keeps_objects [OF demo_store.object_store_axioms demo_full_inv this demo_full_parsed, of True]
  show ?thesis by (auto simp: demo_full_ids)
qed

end
