(* ===== verification/Fm_Mutators.thy ===== *)
theory Fm_Mutators
  imports Fm_Values
begin

text \<open>
  What a mutator does to the store of objects: fetching the object of one pointer keeps the
  objects of all others, and puts the new one into bytes that were free.
\<close>

section \<open>Fetching\<close>

context cache_space
begin

text \<open>Space that was allocated, and the object that settled in it.\<close>

lemma object_stepI:
  assumes "allocate_local_object_nb E False n s = Some (Inr (Some a, s1))" and fr: "alloc_frame E items capacity N s s1"
    and "\<forall>q. q \<noteq> p \<longrightarrow> metas s' q = metas s1 q" and h: "\<forall>x. body x \<longrightarrow> x \<notin> addr_range a (unat n) \<longrightarrow> heap s' x = heap s1 x"
    and "cache_region_manager s' = cache_region_manager s1" and "settled E n a p s'"
  shows "object_step E p s s'"
proof -
  note f = alloc_frame_fields [OF fr]
  have "space_drawn E n a s s'" using assms(1,5) h f(8) by (auto simp: space_drawn_def only_headers_def)
  then show ?thesis using assms(3,6) f(1) by (auto simp: object_step_def)
qed

lemmas space_stepI = object_step_space [OF object_stepI]

lemma fetch_moved:
  assumes ok: "ptr_ok E contents t p" and absent: "\<not> present E t p" and val: "value_of E contents t p = Some v"
    and a: "placed a (unat (pt_get_object_size (Pt E) (metas t p)))" "addressable (Ob E) a"
  defines "t' \<equiv> fetch_object E (pt_get_object_id (Pt E) (metas t p)) p a t"
  shows "moved E contents p v (addr_range a (unat (pt_get_object_size (Pt E) (metas t p)))) t t'
    \<and> cache_region_manager t' = cache_region_manager t \<and> far_mem_region_manager t' = far_mem_region_manager t \<and> present E t' p
    \<and> settled E (pt_get_object_size (Pt E) (metas t p)) a p t'"
proof -
  let ?n = "unat (pt_get_object_size (Pt E) (metas t p))"
  have ab: "\<not> pt_is_present (Pt E) (metas t p)" using absent by (simp add: present_def)
  obtain h d m where f: "t' = t\<lparr>heap := h, device := d, metas := (metas t)(p := m)\<rparr>" "contents d = contents (device t)"
      "pt_is_present (Pt E) m" "pt_get_object_addr (Pt E) m = a" "ptr_ok E contents t' p" "value_of E contents t' p = value_of E contents t p"
      "\<forall>x. body x \<longrightarrow> outside a ?n x \<longrightarrow> h x = heap t x"
    using fetch_value [OF ok ab a, folded t'_def] by (elim exE conjE) (rule that)
  have view: "obj_view (Ob E) h a = v" using f val by (simp add: value_of_def Let_def)
  have okh: "obj_ok (Ob E) h a" using f(1,3-5) by (simp add: ptr_ok_def obj_backed_def Let_def)
  have n: "?n = ob_kHeaderSize (Ob E) + length (snd (snd v)) + 8" and un: "\<not> pt_is_shared (Pt E) (metas t p)"
    using ok ab val by (auto simp: ptr_ok_def value_of_def Let_def)
  have "length (fst (snd v)) = 8" using ab val by (auto simp: value_of_def Let_def)
  then have sz: "unat (ob_size (Ob E) h a) = ?n" using size_view [OF okh] view n by (auto simp: obj_view_def)
  have "owned_by (Ob E) (heap t') a p" if "p \<noteq> 0"
    unfolding t'_def by (rule fetch_owner [OF un that a(1)]) (simp add: n)
  then have st: "settled E (pt_get_object_size (Pt E) (metas t p)) a p t'"
    using sz okh a(1) n f(1,3,4) by (simp add: settled_def present_def obj_at_def word_unat_eq_iff)
  from sz have sub: "obj_bytes E t' p \<subseteq> addr_range a ?n"
    using f(1,4) by (auto simp: obj_bytes_def obj_at_def bytes_of_def addr_range_at)
  have "present E t' p" "cache_region_manager t' = cache_region_manager t" "far_mem_region_manager t' = far_mem_region_manager t" using f(1,3) by (simp_all add: present_def)
  moreover have "\<forall>x. body x \<longrightarrow> x \<notin> addr_range a ?n \<longrightarrow> heap t' x = heap t x" using f(1,7) by (simp add: addr_range_def)
  moreover have "contents (device t') = contents (device t)" using f(1,2) by simp
  ultimately show ?thesis using sub f(5,6) val st unfolding moved_def by (simp add: f(1))
qed

text \<open>
  Any operation that allocates and then gives one pointer its object there keeps the store;
  the pointer may be new.
\<close>

lemma placed_store:
  assumes inv: "store_inv E items capacity contents area room T V Q N s"
    and al: "allocate_local_object_nb E False n (s\<lparr>obj_locks := l\<rparr>) = Some (Inr (Some a, s1))" "alloc_frame E items capacity N (s\<lparr>obj_locks := l\<rparr>) s1"
    and mv: "moved E contents p (V' p) (addr_range a (unat n)) s1 s2" and crm: "cache_region_manager s2 = cache_region_manager s1"
    and V': "inj_on (key V') (insert p Q)" "\<forall>q \<in> Q. q \<noteq> p \<longrightarrow> V' q = V q"
  shows "store_inv E items capacity contents area room T V' (insert p Q) N (s2\<lparr>obj_locks := {}\<rparr>)"
    and "q \<in> Q \<Longrightarrow> q \<noteq> p \<Longrightarrow> present E s2 q = present E s q \<and> obj_at E s2 q = obj_at E s q"
    and "region_ids (Rg E) items (cache_region_manager s2) = region_ids (Rg E) items (cache_region_manager s)"
proof -
  let ?X = "live_bytes E Q s" and ?Y = "addr_range a (unat n)" and ?s = "s2\<lparr>obj_locks := {}\<rparr>"
  have cok: "cache_ok E items capacity N s" and use: "in_use E contents V Q ?X s" and sp: "space ?X s"
    using inv by (simp_all add: store_inv_def)
  then have t: "cache_ok E items capacity N (s\<lparr>obj_locks := l\<rparr>)" "space ?X (s\<lparr>obj_locks := l\<rparr>)" by (simp_all add: cache_ok_def)
  have tk: "space (?X \<union> ?Y) s1" "?Y \<inter> ?X = {}" using allocate_nb_space [OF al(1) t] by (simp_all add: taken_def)
  have mv': "moved E contents p (V' p) ?Y (s\<lparr>obj_locks := l\<rparr>) s2" by (rule moved_after_alloc [OF al(2) mv])
  note mi = moved_in_use [OF use V' mv' tk(2)]
  have "space (?X \<union> ?Y) ?s" using tk(1) crm by simp
  moreover have "live_bytes E (insert p Q) ?s \<subseteq> ?X \<union> ?Y" using mi(1) by (simp add: in_use_def)
  ultimately have "space (live_bytes E (insert p Q) ?s) ?s" by (rule space_ok_mono)
  moreover have "cache_ok E items capacity N ?s"
    using alloc_frame_ok [OF al(2) t(1)] alloc_frame_fields(6) [OF al(2)] moved_fields(5) [OF mv'] crm by (simp add: cache_ok_def)
  moreover have "in_use E contents V' (insert p Q) (live_bytes E (insert p Q) ?s) ?s" using mi(1) by (simp add: in_use_def)
  ultimately show "store_inv E items capacity contents area room T V' (insert p Q) N ?s" using V' by (simp add: store_inv_def)
  show "q \<in> Q \<Longrightarrow> q \<noteq> p \<Longrightarrow> present E s2 q = present E s q \<and> obj_at E s2 q = obj_at E s q" using mi(2) by blast
  show "region_ids (Rg E) items (cache_region_manager s2) = region_ids (Rg E) items (cache_region_manager s)"
    using alloc_frame_fields(10) [OF al(2)] crm by simp
qed

lemma swap_in_store:
  assumes inv: "store_inv E items capacity contents area room T V Q N s" and p: "p \<in> Q" "\<not> present E s p"
    and lock: "lock_wait E (u64_bytes (pt_get_object_id (Pt E) (metas s p))) s = Some s"
    and space: "fst (rg_allocate_object (Rg E) (pt_get_object_size (Pt E) (metas s p)) (get_slot (cache_region_manager s) (cur_slot s False)) (heap s)) \<noteq> None
      \<or> (\<exists>x xs. items (free_regions (cache_region_manager s)) = x # xs
           \<and> (\<forall>h. fst (rg_allocate_object (Rg E) (pt_get_object_size (Pt E) (metas s p)) x h) \<noteq> None))"
  shows "\<exists>s'. swap_in E False p s = Some (Inr s') \<and> store_inv E items capacity contents area room T V Q N s'
    \<and> present E s' p \<and> (\<forall>q \<in> Q. q \<noteq> p \<longrightarrow> present E s' q = present E s q \<and> obj_at E s' q = obj_at E s q)
    \<and> far_mem_region_manager s' = far_mem_region_manager s
    \<and> region_ids (Rg E) items (cache_region_manager s') = region_ids (Rg E) items (cache_region_manager s)
    \<and> (\<exists>l. space_step E p (s\<lparr>obj_locks := l\<rparr>) s')"
proof -
  let ?k = "u64_bytes (pt_get_object_id (Pt E) (metas s p))" and ?n = "pt_get_object_size (Pt E) (metas s p)"
  have use: "in_use E contents V Q (live_bytes E Q s) s" using inv by (simp add: store_inv_def)
  have st: "ptr_ok E contents s p" "value_of E contents s p = Some (V p)" and l: "obj_locks s = {}"
    using use p(1) by (simp_all add: in_use_def stored_def)
  let ?t = "s\<lparr>obj_locks := {?k}\<rparr>"
  have t: "cache_ok E items capacity N ?t" using inv by (simp add: store_inv_def cache_ok_def)
  obtain a s1 where nb: "allocate_local_object_nb E False ?n ?t = Some (Inr (Some a, s1))"
    using nb_returns_address [OF t, of ?n] space by auto
  have al: "allocate_local_object E False ?n ?t = Some (Inr (a, s1))" using nb by (rule blocking_agrees)
  have fr: "alloc_frame E items capacity N ?t s1" and a: "placed a (unat ?n)" "addressable (Ob E) a"
    using allocate_nb_spec [OF t, of False ?n] nb by auto
  note f = alloc_frame_fields [OF fr]
  have m1: "metas s1 = metas s" "device s1 = device s" using f(1,2) by simp_all
  have pt1: "ptr_ok E contents s1 p" "value_of E contents s1 p = Some (V p)" "\<not> present E s1 p"
    using st p(2) m1 by (auto simp: ptr_ok_def value_of_def present_def Let_def)
  let ?s2 = "fetch_object E (pt_get_object_id (Pt E) (metas s1 p)) p a s1"
  have mv: "moved E contents p (V p) (addr_range a (unat ?n)) s1 ?s2" and c2: "cache_region_manager ?s2 = cache_region_manager s1"
      and g2: "far_mem_region_manager ?s2 = far_mem_region_manager s" and p2: "present E ?s2 p" and st2: "settled E ?n a p ?s2"
    using fetch_moved [OF pt1(1,3,2), of a] a f(7) unfolding m1 by simp_all
  have inj: "inj_on (key V) (insert p Q)" using inv p(1) by (simp add: store_inv_def insert_absorb)
  note pl = placed_store [OF inv nb fr mv c2 inj, simplified insert_absorb [OF p(1)]]
  have "swap_in E False p s = Some (Inr (?s2\<lparr>obj_locks := {}\<rparr>))"
    using p(2) lock al l m1 moved_fields(1) [OF mv] f(3) by (simp add: swap_in_def lock_object_def unlock_object_def present_def Let_def)
  moreover have "space_step E p ?t (?s2\<lparr>obj_locks := {}\<rparr>)"
    using mv st2 c2 by (intro space_stepI [OF nb fr]) (simp_all add: moved_def settled_def present_def obj_at_def)
  ultimately show ?thesis using pl p2 g2 by (intro exI [of _ "?s2\<lparr>obj_locks := {}\<rparr>"]) (auto simp: present_def obj_at_def)
qed

section \<open>New objects\<close>

text \<open>An allocation that finds no space changes nothing that counts.\<close>

lemma full_store:
  assumes inv: "store_inv E items capacity contents area room T V Q N s"
    and al: "allocate_local_object_nb E False sz s = Some (Inr (None, s1))" "alloc_frame E items capacity N s s1"
  shows "store_inv E items capacity contents area room T V Q N s1"
    and "region_ids (Rg E) items (cache_region_manager s1) = region_ids (Rg E) items (cache_region_manager s)"
    and "far_mem_region_manager s1 = far_mem_region_manager s"
proof -
  have cok: "cache_ok E items capacity N s" and inj: "inj_on (key V) Q" and use: "in_use E contents V Q (live_bytes E Q s) s"
    and sp: "space (live_bytes E Q s) s"
    using inv by (simp_all add: store_inv_def)
  note f = alloc_frame_fields [OF al(2)]
  show "region_ids (Rg E) items (cache_region_manager s1) = region_ids (Rg E) items (cache_region_manager s)"
    "far_mem_region_manager s1 = far_mem_region_manager s" using f by simp_all
  have "space (live_bytes E Q s) s1" using allocate_nb_space [OF al(1) cok sp] by (simp add: taken_def)
  then show "store_inv E items capacity contents area room T V Q N s1"
    using in_use_headers(1,5) [OF use f(1,2) _ f(11,12,8)] f alloc_frame_ok [OF al(2) cok] inj by (simp add: store_inv_def)
qed

lemma full_step:
  assumes "allocate_local_object_nb E False sz s = Some (Inr (None, s1))" "alloc_frame E items capacity N s s1"
  shows "nothing_drawn E s s1" and "metas s1 = metas s"
  using alloc_frame_fields(1,8) [OF assms(2)] assms(1) by (auto simp: nothing_drawn_def)

lemma new_object_bytes:
  assumes ok: "ptr_ok E contents s p" and p: "present E s p" "obj_at E s p = a" and view: "obj_view (Ob E) (heap s) a = (ds, oidb, bs)"
    and n: "n = ob_kHeaderSize (Ob E) + length bs + length oidb"
  shows "obj_bytes E s p = addr_range a n"
proof -
  have okh: "obj_ok (Ob E) (heap s) a" using ok p by (simp add: ptr_ok_def present_def obj_at_def obj_backed_def Let_def)
  then show ?thesis using size_view [OF okh] view n p(2) by (simp add: obj_bytes_def bytes_of_def obj_view_def)
qed

lemma create_store:
  assumes inv: "store_inv E items capacity contents area room T V Q N s" and fok: "far_ok E items capacity M s" and p: "p \<notin> Q"
    and fit: "ob_kHeaderSize (Ob E) + unat item + id_len_of E oid < 2 ^ 16" "id_len_of E oid < 256" and v: "kVanillaPtrObjectIDSize E = 8"
    and run: "allocate_generic_unique_ptr_nb E p ds item oid s = Some z"
  shows "\<exists>ok s'. z = Inr (ok, s') \<and> region_ids (Rg E) items (cache_region_manager s') = region_ids (Rg E) items (cache_region_manager s)
    \<and> (if ok then 0 < unat item + id_len_of E oid \<longrightarrow> object_step E p s s' else nothing_drawn E s s' \<and> metas s' = metas s)
    \<and> (if ok then \<exists>oidb bs. id_from E oid (total_size E item (id_len_of E oid)) oidb s s'
           \<and> value_of E contents s' p = Some (ds, oidb, bs) \<and> length bs = unat item
           \<and> ((\<exists>r < 2 ^ 38. oidb = u64_bytes r) \<and> (ds, oidb) \<notin> key V ` Q \<longrightarrow>
             store_inv E items capacity contents area room T (V(p := (ds, oidb, bs))) (insert p Q) N s')
       else far_mem_region_manager s' = far_mem_region_manager s \<and> store_inv E items capacity contents area room T V Q N s')"
proof -
  let ?n = "total_size E item (id_len_of E oid)"
  have cok: "cache_ok E items capacity N s" and l: "obj_locks s = {}" using inv by (simp_all add: store_inv_def in_use_def)
  then have sl: "s\<lparr>obj_locks := {}\<rparr> = s" by (metis fm_state.surjective fm_state.update_convs(7))
  show ?thesis
  proof (rule create_nb [OF cok fok fit v run], goal_cases)
    case (1 s1)
    then show ?case using full_store [OF inv 1(1,2)] full_step [OF 1(1,2)] by (intro exI [of _ False] exI [of _ s1]) simp
  next
    case (2 a s1 s' oidb bs)
    obtain m h g where s': "s' = s1\<lparr>metas := (metas s1)(p := m), heap := h, far_mem_region_manager := g\<rparr>"
      using 2(14) by (elim exE) (rule that)
    have val: "value_of E contents s' p = Some (ds, oidb, bs)" using 2(5-7) by (simp add: value_of_def Let_def)
    have len: "length oidb = id_len_of E oid"
      using id_from_given [OF 2(9)] v by (auto simp: id_given_def id_len_of_def split: option.splits)
    have "store_inv E items capacity contents area room T (V(p := (ds, oidb, bs))) (insert p Q) N s'"
      if r: "\<exists>r < 2 ^ 38. oidb = u64_bytes r" and fresh: "(ds, oidb) \<notin> key V ` Q"
    proof -
      have ok: "ptr_ok E contents s' p" using 2(10) r by (rule mp)
      have "obj_bytes E s' p = addr_range a (unat ?n)"
        by (rule new_object_bytes [OF ok _ _ 2(7)])
           (use 2(5,6,8) total_size_fits [OF fit(1)] len in \<open>simp_all add: present_def obj_at_def\<close>)
      then have "moved E contents p (ds, oidb, bs) (addr_range a (unat ?n)) s1 s'"
        using ok val 2(13) by (simp add: moved_def s' addr_range_def)
      then have mv: "moved E contents p ((V(p := (ds, oidb, bs))) p) (addr_range a (unat ?n)) s1 s'" by simp
      have inj: "inj_on (key (V(p := (ds, oidb, bs)))) (insert p Q)"
      proof -
        have "inj_on (key (V(p := (ds, oidb, bs)))) Q = inj_on (key V) Q"
          using p by (intro inj_on_cong) (auto simp: key_def)
        moreover have "key (V(p := (ds, oidb, bs))) ` Q = key V ` Q" using p by (intro image_cong) (auto simp: key_def)
        ultimately show ?thesis using inv fresh p by (simp add: store_inv_def key_def)
      qed
      have "store_inv E items capacity contents area room T (V(p := (ds, oidb, bs))) (insert p Q) N (s'\<lparr>obj_locks := {}\<rparr>)"
        by (rule placed_store [where l = "{}", OF inv _ _ mv _ inj]) (use 2(1,2) s' sl in simp_all)
      moreover have "s'\<lparr>obj_locks := {}\<rparr> = s'"
        using alloc_frame_fields(3) [OF 2(2)] l by (simp add: s')
      ultimately show ?thesis by simp
    qed
    moreover have "region_ids (Rg E) items (cache_region_manager s') = region_ids (Rg E) items (cache_region_manager s)"
      using alloc_frame_fields(10) [OF 2(2)] by (simp add: s')
    moreover have "object_step E p s s'" if pos: "0 < unat item + id_len_of E oid"
    proof (rule object_stepI [OF 2(1,2)])
      have okh: "obj_ok (Ob E) (heap s') a" using 2(7,8) fit(1) len by (simp add: obj_ok_def obj_view_def)
      have "unat (ob_size (Ob E) (heap s') a) = unat ?n"
        using size_view [OF okh] 2(7,8) len total_size_fits [OF fit(1)] by (simp add: obj_view_def)
      then show "settled E ?n a p s'" using okh 2(3,5,6,15) total_size_fits [OF fit(1)] pos
        by (simp add: settled_def present_def obj_at_def word_unat_eq_iff)
    qed (use 2(13) in \<open>simp_all add: s' addr_range_def\<close>)
    ultimately show ?case using 2(4,8,9) val by (intro exI [of _ True] exI [of _ s']) (simp only: if_True, blast)
  qed
qed

section \<open>Resizing\<close>

text \<open>Bytes that belong to no object do not count.\<close>

lemma garbage_store:
  assumes inv: "store_inv E items capacity contents area room T V Q N s" and h: "\<forall>x. body x \<longrightarrow> x \<in> live_bytes E Q s \<longrightarrow> h x = heap s x"
  shows "store_inv E items capacity contents area room T V Q N (s\<lparr>heap := h\<rparr>)" and "live_bytes E Q (s\<lparr>heap := h\<rparr>) = live_bytes E Q s"
proof -
  have use: "in_use E contents V Q (live_bytes E Q s) s" using inv by (simp add: store_inv_def)
  show l: "live_bytes E Q (s\<lparr>heap := h\<rparr>) = live_bytes E Q s" by (rule in_use_frame(5) [OF use]) (use h in simp_all)
  have "in_use E contents V Q (live_bytes E Q s) (s\<lparr>heap := h\<rparr>)" by (rule in_use_frame(1) [OF use]) (use h in simp_all)
  then show "store_inv E items capacity contents area room T V Q N (s\<lparr>heap := h\<rparr>)"
    using l inv by (simp add: store_inv_def cache_ok_def)
qed

end

text \<open>Resizing takes space for the new object and then frees the old one where it is.\<close>

definition resize_step :: "('q, 'd) ext \<Rightarrow> addr \<Rightarrow> ('q, 'd) fm_state \<Rightarrow> ('q, 'd) fm_state \<Rightarrow> bool" where
  "resize_step E p s s' \<longleftrightarrow> (\<exists>n a w b. space_drawn E n a s w \<and> settled E n a p w \<and> (\<forall>q. q \<noteq> p \<longrightarrow> metas w q = metas s q)
     \<and> s' = inc_ref_cnt E b (-1) (w\<lparr>heap := ob_free (Ob E) (obj_at E s p) (heap w)\<rparr>))"

text \<open>\<^verbatim>\<open>Object::free\<close> writes into the header of the object.\<close>

locale resize_env = cache_space E items capacity contents area room T
  for E :: "('q, 'd) ext" and items capacity contents area room T +
  assumes free_outside: "outside a (ob_kHeaderSize (Ob E)) x \<Longrightarrow> ob_free (Ob E) a h x = h x"
begin

text \<open>The new object is complete, the old one still there.\<close>

definition refilled :: "addr \<Rightarrow> u16 \<Rightarrow> u8 list \<Rightarrow> addr \<Rightarrow> u8 \<Rightarrow> u8 list \<Rightarrow> ('q, 'd) fm_state \<Rightarrow> ('q, 'd) fm_state \<Rightarrow> bool" where
  "refilled p item buf a ds oidb s u \<longleftrightarrow> (\<exists>m h g. u = s\<lparr>metas := (metas s)(p := m), heap := h, far_mem_region_manager := g\<rparr>
       \<and> pt_is_present (Pt E) m \<and> pt_get_object_addr (Pt E) m = a \<and> \<not> pt_is_shared (Pt E) m \<and> pt_is_dirty (Pt E) m)
     \<and> obj_view (Ob E) (heap u) a = (ds, oidb, take (unat item) buf)
     \<and> (p \<noteq> 0 \<longrightarrow> owned_by (Ob E) (heap u) a p)
     \<and> (\<forall>x. body x \<longrightarrow> outside a (ob_kHeaderSize (Ob E) + unat item + length oidb) x \<longrightarrow> heap u x = heap s x)"

text \<open>Up to the fields of the new object.\<close>

definition filled :: "addr \<Rightarrow> u16 \<Rightarrow> u8 list \<Rightarrow> addr \<Rightarrow> ('q, 'd) fm_state \<Rightarrow> ('q, 'd) fm_state" where
  "filled p item buf a s = upd_ptr (pt_init (Pt E) False p a) p
     (s\<lparr>heap := wr_bytes (heap s) (a + of_nat (ob_kHeaderSize (Ob E))) (take (unat item) buf)\<rparr>)"

lemma filled_spec:
  fixes buf :: "u8 list"
  assumes a: "addressable (Ob E) a" and fit: "ob_kHeaderSize (Ob E) + unat item < 2 ^ 16" and buf: "unat item \<le> length buf"
  obtains m h where "filled p item buf a s = s\<lparr>metas := (metas s)(p := m), heap := h\<rparr>"
    and "pt_is_present (Pt E) m" "pt_get_object_addr (Pt E) m = a" "\<not> pt_is_shared (Pt E) m" "pt_is_dirty (Pt E) m"
    and "\<And>x. outside a (ob_kHeaderSize (Ob E) + unat item) x \<Longrightarrow> h x = heap s x"
    and "\<And>i. i < unat item \<Longrightarrow> h (a + of_nat (ob_kHeaderSize (Ob E) + i)) = buf ! i"
    and "p \<noteq> 0 \<Longrightarrow> owned_by (Ob E) h a p"
proof -
  let ?H = "ob_kHeaderSize (Ob E)"
  let ?h1 = "wr_bytes (heap s) (a + of_nat ?H) (take (unat item) buf)"
  obtain m h where i: "pt_init (Pt E) False p a (metas s p, ?h1) = (m, h)" by fastforce
  note law = init_law [OF a, unfolded update_law_def, rule_format, OF i]
  show thesis
  proof (rule that)
    show "filled p item buf a s = s\<lparr>metas := (metas s)(p := m), heap := h\<rparr>" using i by (simp add: filled_def upd_ptr_def)
    show "h x = heap s x" if "outside a (?H + unat item) x" for x
    proof -
      have "h x = ?h1 x" using law that by (simp add: outside_def)
      also have "\<dots> = heap s x"
        by (rule wr_bytes_outside) (use outside_sub [OF that, of ?H "unat item"] buf in simp)
      finally show ?thesis .
    qed
    show "h (a + of_nat (?H + i)) = buf ! i" if "i < unat item" for i
    proof -
      have "outside a ?H (a + of_nat (?H + i))"
        using that fit by (simp add: outside_def unat_of_nat_u64 del: of_nat_add)
      then have "h (a + of_nat (?H + i)) = ?h1 (a + of_nat (?H + i))" using law by blast
      also have "\<dots> = take (unat item) buf ! i"
        using wr_bytes_at [of i "take (unat item) buf" "heap s" "a + of_nat ?H"] that buf fit by (simp add: add.assoc)
      finally show ?thesis using that by simp
    qed
  qed (use law ptr_init_owner [OF _ i] in simp_all)
qed

lemma refill_new:
  fixes buf :: "u8 list"
  assumes a: "placed a (ob_kHeaderSize (Ob E) + unat item + length oidb)" "addressable (Ob E) a"
    and fit: "ob_kHeaderSize (Ob E) + unat item + length oidb < 2 ^ 16" "length oidb < 256" and buf: "unat item \<le> length buf"
    and h0: "only_headers (heap (filled p item buf a s)) h0"
  shows "refilled p item buf a ds oidb s
    ((filled p item buf a s)\<lparr>heap := ob_init (Ob E) ds item oidb a h0, far_mem_region_manager := g\<rparr>)"
proof -
  let ?H = "ob_kHeaderSize (Ob E)"
  have fit': "?H + unat item < 2 ^ 16" using fit(1) by simp
  obtain h m where f: "filled p item buf a s = s\<lparr>metas := (metas s)(p := m), heap := h\<rparr>"
      "pt_is_present (Pt E) m" "pt_get_object_addr (Pt E) m = a" "\<not> pt_is_shared (Pt E) m" "pt_is_dirty (Pt E) m"
      "\<And>x. outside a (?H + unat item) x \<Longrightarrow> h x = heap s x" "\<And>i. i < unat item \<Longrightarrow> h (a + of_nat (?H + i)) = buf ! i"
      "p \<noteq> 0 \<Longrightarrow> owned_by (Ob E) h a p"
    by (rule filled_spec [OF a(2) fit' buf, of p s]) (rule that)
  have h0': "h0 x = h x" if "body x" for x using h0 that by (simp add: only_headers_def f(1))
  have "h0 (a + of_nat ?H + of_nat i) = buf ! i" if "i < unat item" for i
    using h0' [OF placed_body [OF a(1), of "?H + i"]] f(7) [OF that] that by (simp add: add.assoc)
  then have "rd_bytes h0 (ob_get_data_addr (Ob E) a) (unat item) = take (unat item) buf"
    using buf by (intro nth_equalityI) (simp_all add: rd_bytes_def data_addr del: of_nat_unat)
  then have view: "obj_view (Ob E) (ob_init (Ob E) ds item oidb a h0) a = (ds, oidb, take (unat item) buf)"
    using init_view [OF fit(2,1), of ds a h0] by simp
  have frame: "ob_init (Ob E) ds item oidb a h0 x = heap s x" if "body x" "outside a (?H + unat item + length oidb) x" for x
    using init_outside [OF that(2)] h0' [OF that(1)] f(6) [of x] that(2) by (simp add: outside_def)
  have "owned_by (Ob E) (ob_init (Ob E) ds item oidb a h0) a p" if "p \<noteq> 0"
  proof -
    have "owned_by (Ob E) h0 a p" by (rule owner_headers [OF f(8) [OF that] a(1)]) (use h0 in \<open>simp_all add: f(1)\<close>)
    then show ?thesis by (rule init_owned [OF _ fit(2,1)])
  qed
  then show ?thesis using view frame f(2-5) by (auto simp: refilled_def f(1) intro!: exI [of _ m])
qed

text \<open>The last two steps touch only the old object and the headers of regions.\<close>

lemma freed_store:
  assumes inv: "store_inv E items capacity contents area room T V Q N w"
    and old: "ob_kHeaderSize (Ob E) \<le> n" "addr_range old n \<inter> live_bytes E Q w = {}"
  shows "store_inv E items capacity contents area room T V Q N (inc_ref_cnt E a d (w\<lparr>heap := ob_free (Ob E) old (heap w)\<rparr>))"
proof -
  let ?h = "rg_atomic_inc_ref_cnt (Rg E) a d (ob_free (Ob E) old (heap w))"
  have "?h x = heap w x" if "body x" "x \<in> live_bytes E Q w" for x
  proof -
    have "x \<notin> addr_range old n" using old(2) that(2) by blast
    then have "outside old (ob_kHeaderSize (Ob E)) x" using old(1) by (simp add: addr_range_def outside_def)
    then have "ob_free (Ob E) old (heap w) x = heap w x" by (rule free_outside)
    moreover have "only_headers (ob_free (Ob E) old (heap w)) ?h" by (rule ref_cnt_headers)
    ultimately show ?thesis using that(1) by (simp add: only_headers_def)
  qed
  then have "store_inv E items capacity contents area room T V Q N (w\<lparr>heap := ?h\<rparr>)" using garbage_store(1) [OF inv] by blast
  then show ?thesis by (simp add: inc_ref_cnt_def)
qed

lemma refilled_store:
  fixes buf :: "u8 list"
  assumes inv: "store_inv E items capacity contents area room T V Q N s" and p: "p \<in> Q" "present E s p"
    and al: "allocate_local_object_nb E False (total_size E item 8) s = Some (Inr (Some a, s1))" "alloc_frame E items capacity N s s1"
    and a: "placed a (unat (total_size E item 8))" "addressable (Ob E) a" and fit: "ob_kHeaderSize (Ob E) + unat item + 8 < 2 ^ 16"
    and buf: "unat item \<le> length buf" and w: "refilled p item buf a ds oidb s1 w"
    and oid: "\<exists>r < 2 ^ 38. oidb = u64_bytes r" and fresh: "(ds, oidb) \<notin> key V ` (Q - {p})"
  shows "store_inv E items capacity contents area room T (V(p := (ds, oidb, take (unat item) buf))) Q N w"
    and "obj_bytes E s p \<inter> live_bytes E Q w = {}"
    and "space_drawn E (total_size E item 8) a s w" "settled E (total_size E item 8) a p w" "\<forall>q. q \<noteq> p \<longrightarrow> metas w q = metas s q"
proof -
  let ?v = "(ds, oidb, take (unat item) buf)" and ?Y = "addr_range a (unat (total_size E item 8))"
  let ?V = "V(p := ?v)"
  have tot: "unat (total_size E item 8) = ob_kHeaderSize (Ob E) + unat item + 8" by (rule total_size_fits [OF fit])
  have len: "length oidb = 8" using oid by auto
  obtain m h g where sh: "w = s1\<lparr>metas := (metas s1)(p := m), heap := h, far_mem_region_manager := g\<rparr>"
      "pt_is_present (Pt E) m" "pt_get_object_addr (Pt E) m = a" "\<not> pt_is_shared (Pt E) m" "pt_is_dirty (Pt E) m"
    using w unfolding refilled_def by (elim exE conjE) (rule that)
  have view: "obj_view (Ob E) (heap w) a = ?v" and frame: "\<forall>x. body x \<longrightarrow> x \<notin> ?Y \<longrightarrow> heap w x = heap s1 x"
    using w by (simp_all add: refilled_def tot len addr_range_def)
  have okw: "obj_ok (Ob E) (heap w) a" using view fit len buf by (simp add: obj_ok_def obj_view_def)
  have szw: "unat (ob_size (Ob E) (heap w) a) = unat (total_size E item 8)" using size_view [OF okw] view len buf tot by (simp add: obj_view_def)
  have "p \<noteq> 0 \<longrightarrow> owned_by (Ob E) (heap w) a p" using w by (simp add: refilled_def)
  then show "settled E (total_size E item 8) a p w" using sh(2,3) okw szw a(1) tot
    by (simp add: settled_def present_def obj_at_def sh(1) word_unat_eq_iff)
  show "space_drawn E (total_size E item 8) a s w" "\<forall>q. q \<noteq> p \<longrightarrow> metas w q = metas s q"
    using al(1) frame alloc_frame_fields(1,8) [OF al(2)] by (auto simp: space_drawn_def only_headers_def sh(1))
  from szw have "obj_backed E contents w True a" using okw a oid view by (auto simp: obj_backed_def obj_view_def)
  then have ok: "ptr_ok E contents w p" using sh by (simp add: ptr_ok_def Let_def)
  have pw: "present E w p" "obj_at E w p = a" using sh by (simp_all add: present_def obj_at_def)
  have val: "value_of E contents w p = Some ?v" using sh view by (simp add: value_of_def Let_def)
  have bw: "obj_bytes E w p = ?Y" by (rule new_object_bytes [OF ok pw view]) (use tot len buf in simp)
  have mv: "moved E contents p (?V p) ?Y s1 w" using ok val bw frame by (simp add: moved_def sh(1))
  have V: "inj_on (key ?V) (insert p Q)"
  proof -
    have "inj_on (key ?V) (Q - {p}) = inj_on (key V) (Q - {p})" by (intro inj_on_cong) (auto simp: key_def)
    moreover have "key ?V ` (Q - {p}) = key V ` (Q - {p})" by (intro image_cong) (auto simp: key_def)
    moreover have "inj_on (key V) (Q - {p})" using inv by (auto simp: store_inv_def intro: inj_on_subset)
    moreover have "key ?V p = (ds, oidb)" by (simp add: key_def)
    ultimately have "inj_on (key ?V) (insert p (Q - {p}))" using fresh unfolding inj_on_insert by simp
    then show ?thesis by simp
  qed
  have l: "obj_locks s = {}" and use: "in_use E contents V Q (live_bytes E Q s) s" and cok: "cache_ok E items capacity N s"
    and sp: "space (live_bytes E Q s) s" using inv by (simp_all add: store_inv_def in_use_def)
  have sl: "s\<lparr>obj_locks := {}\<rparr> = s" using l by (metis fm_state.surjective fm_state.update_convs(7))
  have wl: "w\<lparr>obj_locks := {}\<rparr> = w" using alloc_frame_fields(3) [OF al(2)] l by (simp add: sh(1))
  have st: "store_inv E items capacity contents area room T ?V (insert p Q) N (w\<lparr>obj_locks := {}\<rparr>)"
    by (rule placed_store [where l = "{}", OF inv _ _ mv _ V]) (use al sl in \<open>simp_all add: sh(1)\<close>)
  then show "store_inv E items capacity contents area room T ?V Q N w" unfolding wl using p(1) by (simp add: insert_absorb)
  have Y: "?Y \<inter> live_bytes E Q s = {}" using allocate_nb_space [OF al(1) cok sp] by (simp add: taken_def)
  have mv': "moved E contents p (?V p) ?Y (s\<lparr>obj_locks := {}\<rparr>) w"
    unfolding sl by (rule moved_after_alloc [OF al(2) mv])
  have other: "q \<in> Q \<Longrightarrow> q \<noteq> p \<Longrightarrow> present E w q = present E s q \<and> (present E s q \<longrightarrow> obj_bytes E w q = obj_bytes E s q)" for q
    using moved_in_use(2) [OF use V _ mv' Y] by simp
  have "obj_bytes E s p \<inter> obj_bytes E w q = {}" if q: "q \<in> Q" "present E w q" for q
  proof (cases "q = p")
    case True
    then show ?thesis using bw Y live_bytesI [OF p] by blast
  next
    case False
    have "apart E Q s" using use by (simp add: in_use_def)
    then have "obj_bytes E s p \<inter> obj_bytes E s q = {}" if "present E s q"
      using p q(1) that False unfolding apart_def by blast
    then show ?thesis using other [OF q(1) False] q(2) by simp
  qed
  then show "obj_bytes E s p \<inter> live_bytes E Q w = {}" by (auto simp: live_bytes_def)
qed

text \<open>The id of the new object, and the state in which it is complete.\<close>

definition resized :: "addr \<Rightarrow> u16 \<Rightarrow> u8 list \<Rightarrow> addr \<Rightarrow> addr \<Rightarrow> u8 \<Rightarrow> u16 \<Rightarrow> nat \<Rightarrow> ('q, 'd) fm_state \<Rightarrow> (fm_error + ('q, 'd) fm_state) option" where
  "resized p item buf a old ds n len s =
     (if ds = kVanillaPtrDSID E
      then and_then (allocate_remote_object E False n (filled p item buf a s))
             (\<lambda>(r, s). Some (Inr (s\<lparr>heap := ob_init (Ob E) ds item (take (unat (kVanillaPtrObjectIDSize E)) (u64_bytes r)) a (heap s)\<rparr>)))
      else (let s = filled p item buf a s
            in Some (Inr (s\<lparr>heap := ob_init (Ob E) ds item (rd_bytes (heap s) (ob_get_obj_id (Ob E) (heap s) old) len) a (heap s)\<rparr>))))"

lemma resized_spec:
  fixes buf :: "u8 list"
  assumes fok: "far_ok E items capacity M s" and v: "kVanillaPtrObjectIDSize E = 8"
    and a: "placed a (unat (total_size E item 8))" "addressable (Ob E) a" and fit: "ob_kHeaderSize (Ob E) + unat item + 8 < 2 ^ 16"
    and buf: "unat item \<le> length buf"
    and old: "obj_ok (Ob E) (heap s) old" "obj_view (Ob E) (heap s) old = (ds, oid, bs)" "length oid = 8"
      "bytes_of E (heap s) old \<inter> addr_range a (unat (total_size E item 8)) = {}"
    and run: "resized p item buf a old ds (total_size E item 8) 8 s = Some z"
  shows "\<exists>w oidb. z = Inr w \<and> refilled p item buf a ds oidb s w
    \<and> id_from E (if ds = kVanillaPtrDSID E then None else Some oid) (total_size E item 8) oidb s w"
proof -
  have tot: "unat (total_size E item 8) = ob_kHeaderSize (Ob E) + unat item + 8" by (rule total_size_fits [OF fit])
  have fit': "ob_kHeaderSize (Ob E) + unat item < 2 ^ 16" using fit by simp
  let ?f = "filled p item buf a s"
  obtain h m where f: "?f = s\<lparr>metas := (metas s)(p := m), heap := h\<rparr>"
      "\<And>x. outside a (ob_kHeaderSize (Ob E) + unat item) x \<Longrightarrow> h x = heap s x"
    by (rule filled_spec [OF a(2) fit' buf, of p s]) (rule that)
  have new: "refilled p item buf a ds oidb s (?f\<lparr>heap := ob_init (Ob E) ds item oidb a h0, far_mem_region_manager := g\<rparr>)"
    if "length oidb = 8" "only_headers (heap ?f) h0" for oidb h0 g
    by (rule refill_new) (use that a fit buf tot in simp_all)
  show ?thesis
  proof (cases "ds = kVanillaPtrDSID E")
    case True
    have fokf: "far_ok E items capacity M ?f" using fok by (simp add: far_ok_def f(1))
    obtain y where y: "allocate_remote_object E False (total_size E item 8) ?f = Some y"
      using run True by (cases "allocate_remote_object E False (total_size E item 8) ?f") (simp_all add: resized_def)
    obtain r u where r: "y = Inr (r, u)" "far_step E items capacity M ?f u" using remote_spec [OF fokf y] by blast
    then obtain h0 g where u: "u = ?f\<lparr>heap := h0, far_mem_region_manager := g\<rparr>" "only_headers (heap ?f) h0"
      unfolding far_step_def by blast
    let ?w = "?f\<lparr>heap := ob_init (Ob E) ds item (u64_bytes r) a h0, far_mem_region_manager := g\<rparr>"
    have "resized p item buf a old ds (total_size E item 8) 8 s = Some (Inr ?w)"
      using True y r(1) u(1) v by (simp add: resized_def)
    then have "z = Inr ?w" using run by simp
    moreover have "refilled p item buf a ds (u64_bytes r) s ?w" by (rule new [OF _ u(2)]) simp
    moreover have "far_drawn E (total_size E item 8) (u64_bytes r) s ?w"
      unfolding far_drawn_def using y r(1) by (intro exI [of _ ?f] exI [of _ u] exI [of _ r]) (simp add: u(1) f(1))
    ultimately show ?thesis using True by (intro exI [of _ ?w] exI [of _ "u64_bytes r"]) (simp only: id_from_def if_True option.case, simp)
  next
    case False
    have kept: "h (old + of_nat i) = heap s (old + of_nat i)" if "i < unat (ob_size (Ob E) (heap s) old)" for i
    proof -
      have "old + of_nat i \<in> bytes_of E (heap s) old" using that by (auto simp: bytes_of_offset)
      then have "outside a (unat (total_size E item 8)) (old + of_nat i)" using old(4) by (auto simp: addr_range_def)
      then show ?thesis by (intro f(2)) (simp add: outside_def tot)
    qed
    have view: "obj_view (Ob E) h old = (ds, oid, bs)" using view_agree [OF old(1) kept] old(2) by simp
    then have "obj_id_bytes (Ob E) h old = oid" by (simp add: obj_view_def)
    moreover from this have "unat (ob_get_obj_id_len (Ob E) h old) = 8" using old(3) by (metis length_rd_bytes obj_id_bytes_def)
    ultimately have id: "rd_bytes h (ob_get_obj_id (Ob E) h old) 8 = oid" by (simp add: obj_id_bytes_def)
    let ?w = "?f\<lparr>heap := ob_init (Ob E) ds item oid a (heap ?f), far_mem_region_manager := far_mem_region_manager ?f\<rparr>"
    have "z = Inr ?w" using run False id by (simp add: resized_def f(1) Let_def)
    then show ?thesis using False new [of oid "heap ?f" "far_mem_region_manager ?f"] old(3)
      by (intro exI [of _ ?w] exI [of _ oid]) (simp add: id_from_def f(1))
  qed
qed

lemma resized_returns:
  assumes fok: "far_ok E items capacity M s"
    and far: "ds \<noteq> kVanillaPtrDSID E \<or> (\<exists>x xs. items (free_regions (far_mem_region_manager s)) = x # xs
      \<and> (\<forall>h. fst (rg_allocate_object (Rg E) n x h) \<noteq> None))"
  shows "\<exists>w. resized p item buf a old ds n len s = Some (Inr w)"
proof (cases "ds = kVanillaPtrDSID E")
  case True
  let ?f = "filled p item buf a s"
  have "far_mem_region_manager ?f = far_mem_region_manager s" "cur_slot ?f = cur_slot s"
    by (simp_all add: filled_def upd_ptr_def split_def Let_def)
  then have fokf: "far_ok E items capacity M ?f" and farf: "\<exists>x xs. items (free_regions (far_mem_region_manager ?f)) = x # xs
        \<and> (\<forall>h. fst (rg_allocate_object (Rg E) n x h) \<noteq> None)" using far fok True by (simp_all add: far_ok_def)
  obtain y where y: "allocate_remote_object E False n ?f = Some y" using remote_returns [OF fokf disjI2 [OF farf]] by blast
  then show ?thesis using True remote_spec [OF fokf y] by (auto simp: resized_def)
qed (simp add: resized_def Let_def)

text \<open>The header of a present pointer's object.\<close>

lemma present_header:
  assumes "ptr_ok E contents s p" and "value_of E contents s p = Some v" and "present E s p"
  shows "ob_get_ds_id (Ob E) (heap s) (obj_at E s p) = fst v" "unat (ob_get_obj_id_len (Ob E) (heap s) (obj_at E s p)) = 8"
proof -
  let ?a = "obj_at E s p"
  have view: "obj_view (Ob E) (heap s) ?a = v" using assms(2,3) by (simp add: value_of_def present_def obj_at_def Let_def)
  then show "ob_get_ds_id (Ob E) (heap s) ?a = fst v" by (auto simp: obj_view_def)
  have "obj_backed E contents s (pt_is_dirty (Pt E) (metas s p)) ?a"
    using assms(1,3) by (simp add: ptr_ok_def present_def obj_at_def Let_def)
  then have "length (obj_id_bytes (Ob E) (heap s) ?a) = 8" by (auto simp: obj_backed_def)
  then show "unat (ob_get_obj_id_len (Ob E) (heap s) ?a) = 8" by (simp add: obj_id_bytes_def)
qed

lemma reallocate_resized:
  assumes st: "ptr_ok E contents s p" "value_of E contents s p = Some v" and p: "present E s p" and deref: "deref_fn E p s = Some (Inr s)"
    and al: "allocate_local_object_nb E False (total_size E item 8) s = Some (Inr (Some a, s1))"
  shows "reallocate_generic_unique_ptr_nb E p item buf s = and_then (resized p item buf a (obj_at E s p) (fst v) (total_size E item 8) 8 s1)
    (\<lambda>t. Some (Inr (True, inc_ref_cnt E a (-1) (t\<lparr>heap := ob_free (Ob E) (obj_at E s p) (heap t)\<rparr>))))"
proof -
  have old: "pt_get_object_addr (Pt E) (metas s p) = obj_at E s p" by (simp add: obj_at_def)
  show ?thesis using al
    by (simp add: reallocate_generic_unique_ptr_nb_def deref old present_header [OF st p] resized_def filled_def Let_def)
qed

lemma resize_store:
  fixes buf :: "u8 list"
  assumes inv: "store_inv E items capacity contents area room T V Q N s" and p: "p \<in> Q" "present E s p"
    and deref: "deref_fn E p s = Some (Inr s)" and fok: "far_ok E items capacity M s" and v: "kVanillaPtrObjectIDSize E = 8"
    and fit: "ob_kHeaderSize (Ob E) + unat item + 8 < 2 ^ 16" and buf: "unat item \<le> length buf"
    and run: "reallocate_generic_unique_ptr_nb E p item buf s = Some z"
  shows "\<exists>ok s'. z = Inr (ok, s') \<and> region_ids (Rg E) items (cache_region_manager s') = region_ids (Rg E) items (cache_region_manager s)
    \<and> (if ok then \<exists>oidb. id_from E (if fst (V p) = kVanillaPtrDSID E then None else Some (fst (snd (V p)))) (total_size E item 8) oidb s s'
           \<and> ((fst (V p) = kVanillaPtrDSID E \<longrightarrow> (\<exists>r < 2 ^ 38. oidb = u64_bytes r) \<and> (fst (V p), oidb) \<notin> key V ` (Q - {p})) \<longrightarrow>
             store_inv E items capacity contents area room T (V(p := (fst (V p), oidb, take (unat item) buf))) Q N s' \<and> resize_step E p s s')
       else far_mem_region_manager s' = far_mem_region_manager s \<and> store_inv E items capacity contents area room T V Q N s' \<and> nothing_drawn E s s' \<and> metas s' = metas s)"
proof -
  let ?old = "obj_at E s p" and ?n = "total_size E item 8" and ?ds = "fst (V p)" and ?oid = "fst (snd (V p))"
  have cok: "cache_ok E items capacity N s" and use: "in_use E contents V Q (live_bytes E Q s) s" and sp: "space (live_bytes E Q s) s"
    and injV: "inj_on (key V) Q" using inv by (simp_all add: store_inv_def)
  have st: "ptr_ok E contents s p" "value_of E contents s p = Some (V p)" using use p(1) by (simp_all add: in_use_def stored_def)
  have view: "obj_view (Ob E) (heap s) ?old = (?ds, ?oid, snd (snd (V p)))"
    using st(2) p(2) by (simp add: value_of_def present_def obj_at_def Let_def)
  have bk: "obj_backed E contents s (pt_is_dirty (Pt E) (metas s p)) ?old"
    using st(1) p(2) by (simp add: ptr_ok_def present_def obj_at_def Let_def)
  then have ok: "obj_ok (Ob E) (heap s) ?old" "placed ?old (unat (ob_size (Ob E) (heap s) ?old))" by (simp_all add: obj_backed_def)
  have vf: "ob_get_ds_id (Ob E) (heap s) ?old = ?ds" "obj_id_bytes (Ob E) (heap s) ?old = ?oid"
    using view unfolding obj_view_def prod.inject by blast+
  have id: "\<exists>r < 2 ^ 38. ?oid = u64_bytes r" using bk unfolding obj_backed_def vf by blast
  then have len: "length ?oid = 8" by auto
  have hdr: "ob_get_ds_id (Ob E) (heap s) ?old = ?ds" "unat (ob_get_obj_id_len (Ob E) (heap s) ?old) = 8"
    using vf len by (simp, metis length_rd_bytes obj_id_bytes_def)
  obtain res s1 where al: "allocate_local_object_nb E False ?n s = Some (Inr (res, s1))" "alloc_frame E items capacity N s s1"
      and res: "case res of None \<Rightarrow> items (free_regions (cache_region_manager s1)) = [] | Some a \<Rightarrow> placed a (unat ?n) \<and> addressable (Ob E) a"
    using allocate_nb_spec [OF cok] by blast
  note fr = alloc_frame_fields [OF al(2)]
  have old: "pt_get_object_addr (Pt E) (metas s p) = ?old" by (simp add: obj_at_def)
  show ?thesis
  proof (cases res)
    case None
    then have "z = Inr (False, s1)"
      using al(1) run by (simp add: reallocate_generic_unique_ptr_nb_def deref old hdr Let_def)
    moreover have "store_inv E items capacity contents area room T V Q N s1" using full_store(1) [OF inv _ al(2)] al(1) None by simp
    ultimately show ?thesis using fr(7,10) full_step [OF _ al(2)] al(1) None by (intro exI [of _ False] exI [of _ s1]) simp
  next
    case (Some a)
    have a: "placed a (unat ?n)" "addressable (Ob E) a" using res Some by simp_all
    have al': "allocate_local_object_nb E False ?n s = Some (Inr (Some a, s1))" using al(1) Some by simp
    have same: "obj_view (Ob E) (heap s1) ?old = obj_view (Ob E) (heap s) ?old \<and> ob_size (Ob E) (heap s1) ?old = ob_size (Ob E) (heap s) ?old"
      by (rule view_headers [OF ok fr(8)])
    have ob: "obj_bytes E s p = addr_range ?old (unat (ob_size (Ob E) (heap s) ?old))" by (simp add: obj_bytes_def bytes_of_def)
    have "addr_range a (unat ?n) \<inter> live_bytes E Q s = {}" using allocate_nb_space [OF al' cok sp] by (simp add: taken_def)
    then have dis: "bytes_of E (heap s1) ?old \<inter> addr_range a (unat ?n) = {}"
      using live_bytesI [OF p] same by (auto simp: ob bytes_of_def)
    have fok1: "far_ok E items capacity M s1" using fok fr by (simp add: far_ok_def)
    note real = reallocate_resized [OF st p(2) deref al']
    obtain y where y: "resized p item buf a ?old ?ds ?n 8 s1 = Some y"
      using run unfolding real by (cases "resized p item buf a ?old ?ds ?n 8 s1") simp_all
    have "\<exists>w oidb. y = Inr w \<and> refilled p item buf a ?ds oidb s1 w
        \<and> id_from E (if ?ds = kVanillaPtrDSID E then None else Some ?oid) ?n oidb s1 w"
    proof (rule resized_spec [OF fok1 v a fit buf _ _ len dis y])
      show "obj_ok (Ob E) (heap s1) ?old" using view_ok [OF conjunct1 [OF same]] ok(1) by simp
      show "obj_view (Ob E) (heap s1) ?old = (?ds, ?oid, snd (snd (V p)))" using same view by simp
    qed
    then obtain w oidb where w: "y = Inr w" "refilled p item buf a ?ds oidb s1 w"
        "id_from E (if ?ds = kVanillaPtrDSID E then None else Some ?oid) ?n oidb s1 w" by (elim exE conjE) (rule that)
    let ?s' = "inc_ref_cnt E a (-1) (w\<lparr>heap := ob_free (Ob E) ?old (heap w)\<rparr>)"
    have z: "z = Inr (True, ?s')" using run unfolding real by (simp add: y w(1))
    have src: "id_from E (if ?ds = kVanillaPtrDSID E then None else Some ?oid) ?n oidb s ?s'"
      using w(3) by (subst (asm) id_from_cong [where s = s and s' = ?s']) (simp_all add: fr inc_ref_cnt_def)
    then have given: "id_given (if ?ds = kVanillaPtrDSID E then None else Some ?oid) oidb" by (rule id_from_given)
    have fin: "store_inv E items capacity contents area room T (V(p := (?ds, oidb, take (unat item) buf))) Q N ?s'" "resize_step E p s ?s'"
      if fresh: "?ds = kVanillaPtrDSID E \<longrightarrow> (\<exists>r < 2 ^ 38. oidb = u64_bytes r) \<and> (?ds, oidb) \<notin> key V ` (Q - {p})"
    proof -
      have new: "\<exists>r < 2 ^ 38. oidb = u64_bytes r" using fresh given id by (auto simp: id_given_def split: if_splits)
      have "(?ds, ?oid) \<notin> key V ` (Q - {p})"
        using injV p(1) by (auto simp: inj_on_def key_def)
      then have "(?ds, oidb) \<notin> key V ` (Q - {p})" using fresh given by (auto simp: id_given_def split: if_splits)
      note r = refilled_store [OF inv p al' al(2) a fit buf w(2) new this]
      have "ob_kHeaderSize (Ob E) \<le> unat (ob_size (Ob E) (heap s) ?old)" using size_view [OF ok(1)] by simp
      then show "store_inv E items capacity contents area room T (V(p := (?ds, oidb, take (unat item) buf))) Q N ?s'"
        using freed_store [OF r(1)] r(2) unfolding ob by blast
      show "resize_step E p s ?s'" unfolding resize_step_def by (intro exI conjI) (rule r(3-5) refl)+
    qed
    have ids: "region_ids (Rg E) items (cache_region_manager ?s') = region_ids (Rg E) items (cache_region_manager s)"
      using w(2) fr(10) by (auto simp: refilled_def inc_ref_cnt_def)
    show ?thesis
      by (rule exI [of _ True], rule exI [of _ ?s'], rule conjI [OF z], rule conjI [OF ids], unfold if_True, rule exI [of _ oidb], rule conjI [OF src])
         (use fin in blast)
  qed
qed

lemma resize_returns:
  fixes buf :: "u8 list"
  assumes inv: "store_inv E items capacity contents area room T V Q N s" and p: "p \<in> Q" "present E s p"
    and deref: "deref_fn E p s = Some (Inr s)" and fok: "far_ok E items capacity M s"
    and far: "fst (V p) \<noteq> kVanillaPtrDSID E \<or> (\<exists>x xs. items (free_regions (far_mem_region_manager s)) = x # xs
      \<and> (\<forall>h. fst (rg_allocate_object (Rg E) (total_size E item 8) x h) \<noteq> None))"
  shows "\<exists>z. reallocate_generic_unique_ptr_nb E p item buf s = Some z"
proof -
  let ?old = "obj_at E s p" and ?n = "total_size E item 8" and ?ds = "fst (V p)"
  have cok: "cache_ok E items capacity N s" and st: "ptr_ok E contents s p" "value_of E contents s p = Some (V p)"
    using inv p(1) by (simp_all add: store_inv_def in_use_def stored_def)
  note hdr = present_header [OF st p(2)]
  have old: "pt_get_object_addr (Pt E) (metas s p) = ?old" by (simp add: obj_at_def)
  obtain res s1 where al: "allocate_local_object_nb E False ?n s = Some (Inr (res, s1))" "alloc_frame E items capacity N s s1"
    using allocate_nb_spec [OF cok] by blast
  note fr = alloc_frame_fields [OF al(2)]
  show ?thesis
  proof (cases res)
    case None
    then show ?thesis using al(1) by (simp add: reallocate_generic_unique_ptr_nb_def deref old hdr Let_def)
  next
    case (Some a)
    have "far_ok E items capacity M s1" using fok fr by (simp add: far_ok_def)
    then obtain w where "resized p item buf a ?old ?ds ?n 8 s1 = Some (Inr w)"
      using resized_returns [of M s1 ?ds ?n p item buf a ?old 8] far unfolding fr(7) by blast
    then show ?thesis
      using reallocate_resized [OF st p(2) deref al(1) [unfolded Some]] by simp
  qed
qed

end

section \<open>What the operations keep\<close>

text \<open>
  C7 (fetching keeps every object): where there is room and the object's lock is free,
  swapping in the object of an absent pointer returns with the object present. Every pointer
  has the value it had, all other objects are where they were, and the new one lies in bytes
  that were free.
\<close>

theorem fetch_keeps_objects:
  assumes "cache_space E items capacity contents area room T" and "store_inv E items capacity contents area room T V Q N s"
    and "p \<in> Q" and "\<not> present E s p" and "lock_wait E (u64_bytes (pt_get_object_id (Pt E) (metas s p))) s = Some s"
    and "fst (rg_allocate_object (Rg E) (pt_get_object_size (Pt E) (metas s p)) (get_slot (cache_region_manager s) (cur_slot s False)) (heap s)) \<noteq> None
      \<or> (\<exists>x xs. items (free_regions (cache_region_manager s)) = x # xs
           \<and> (\<forall>h. fst (rg_allocate_object (Rg E) (pt_get_object_size (Pt E) (metas s p)) x h) \<noteq> None))"
  shows "\<exists>s'. swap_in E False p s = Some (Inr s') \<and> store_inv E items capacity contents area room T V Q N s'
    \<and> present E s' p \<and> (\<forall>q \<in> Q. q \<noteq> p \<longrightarrow> present E s' q = present E s q \<and> obj_at E s' q = obj_at E s q)
    \<and> (\<forall>q \<in> Q. value_of E contents s' q = Some (V q))"
  using cache_space.swap_in_store [OF assms] by (auto simp: store_inv_def in_use_def stored_def)

text \<open>
  C9 (creation keeps every object): creating a unique pointer returns. On success the new
  pointer has a value of the asked data structure, id and length, and where its id is one of
  38 bits that no other pointer uses, the store now holds one object more and all others as
  they were. On failure nothing has changed.
\<close>

theorem creation_keeps_objects:
  assumes "cache_space E items capacity contents area room T" and "store_inv E items capacity contents area room T V Q N s"
    and "far_ok E items capacity M s" and "p \<notin> Q"
    and "ob_kHeaderSize (Ob E) + unat item + id_len_of E oid < 2 ^ 16" and "id_len_of E oid < 256" and "kVanillaPtrObjectIDSize E = 8"
    and "oid \<noteq> None \<or> (\<exists>x xs. items (free_regions (far_mem_region_manager s)) = x # xs
      \<and> (\<forall>h. fst (rg_allocate_object (Rg E) (total_size E item (id_len_of E oid)) x h) \<noteq> None))"
  shows "\<exists>ok s'. allocate_generic_unique_ptr_nb E p ds item oid s = Some (Inr (ok, s'))
    \<and> (if ok then \<exists>oidb bs. value_of E contents s' p = Some (ds, oidb, bs) \<and> length bs = unat item \<and> id_given oid oidb
           \<and> ((\<exists>r < 2 ^ 38. oidb = u64_bytes r) \<and> (ds, oidb) \<notin> key V ` Q \<longrightarrow>
             store_inv E items capacity contents area room T (V(p := (ds, oidb, bs))) (insert p Q) N s')
       else store_inv E items capacity contents area room T V Q N s')"
proof -
  have env: "manager_env E items capacity contents" and cok: "cache_ok E items capacity N s"
    using assms(1,2) by (simp_all add: cache_space_def store_inv_def)
  obtain z where run: "allocate_generic_unique_ptr_nb E p ds item oid s = Some z"
    using manager_env.create_returns [OF env cok assms(3,8)] by blast
  obtain ok s' where z: "z = Inr (ok, s')"
      and res: "if ok then \<exists>oidb bs. id_from E oid (total_size E item (id_len_of E oid)) oidb s s'
           \<and> value_of E contents s' p = Some (ds, oidb, bs) \<and> length bs = unat item
           \<and> ((\<exists>r < 2 ^ 38. oidb = u64_bytes r) \<and> (ds, oidb) \<notin> key V ` Q \<longrightarrow>
             store_inv E items capacity contents area room T (V(p := (ds, oidb, bs))) (insert p Q) N s')
       else far_mem_region_manager s' = far_mem_region_manager s \<and> store_inv E items capacity contents area room T V Q N s'"
    using cache_space.create_store [OF assms(1-7) run] by (elim exE conjE) (rule that, assumption+)
  show ?thesis
  proof (cases ok)
    case True
    then show ?thesis using run z res id_from_given by (intro exI [of _ True] exI [of _ s']) (simp, blast)
  next
    case False
    then show ?thesis using run z res by (intro exI [of _ False] exI [of _ s']) simp
  qed
qed

text \<open>
  C8 (resizing keeps every other object): resizing a present pointer returns. On success the
  pointer's object has the bytes of the buffer as data; its id is the old one, or a far
  address for a plain pointer, and where that is not in use the store holds the new object
  and all others as they were, the old one being gone. On failure nothing has changed.
\<close>

theorem resize_keeps_objects:
  fixes buf :: "u8 list"
  assumes "resize_env E items capacity contents area room T" and "store_inv E items capacity contents area room T V Q N s"
    and "p \<in> Q" and "present E s p" and "deref_fn E p s = Some (Inr s)" and "far_ok E items capacity M s"
    and "kVanillaPtrObjectIDSize E = 8" and "ob_kHeaderSize (Ob E) + unat item + 8 < 2 ^ 16" and "unat item \<le> length buf"
    and "fst (V p) \<noteq> kVanillaPtrDSID E \<or> (\<exists>x xs. items (free_regions (far_mem_region_manager s)) = x # xs
      \<and> (\<forall>h. fst (rg_allocate_object (Rg E) (total_size E item 8) x h) \<noteq> None))"
  shows "\<exists>ok s'. reallocate_generic_unique_ptr_nb E p item buf s = Some (Inr (ok, s'))
    \<and> (if ok then \<exists>oidb. (if fst (V p) = kVanillaPtrDSID E then \<exists>r. oidb = u64_bytes r else oidb = fst (snd (V p)))
           \<and> ((fst (V p) = kVanillaPtrDSID E \<longrightarrow> (\<exists>r < 2 ^ 38. oidb = u64_bytes r) \<and> (fst (V p), oidb) \<notin> key V ` (Q - {p})) \<longrightarrow>
             store_inv E items capacity contents area room T (V(p := (fst (V p), oidb, take (unat item) buf))) Q N s')
       else store_inv E items capacity contents area room T V Q N s')"
proof -
  obtain z where run: "reallocate_generic_unique_ptr_nb E p item buf s = Some z"
    using resize_env.resize_returns [OF assms(1-6,10)] by blast
  let ?src = "if fst (V p) = kVanillaPtrDSID E then None else Some (fst (snd (V p)))"
  have given: "if fst (V p) = kVanillaPtrDSID E then \<exists>r. oidb = u64_bytes r else oidb = fst (snd (V p))"
    if "id_from E ?src sz oidb s s'" for sz oidb s'
    using id_from_given [OF that] by (simp add: id_given_def split: if_splits)
  obtain ok s' where z: "z = Inr (ok, s')"
      and res: "if ok then \<exists>oidb. id_from E ?src (total_size E item 8) oidb s s'
           \<and> ((fst (V p) = kVanillaPtrDSID E \<longrightarrow> (\<exists>r < 2 ^ 38. oidb = u64_bytes r) \<and> (fst (V p), oidb) \<notin> key V ` (Q - {p})) \<longrightarrow>
             store_inv E items capacity contents area room T (V(p := (fst (V p), oidb, take (unat item) buf))) Q N s' \<and> resize_step E p s s')
       else far_mem_region_manager s' = far_mem_region_manager s \<and> store_inv E items capacity contents area room T V Q N s' \<and> nothing_drawn E s s' \<and> metas s' = metas s"
    using resize_env.resize_store [OF assms(1-9) run] by (elim exE conjE) (rule that, assumption+)
  show ?thesis
  proof (cases ok)
    case True
    then show ?thesis using run z res given by (intro exI [of _ True] exI [of _ s']) (simp only: if_True, blast)
  next
    case False
    then show ?thesis using run z res by (intro exI [of _ False] exI [of _ s']) simp
  qed
qed

section \<open>Instances\<close>

interpretation demo_resize: resize_env demo_ext ring_items ring_cap "\<lambda>d. d" layout_area layout_room demo_territory
proof (intro resize_env.intro resize_env_axioms.intro)
  show "cache_space demo_ext ring_items ring_cap (\<lambda>d. d) layout_area layout_room demo_territory"
    by (rule demo_space.cache_space_axioms)
  show "ob_free (Ob demo_ext) a h x = h x" if "outside a (ob_kHeaderSize (Ob demo_ext)) x" for a h x
    using that by (simp add: byte_objects_def bo_header_def wr_bytes_def outside_def)
qed

lemma demo_absent_inv:
  "store_inv demo_ext ring_items ring_cap (\<lambda>d. d) layout_area layout_room demo_territory (\<lambda>_. (5, u64_bytes 9, [1, 2, 3])) {64} 50 demo_absent"
proof -
  have ab: "\<not> present demo_ext demo_absent 64" by (simp add: present_def demo_absent_meta)
  then have live: "live_bytes demo_ext {64} demo_absent = {}" by (simp add: live_bytes_def)
  have val: "value_of demo_ext (\<lambda>d. d) demo_absent 64 = Some (5, u64_bytes 9, [1, 2, 3])"
    by (simp add: value_of_def demo_absent_meta)
  have ids: "region_ids layout_regions ring_items (demo_rm [demo_region 0] [demo_region 1] [demo_region 2]) = {#0, 1, 2#}"
    by (simp add: region_ids_split valid_ids_default) (simp add: demo_rm_def demo_queue_items kInvalidIdx_def)
  have "r = demo_region 0 \<or> r = demo_region 1 \<or> r = demo_region 2"
    if "\<not> rg_is_invalid layout_regions r" "r \<in># owned_regions ring_items (demo_rm [demo_region 0] [demo_region 1] [demo_region 2])" for r
    using that by (auto simp: owned_regions_def core_regions_def demo_rm_def demo_queue_items)
  moreover have "spaced layout_area layout_room demo_territory {} (demo_region i)" if "i < 2 ^ 20" for i
    using demo_area [of i "demo_region i"] that by (simp add: spaced_def)
  ultimately have "space_ok layout_regions ring_items layout_area layout_room demo_territory {} (demo_rm [demo_region 0] [demo_region 1] [demo_region 2])"
    unfolding space_ok_def all_valid_def ids by fastforce
  moreover have "calm demo_absent" by (simp add: calm_def demo_absent_def)
  ultimately show ?thesis
    using demo_absent_ok(1,3) val live ab by (simp add: store_inv_def in_use_def stored_def apart_def)
qed

theorem fetch_keeps_objects_witness:
  "\<exists>s'. swap_in demo_ext False 64 demo_absent = Some (Inr s') \<and> present demo_ext s' 64
    \<and> value_of demo_ext (\<lambda>d. d) s' 64 = Some (5, u64_bytes 9, [1, 2, 3])"
proof -
  have "\<not> present demo_ext demo_absent 64" by (simp add: present_def demo_absent_meta)
  from fetch_keeps_objects [OF demo_space.cache_space_axioms demo_absent_inv _ this] demo_room [of 23]
  show ?thesis by (simp add: demo_absent_meta) blast
qed

lemma demo_full_far: "far_ok demo_ext ring_items ring_cap 50 demo_full"
proof -
  have "far_mem_region_manager demo_full = demo_rm [far_region 0] [] []"
    by (simp add: demo_full_def demo_owned_def demo_present_def)
  then show ?thesis using demo_far_ok(1) [of "[]"] by (simp add: far_ok_def)
qed

theorem creation_keeps_objects_witness:
  "\<exists>ok s'. allocate_generic_unique_ptr_nb demo_ext 128 5 4 (Some (u64_bytes 7)) demo_full = Some (Inr (ok, s'))
    \<and> value_of demo_ext (\<lambda>d. d) s' 64 = Some (5, u64_bytes 9, [1, 2, 3])"
proof -
  have fresh: "u64_bytes 7 \<noteq> u64_bytes 9" by simp
  have id: "\<exists>r < 2 ^ 38. u64_bytes 7 = u64_bytes r" by (intro exI [of _ 7]) simp
  have kept: "value_of demo_ext (\<lambda>d. d) s' 64 = Some (V 64)"
    if "store_inv demo_ext ring_items ring_cap (\<lambda>d. d) layout_area layout_room demo_territory V Q 50 s'" "64 \<in> Q" for V Q s'
    using that by (simp add: store_inv_def in_use_def stored_def)
  obtain ok s' where run: "allocate_generic_unique_ptr_nb demo_ext 128 5 4 (Some (u64_bytes 7)) demo_full = Some (Inr (ok, s'))"
      and res: "if ok then \<exists>oidb bs. value_of demo_ext (\<lambda>d. d) s' 128 = Some (5, oidb, bs) \<and> length bs = unat (4 :: u16) \<and> id_given (Some (u64_bytes 7)) oidb
           \<and> ((\<exists>r < 2 ^ 38. oidb = u64_bytes r) \<and> (5, oidb) \<notin> key (\<lambda>_. (5, u64_bytes 9, [1, 2, 3])) ` {64} \<longrightarrow>
             store_inv demo_ext ring_items ring_cap (\<lambda>d. d) layout_area layout_room demo_territory
               ((\<lambda>_. (5, u64_bytes 9, [1, 2, 3]))(128 := (5, oidb, bs))) {128, 64} 50 s')
       else store_inv demo_ext ring_items ring_cap (\<lambda>d. d) layout_area layout_room demo_territory (\<lambda>_. (5, u64_bytes 9, [1, 2, 3])) {64} 50 s'"
    using creation_keeps_objects [OF demo_space.cache_space_axioms demo_full_inv demo_full_far, of 128 4 "Some (u64_bytes 7)" 5]
    by (simp add: id_len_of_def del: if_split) (elim exE conjE, rule that, assumption+)
  show ?thesis
  proof (cases ok)
    case True
    then obtain bs where "store_inv demo_ext ring_items ring_cap (\<lambda>d. d) layout_area layout_room demo_territory
        ((\<lambda>_. (5, u64_bytes 9, [1, 2, 3]))(128 := (5, u64_bytes 7, bs))) {128, 64} 50 s'"
      using res id fresh by (auto simp: id_given_def key_def)
    from kept [OF this] show ?thesis using run by auto
  next
    case False
    then show ?thesis using kept [of "\<lambda>_. (5, u64_bytes 9, [1, 2, 3])" "{64}" s'] run res by auto
  qed
qed

theorem resize_keeps_objects_witness:
  "\<exists>ok s'. reallocate_generic_unique_ptr_nb demo_ext 64 5 [1, 2, 3, 4, 5] demo_full = Some (Inr (ok, s'))
    \<and> value_of demo_ext (\<lambda>d. d) s' 64 = Some (5, u64_bytes 9, if ok then [1, 2, 3, 4, 5] else [1, 2, 3])"
proof -
  have "deref_fn demo_ext 64 demo_full = Some (Inr demo_full)" by (simp add: demo_ext_def)
  from resize_keeps_objects [OF demo_resize.resize_env_axioms demo_full_inv _ demo_full_object(1) this demo_full_far, of 5 "[1, 2, 3, 4, 5]"]
  show ?thesis by (auto simp: store_inv_def in_use_def stored_def split: if_splits)
qed

end
