(* ===== verification/Fm_Chains.thy ===== *)
theory Fm_Chains
  imports Fm_Mutators
begin

text \<open>
  What the collector needs of a region it picks: that the objects in it can be walked from one
  to the next. A ghost account gives each region of the cache the list of the objects laid out in
  it, freed ones included; every operation keeps the account, and so every region can be
  collected.
\<close>

section \<open>Objects laid out in a region\<close>

text \<open>An object as the account has it: its address and size, and the bytes it takes.\<close>

definition chunk :: "addr \<times> u16 \<Rightarrow> addr set" where
  "chunk x = addr_range (fst x) (unat (snd x))"

text \<open>
  The objects of a task of the collector, whatever the memory holds: each begins where the one
  before it ends, and the last one ends at the boundary.
\<close>

fun sized_chain :: "('q, 'd) gc_ext \<Rightarrow> ('q, 'd) ext \<Rightarrow> addr \<Rightarrow> addr \<Rightarrow> (addr \<times> u16) list \<Rightarrow> bool" where
  "sized_chain G E right cur [] \<longleftrightarrow> cur = right \<and> \<not> cur + of_nat (ob_kHeaderSize (Ob E)) < right"
| "sized_chain G E right cur (x # xs) \<longleftrightarrow> fst x = cur \<and> cur + of_nat (ob_kHeaderSize (Ob E)) < right
     \<and> sized_chain G E right (cur + align_to G (ucast (snd x)) (of_nat 8)) xs"

definition laid_out :: "('q, 'd) gc_ext \<Rightarrow> ('q, 'd) ext \<Rightarrow> Region \<Rightarrow> (addr \<times> u16) list \<Rightarrow> bool" where
  "laid_out G E r xs \<longleftrightarrow> (\<exists>xss. concat xss = xs \<and> list_all2 (\<lambda>t. sized_chain G E (snd t) (fst t)) (master_fn (Rg E) [r]) xss)"

definition laid :: "('q, 'd) gc_ext \<Rightarrow> ('q, 'd) ext \<Rightarrow> (Region \<Rightarrow> addr set) \<Rightarrow> (u32 \<Rightarrow> (addr \<times> u16) list) \<Rightarrow> Region \<Rightarrow> bool" where
  "laid G E area Ch r \<longleftrightarrow> laid_out G E r (Ch (region_idx r)) \<and> (\<forall>x \<in> set (Ch (region_idx r)). chunk x \<subseteq> area r)"

text \<open>All objects of the regions with the given numbers.\<close>

definition laid_objects :: "(u32 \<Rightarrow> (addr \<times> u16) list) \<Rightarrow> u32 multiset \<Rightarrow> (addr \<times> u16) set" where
  "laid_objects Ch ids = (\<Union>i \<in> set_mset ids. set (Ch i))"

text \<open>The account after an allocation in region \<open>i\<close>.\<close>

definition extended :: "(u32 \<Rightarrow> (addr \<times> u16) list) \<Rightarrow> u32 multiset \<Rightarrow> u16 \<Rightarrow> addr option \<Rightarrow> (u32 \<Rightarrow> (addr \<times> u16) list) \<Rightarrow> bool" where
  "extended Ch ids sz res Ch' \<longleftrightarrow> (case res of None \<Rightarrow> Ch' = Ch | Some a \<Rightarrow> \<exists>i \<in># ids. Ch' = Ch(i := Ch i @ [(a, sz)]))"

text \<open>
  Regions keep the account: an object allocated goes behind the others, a failed allocation and the
  non-temporal flag leave them where they are, and a region made or reset is empty. A freed object stays
  where it is until its region is collected.
\<close>

locale chain_env = object_store E items capacity contents area room T G + resize_env E items capacity contents area room T
  for E :: "('q, 'd) ext" and items capacity contents area room T G +
  assumes alloc_laid: "laid_out G E r xs \<Longrightarrow> rg_allocate_object (Rg E) sz r h = (Some a, r', h') \<Longrightarrow>
      ob_kHeaderSize (Ob E) < unat sz \<Longrightarrow> laid_out G E r' (xs @ [(a, sz)])"
    and full_laid: "laid_out G E r xs \<Longrightarrow> rg_allocate_object (Rg E) sz r h = (None, r', h') \<Longrightarrow> laid_out G E r' xs"
    and set_nt_laid: "laid_out G E (fst (rg_set_nt (Rg E) r h)) xs = laid_out G E r xs"
    and reset_laid: "laid_out G E (fst (rg_reset (Rg E) r h)) []"
    and make_laid: "laid_out G E (fst (rg_make (Rg E) i l nt b h)) []"
    and freed_object: "obj_ok (Ob E) h a \<Longrightarrow> obj_ok (Ob E) (ob_free (Ob E) a h) a
      \<and> ob_size (Ob E) (ob_free (Ob E) a h) a = ob_size (Ob E) h a \<and> ob_is_freed (Ob E) (ob_free (Ob E) a h) a"
begin

abbreviation regions_laid :: "(u32 \<Rightarrow> (addr \<times> u16) list) \<Rightarrow> ('q, 'd) fm_state \<Rightarrow> bool" where
  "regions_laid Ch s \<equiv> all_valid (Rg E) items (laid G E area Ch) (cache_region_manager s)"

lemma slot_laid:
  assumes al: "rg_allocate_object (Rg E) sz (get_slot m sl) h = (res, r, h')" and sl: "slot_core sl < kNumCPUs"
    and one: "\<And>i. count (region_ids (Rg E) items m) i \<le> 1" and all: "all_valid (Rg E) items (laid G E area Ch) m"
    and sz: "\<And>a. res = Some a \<Longrightarrow> ob_kHeaderSize (Ob E) < unat sz"
  shows "\<exists>Ch'. extended Ch (region_ids (Rg E) items m) sz res Ch' \<and> all_valid (Rg E) items (laid G E area Ch') (set_slot m sl r)"
proof -
  let ?r = "get_slot m sl" let ?i = "region_idx ?r"
  obtain M where M: "owned_regions items m = add_mset ?r M" "owned_regions items (set_slot m sl r) = add_mset r M"
    using owned_set_slot [OF sl] by metis
  have idx: "region_idx r = ?i" by (rule alloc_idx [OF al])
  have old: "laid G E area Ch x" if "x \<in># add_mset ?r M" "\<not> rg_is_invalid (Rg E) x" for x
    using all that M(1) by (auto simp: all_valid_def)
  show ?thesis
  proof (cases res)
    case None
    have "laid G E area Ch r" if "\<not> rg_is_invalid (Rg E) r"
    proof -
      have "laid G E area Ch ?r" using old [of ?r] that idx by (simp add: invalid_iff)
      then show ?thesis using full_laid [OF _ al [unfolded None]] alloc_full [OF al [unfolded None]] idx by (simp add: laid_def)
    qed
    then have "all_valid (Rg E) items (laid G E area Ch) (set_slot m sl r)" using old M(2) by (auto simp: all_valid_def)
    then show ?thesis using None by (auto simp: extended_def)
  next
    case (Some a)
    let ?Ch = "Ch(?i := Ch ?i @ [(a, sz)])"
    have v: "\<not> rg_is_invalid (Rg E) ?r" using al Some alloc_invalid by (metis option.distinct(1) prod.inject)
    have r0: "laid G E area Ch ?r" using old v by simp
    have mem: "?i \<in># region_ids (Rg E) items m" unfolding region_ids_def M using v by simp
    have other: "region_idx x \<noteq> ?i" if "x \<in># M" "\<not> rg_is_invalid (Rg E) x" for x
    proof
      assume e: "region_idx x = ?i"
      have "region_idx x \<in># valid_ids (Rg E) M" using that by (auto simp: valid_ids_def)
      then have "2 \<le> count (region_ids (Rg E) items m) ?i"
        unfolding region_ids_def M using v e by (simp add: count_greater_zero_iff Suc_le_eq)
      then show False using one [of ?i] by linarith
    qed
    have "laid G E area ?Ch x" if "x \<in># M" "\<not> rg_is_invalid (Rg E) x" for x
      using old [of x] that other [OF that] by (simp add: laid_def)
    moreover have "laid G E area ?Ch r"
      using r0 alloc_laid [OF _ al [unfolded Some] sz [OF Some]] alloc_room [OF al [unfolded Some]] room_area [of ?r] idx
      by (auto simp: laid_def chunk_def)
    ultimately have "all_valid (Rg E) items (laid G E area ?Ch) (set_slot m sl r)" using M(2) by (auto simp: all_valid_def)
    then show ?thesis using Some mem by (auto simp: extended_def)
  qed
qed

lemma try_local_laid:
  assumes run: "try_local E nt sz s = (res, s')" and ok: "cache_ok E items capacity N s"
    and one: "\<And>i. count (region_ids (Rg E) items (cache_region_manager s)) i \<le> 1" and all: "regions_laid Ch s"
    and sz: "\<And>a. res = Some a \<Longrightarrow> ob_kHeaderSize (Ob E) < unat sz"
  shows "\<exists>Ch'. extended Ch (region_ids (Rg E) items (cache_region_manager s)) sz res Ch' \<and> regions_laid Ch' s'"
proof -
  let ?m = "cache_region_manager s" and ?sl = "cur_slot s nt"
  have sl: "slot_core ?sl < kNumCPUs" using ok by (simp add: cache_ok_def)
  obtain r h where al: "rg_allocate_object (Rg E) sz (get_slot ?m ?sl) (heap s) = (res, r, h)"
      and m': "cache_region_manager s' = set_slot ?m ?sl r"
    using run by (auto simp: try_local_def Let_def split: prod.splits)
  show ?thesis unfolding m' by (rule slot_laid [OF al sl one all sz])
qed

lemma refill_local_laid:
  assumes run: "refill_local E nt s = Inr (ok, s')" and cok: "cache_ok E items capacity N s" and all: "regions_laid Ch s"
  shows "regions_laid Ch s'"
proof -
  obtain h m where r: "try_refill_core_local_free_region (Rg E) (Cb E) (cur_slot s) nt (Some (cur_slot s nt)) (heap s) (cache_region_manager s)
      = Inr (ok, h, m)" "cache_region_manager s' = m"
    using run by (auto simp: refill_local_def split: sum.splits prod.splits)
  show ?thesis unfolding r(2)
  proof (rule refill_all_valid [OF _ all _ _ r(1)])
    show "laid G E area Ch (fst (rg_set_nt (Rg E) q h))" if "laid G E area Ch q" for q h
      using that set_nt_laid set_nt_room [of q h] set_nt_idx [of q h] by (simp add: laid_def)
  qed (use cok in \<open>auto simp: cache_ok_def\<close>)
qed

lemma retry_nb_laid:
  assumes run: "retry_allocate_local_nb E nt sz b0 s = Some (Inr (res, b', s'))"
    and ok: "cache_ok E items capacity N s" and sp: "space X s" and all: "regions_laid Ch s"
    and sz: "\<And>a. res = Some a \<Longrightarrow> ob_kHeaderSize (Ob E) < unat sz"
  shows "\<exists>Ch'. extended Ch (region_ids (Rg E) items (cache_region_manager s)) sz res Ch' \<and> regions_laid Ch' s'"
proof -
  have "E' = E \<longrightarrow> cache_ok E items capacity N s \<longrightarrow> space X s \<longrightarrow> regions_laid Ch s \<longrightarrow>
      (\<forall>res b' s'. y = Inr (res, b', s') \<longrightarrow> (res \<noteq> None \<longrightarrow> ob_kHeaderSize (Ob E) < unat sz) \<longrightarrow>
        (\<exists>Ch'. extended Ch (region_ids (Rg E) items (cache_region_manager s)) sz res Ch' \<and> regions_laid Ch' s'))"
    if "retry_allocate_local_nb E' nt sz b0 s = Some y" for E' y
  proof (rule retry_allocate_local_nb.raw_induct [OF _ that], goal_cases)
    case (1 f E' nt sz b0 s y)
    show ?case
    proof (intro impI allI)
      fix res b' s'
      assume E: "E' = E" and ok: "cache_ok E items capacity N s" and sp: "space X s" and all: "regions_laid Ch s"
        and y: "y = Inr (res, b', s')" and sz: "res \<noteq> None \<longrightarrow> ob_kHeaderSize (Ob E) < unat sz"
      obtain res1 s1 where one: "try_local E nt sz s = (res1, s1)" by fastforce
      note t = try_local_space [OF one ok sp] and st = try_local_spec [OF one ok]
      have uniq: "\<And>i. count (region_ids (Rg E) items (cache_region_manager s)) i \<le> 1" using sp by (simp add: space_ok_def)
      note tl = try_local_laid [OF one ok uniq all]
      have ids1: "region_ids (Rg E) items (cache_region_manager s1) = region_ids (Rg E) items (cache_region_manager s)"
        using st(1) by (auto simp: cache_step_def)
      show "\<exists>Ch'. extended Ch (region_ids (Rg E) items (cache_region_manager s)) sz res Ch' \<and> regions_laid Ch' s'"
      proof (cases res1)
        case (Some a)
        then have "res = res1" "s' = s1" using 1(2) one E y by simp_all
        then show ?thesis using tl sz Some by simp
      next
        case None
        have sp1: "space X s1" using t None by (simp add: taken_def)
        have all1: "regions_laid Ch s1" using tl None by (auto simp: extended_def)
        have ok1: "cache_ok E items capacity N s1" using st(1) ok by (rule cache_step_ok)
        obtain b s2 where two: "refill_local E nt s1 = Inr (b, s2)" using refill_local_spec [OF ok1, of nt] by blast
        note r = refill_local_space [OF two ok1 sp1] and all2 = refill_local_laid [OF two ok1 all1]
        show ?thesis
        proof (cases b)
          case False
          then have "res = None" "s' = s2" using 1(2) one None two E y by simp_all
          then show ?thesis using all2 by (auto simp: extended_def)
        next
          case True
          then have "f E nt sz True s2 = Some y" using 1(2) one None two E by simp
          from 1(1) [OF this] r y ids1 all2 sz show ?thesis by simp
        qed
      qed
    qed
  qed
  then show ?thesis using assms by blast
qed

lemma allocate_nb_laid:
  assumes run: "allocate_local_object_nb E nt sz s = Some (Inr (res, s'))"
    and ok: "cache_ok E items capacity N s" and sp: "space X s" and all: "regions_laid Ch s"
    and sz: "\<And>a. res = Some a \<Longrightarrow> ob_kHeaderSize (Ob E) < unat sz"
  shows "\<exists>Ch'. extended Ch (region_ids (Rg E) items (cache_region_manager s)) sz res Ch' \<and> regions_laid Ch' s'"
proof -
  have pd: "cache_region_manager (preempt_disable s) = cache_region_manager s" "cache_ok E items capacity N (preempt_disable s)"
    using ok by (simp_all add: preempt_disable_def cache_ok_def)
  obtain b0 s1 where r: "retry_allocate_local_nb E nt sz False (preempt_disable s) = Some (Inr (res, b0, s1))"
      and s': "s' = leave_allocation E b0 s1"
    using run by (auto simp: allocate_local_object_nb_def and_then_Some_Inr)
  obtain b c where g: "gc_check E s1 = s1\<lparr>almost_empty := b, gc_master_spawned := c\<rparr>" by (rule gc_check_obtain)
  have m: "cache_region_manager s' = cache_region_manager s1" by (simp add: s' leave_allocation_def g preempt_enable_def)
  show ?thesis unfolding m using retry_nb_laid [OF r pd(2), of X Ch] sp all pd(1) sz by simp
qed

end

section \<open>The account\<close>

text \<open>
  An object of the account as the memory holds it: whole, of the size the account gives it, and, unless
  it has been freed, the object its owner points to.
\<close>

definition kept_object :: "('q, 'd) ext \<Rightarrow> addr set \<Rightarrow> ('q, 'd) fm_state \<Rightarrow> addr \<times> u16 \<Rightarrow> bool" where
  "kept_object E Q s x \<longleftrightarrow> obj_ok (Ob E) (heap s) (fst x) \<and> ob_size (Ob E) (heap s) (fst x) = snd x
     \<and> placed (fst x) (unat (snd x)) \<and> ob_kHeaderSize (Ob E) < unat (snd x)
     \<and> (\<not> ob_is_freed (Ob E) (heap s) (fst x) \<longrightarrow> ob_get_ptr_addr (Ob E) (heap s) (fst x) \<in> Q
          \<and> present E s (ob_get_ptr_addr (Ob E) (heap s) (fst x)) \<and> obj_at E s (ob_get_ptr_addr (Ob E) (heap s) (fst x)) = fst x)"

text \<open>
  Every present pointer has its object in the account, or in the bytes \<open>F\<close> that a running collection
  is emptying.
\<close>

definition accounted :: "('q, 'd) ext \<Rightarrow> (addr \<times> u16) set \<Rightarrow> addr set \<Rightarrow> addr set \<Rightarrow> ('q, 'd) fm_state \<Rightarrow> bool" where
  "accounted E objs F Q s \<longleftrightarrow> (\<forall>q \<in> Q. present E s q \<longrightarrow>
     (\<exists>x \<in> objs. fst x = obj_at E s q \<and> \<not> ob_is_freed (Ob E) (heap s) (fst x)) \<or> obj_at E s q \<in> F)"

abbreviation disjoint_chunks :: "(addr \<times> u16) list \<Rightarrow> bool" where
  "disjoint_chunks \<equiv> sorted_wrt (\<lambda>x y. chunk x \<inter> chunk y = {})"

definition chained :: "('q, 'd) gc_ext \<Rightarrow> ('q, 'd) ext \<Rightarrow> ('q \<Rightarrow> Region list) \<Rightarrow> (Region \<Rightarrow> addr set) \<Rightarrow> (Region \<Rightarrow> addr set) \<Rightarrow>
   (u32 \<Rightarrow> addr set) \<Rightarrow> (u32 \<Rightarrow> (addr \<times> u16) list) \<Rightarrow> addr set \<Rightarrow> addr set \<Rightarrow> ('q, 'd) fm_state \<Rightarrow> bool" where
  "chained G E items area room T Ch F Q s \<longleftrightarrow>
     (let objs = laid_objects Ch (region_ids (Rg E) items (cache_region_manager s)) in
      all_valid (Rg E) items (laid G E area Ch) (cache_region_manager s)
      \<and> space_ok (Rg E) items area room T (\<Union> (chunk ` objs)) (cache_region_manager s)
      \<and> (\<forall>i \<in># region_ids (Rg E) items (cache_region_manager s). disjoint_chunks (Ch i))
      \<and> 0 \<notin> Q \<and> (\<forall>x \<in> objs. kept_object E Q s x) \<and> accounted E objs F Q s)"

lemma chunk_nonempty: "0 < unat (snd x) \<Longrightarrow> fst x \<in> chunk x"
  by (simp add: chunk_def addr_range_at)

lemma laid_objects_extended:
  assumes "extended Ch ids sz (Some a) Ch'"
  shows "laid_objects Ch' ids = insert (a, sz) (laid_objects Ch ids)"
proof -
  obtain i where i: "i \<in># ids" "Ch' = Ch(i := Ch i @ [(a, sz)])" using assms by (auto simp: extended_def)
  then have "set (Ch' j) = (if j = i then insert (a, sz) (set (Ch j)) else set (Ch j))" for j by simp
  then show ?thesis using i(1) by (auto simp: laid_objects_def split: if_splits)
qed

lemma apart_lists:
  assumes "disjoint_chunks xs" and "x \<in> set xs" "y \<in> set xs" "x \<noteq> y"
  shows "chunk x \<inter> chunk y = {}"
proof -
  obtain i j where ij: "i < length xs" "j < length xs" "xs ! i = x" "xs ! j = y" using assms(2,3) by (metis in_set_conv_nth)
  then consider "i < j" | "j < i" using assms(4) by (metis linorder_less_linear)
  then show ?thesis using assms(1) ij by cases (auto simp: sorted_wrt_iff_nth_less Int_commute)
qed

context chain_env
begin

abbreviation ids :: "('q, 'd) fm_state \<Rightarrow> u32 multiset" where
  "ids s \<equiv> region_ids (Rg E) items (cache_region_manager s)"

abbreviation chains :: "(u32 \<Rightarrow> (addr \<times> u16) list) \<Rightarrow> addr set \<Rightarrow> addr set \<Rightarrow> ('q, 'd) fm_state \<Rightarrow> bool" where
  "chains \<equiv> chained G E items area room T"

lemma chainsD:
  assumes "chains Ch F Q s"
  shows "regions_laid Ch s" "space (\<Union> (chunk ` laid_objects Ch (ids s))) s" "i \<in># ids s \<Longrightarrow> disjoint_chunks (Ch i)" "0 \<notin> Q"
    "x \<in> laid_objects Ch (ids s) \<Longrightarrow> kept_object E Q s x" "accounted E (laid_objects Ch (ids s)) F Q s"
  using assms by (auto simp: chained_def Let_def)

lemma region_with_id:
  assumes "i \<in># ids s"
  obtains r where "r \<in># owned_regions items (cache_region_manager s)" "\<not> rg_is_invalid (Rg E) r" "region_idx r = i"
  using assms by (auto simp: region_ids_def valid_ids_def)

text \<open>Objects of the account lie in their region's territory, and no two overlap.\<close>

lemma chunk_territory:
  assumes ch: "chains Ch F Q s" and i: "i \<in># ids s" "x \<in> set (Ch i)"
  shows "chunk x \<subseteq> T i"
proof -
  obtain r where r: "r \<in># owned_regions items (cache_region_manager s)" "\<not> rg_is_invalid (Rg E) r" "region_idx r = i"
    using region_with_id [OF i(1)] .
  have "laid G E area Ch r" "spaced area room T (\<Union> (chunk ` laid_objects Ch (ids s))) r"
    using chainsD(1,2) [OF ch] r by (auto simp: all_valid_def space_ok_def)
  then show ?thesis using r(3) i(2) by (auto simp: laid_def spaced_def)
qed

lemma chunks_apart:
  assumes ch: "chains Ch F Q s" and x: "x \<in> laid_objects Ch (ids s)" "y \<in> laid_objects Ch (ids s)" "x \<noteq> y"
  shows "chunk x \<inter> chunk y = {}"
proof -
  obtain i j where ij: "i \<in># ids s" "x \<in> set (Ch i)" "j \<in># ids s" "y \<in> set (Ch j)" using x by (auto simp: laid_objects_def)
  show ?thesis
  proof (cases "i = j")
    case True
    then show ?thesis using apart_lists [OF chainsD(3) [OF ch ij(1)] ij(2)] ij(4) x(3) by simp
  next
    case False
    then show ?thesis using chunk_territory [OF ch ij(1,2)] chunk_territory [OF ch ij(3,4)] territories [OF False] by blast
  qed
qed

lemma object_chunk: "kept_object E Q s x \<Longrightarrow> bytes_of E (heap s) (fst x) = chunk x"
  by (simp add: kept_object_def bytes_of_def chunk_def)

lemma kept_body: "kept_object E Q s x \<Longrightarrow> y \<in> chunk x \<Longrightarrow> body y"
  using bytes_body [of "fst x" E "heap s" y] object_chunk [of Q s x] by (simp add: kept_object_def)

text \<open>An object whose bytes stay keeps its size, its owner and whether it is freed.\<close>

lemma object_same:
  assumes "kept_object E Q s x" and "\<And>y. body y \<Longrightarrow> y \<in> chunk x \<Longrightarrow> h y = heap s y"
  shows "obj_ok (Ob E) h (fst x)" "ob_size (Ob E) h (fst x) = snd x" "ob_is_freed (Ob E) h (fst x) = ob_is_freed (Ob E) (heap s) (fst x)"
    "ob_get_ptr_addr (Ob E) h (fst x) = ob_get_ptr_addr (Ob E) (heap s) (fst x)"
proof -
  have w: "whole_object E (chunk x) (heap s) (fst x)" using assms(1) object_chunk [OF assms(1)] by (simp add: whole_object_def kept_object_def)
  have same: "\<forall>y \<in> chunk x. body y \<longrightarrow> h y = heap s y" using assms(2) by blast
  note o = same_object [OF w same]
  show "obj_ok (Ob E) h (fst x)" by (rule o(4))
  show "ob_size (Ob E) h (fst x) = snd x" using o(2) assms(1) by (simp add: kept_object_def)
  show "ob_is_freed (Ob E) h (fst x) = ob_is_freed (Ob E) (heap s) (fst x)" by (rule o(1))
  show "ob_get_ptr_addr (Ob E) h (fst x) = ob_get_ptr_addr (Ob E) (heap s) (fst x)" by (rule o(3))
qed

lemma kept_frame:
  assumes k: "kept_object E Q s x" and h: "\<And>y. body y \<Longrightarrow> y \<in> chunk x \<Longrightarrow> heap s' y = heap s y" and Q: "Q \<subseteq> Q'"
    and own: "\<And>p. owned_by (Ob E) (heap s) (fst x) p \<Longrightarrow> p \<in> Q \<Longrightarrow> present E s p \<Longrightarrow> obj_at E s p = fst x \<Longrightarrow>
      present E s' p \<and> obj_at E s' p = fst x"
  shows "kept_object E Q' s' x"
proof -
  have o: "obj_ok (Ob E) (heap s') (fst x)" "ob_size (Ob E) (heap s') (fst x) = snd x"
      "ob_is_freed (Ob E) (heap s') (fst x) = ob_is_freed (Ob E) (heap s) (fst x)"
      "ob_get_ptr_addr (Ob E) (heap s') (fst x) = ob_get_ptr_addr (Ob E) (heap s) (fst x)"
    using object_same [OF k, of "heap s'"] h by blast+
  let ?p = "ob_get_ptr_addr (Ob E) (heap s) (fst x)"
  have "?p \<in> Q' \<and> present E s' ?p \<and> obj_at E s' ?p = fst x" if "\<not> ob_is_freed (Ob E) (heap s) (fst x)"
    using k own [of ?p] Q that unfolding kept_object_def owned_by_def by blast
  then show ?thesis using k o(1) unfolding kept_object_def o(2-4) by blast
qed

end

section \<open>Steps that keep the account\<close>

context chain_env
begin

lemma owner_kept: "kept_object E Q s x \<Longrightarrow> \<not> ob_is_freed (Ob E) (heap s) (fst x) \<Longrightarrow> owned_by (Ob E) (heap s) (fst x) p \<Longrightarrow>
    p \<in> Q \<and> present E s p \<and> obj_at E s p = fst x"
  by (auto simp: kept_object_def owned_by_def)

text \<open>Allocation: the object drawn goes behind the others of its region.\<close>

lemma chains_step:
  assumes ch: "chains Ch F Q s" and same: "ids s' = ids s" and ext: "extended Ch (ids s) n res Ch'" and laid: "regions_laid Ch' s'"
    and tk: "taken (\<Union> (chunk ` laid_objects Ch (ids s))) (ids s) n res (cache_region_manager s')"
    and old: "\<And>x. x \<in> laid_objects Ch (ids s) \<Longrightarrow> kept_object E Q' s' x" and new: "\<And>a. res = Some a \<Longrightarrow> kept_object E Q' s' (a, n)"
    and acc: "accounted E (laid_objects Ch' (ids s)) F Q' s'" and nz: "0 \<notin> Q'"
  shows "chains Ch' F Q' s'"
proof (cases res)
  case None
  then have "Ch' = Ch" using ext by (simp add: extended_def)
  then show ?thesis using chainsD(3) [OF ch] same laid tk old acc nz None by (simp add: chained_def Let_def taken_def)
next
  case (Some a)
  obtain i where i: "i \<in># ids s" "Ch' = Ch(i := Ch i @ [(a, n)])" using ext Some by (auto simp: extended_def)
  have objs: "laid_objects Ch' (ids s) = insert (a, n) (laid_objects Ch (ids s))" using laid_objects_extended ext Some by blast
  have off: "addr_range a (unat n) \<inter> chunk x = {}" if "x \<in> laid_objects Ch (ids s)" for x
    using tk Some that by (auto simp: taken_def)
  have "disjoint_chunks (Ch' j)" if j: "j \<in># ids s" for j
  proof (cases "j = i")
    case True
    have "\<forall>x \<in> set (Ch i). chunk x \<inter> chunk (a, n) = {}" using off i(1) by (fastforce simp: laid_objects_def chunk_def)
    then show ?thesis using chainsD(3) [OF ch i(1)] i(2) True by (simp add: sorted_wrt_append)
  qed (use chainsD(3) [OF ch j] i(2) in simp)
  moreover have "\<Union> (chunk ` insert (a, n) (laid_objects Ch (ids s))) = \<Union> (chunk ` laid_objects Ch (ids s)) \<union> addr_range a (unat n)"
    by (simp add: chunk_def Un_commute)
  ultimately show ?thesis using same laid tk old new [OF Some] acc nz Some unfolding chained_def Let_def same objs by (simp add: taken_def)
qed

lemma drawn_chains:
  assumes ch: "chains Ch F Q s" and ok: "cache_ok E items capacity N s"
    and al: "allocate_local_object_nb E False n s = Some (Inr (Some a, s1))" "cache_region_manager s' = cache_region_manager s1"
    and ms: "\<forall>q. q \<noteq> p \<longrightarrow> metas s' q = metas s q" and st: "settled E n a p s'" and p: "p \<noteq> 0"
    and h: "\<And>y. body y \<Longrightarrow> y \<notin> addr_range a (unat n) \<Longrightarrow> y \<notin> \<Union> (chunk ` D) \<Longrightarrow> heap s' y = heap s y"
    and D: "D \<subseteq> laid_objects Ch (ids s)" "\<And>x. x \<in> D \<Longrightarrow> kept_object E (insert p Q) s' x"
      "\<And>q x. q \<in> Q \<Longrightarrow> q \<noteq> p \<Longrightarrow> present E s q \<Longrightarrow> x \<in> D \<Longrightarrow> obj_at E s q \<noteq> fst x"
    and free: "\<And>x. x \<in> laid_objects Ch (ids s) \<Longrightarrow> x \<notin> D \<Longrightarrow> \<not> owned_by (Ob E) (heap s) (fst x) p"
  shows "\<exists>Ch'. chains Ch' F (insert p Q) s'"
proof -
  let ?objs = "laid_objects Ch (ids s)"
  have hn: "ob_kHeaderSize (Ob E) < unat n" using st by (simp add: settled_def)
  have fr: "alloc_frame E items capacity N s s1" using allocate_nb_spec [OF ok, of False n] al(1) by auto
  have same: "ids s' = ids s" using alloc_frame_fields(10) [OF fr] al(2) by simp
  obtain Ch' where e: "extended Ch (ids s) n (Some a) Ch'" "regions_laid Ch' s1"
    using allocate_nb_laid [OF al(1) ok chainsD(2,1) [OF ch] hn] by blast
  have tk: "taken (\<Union> (chunk ` ?objs)) (ids s) n (Some a) (cache_region_manager s')"
    using allocate_nb_space [OF al(1) ok chainsD(2) [OF ch]] al(2) by simp
  have objs: "laid_objects Ch' (ids s) = insert (a, n) ?objs" using laid_objects_extended [OF e(1)] .
  have off: "addr_range a (unat n) \<inter> chunk x = {}" if "x \<in> ?objs" for x using tk that by (auto simp: taken_def)
  have at: "heap s' y = heap s y" if "x \<in> ?objs" "x \<notin> D" "body y" "y \<in> chunk x" for x y
  proof -
    have "chunk x \<inter> chunk z = {}" if "z \<in> D" for z
      using chunks_apart [OF ch \<open>x \<in> ?objs\<close>, of z] that D(1) \<open>x \<notin> D\<close> by blast
    then show ?thesis using h [OF that(3)] off [OF that(1)] that(4) by blast
  qed
  have old: "kept_object E (insert p Q) s' x" if x: "x \<in> ?objs" for x
  proof (cases "x \<in> D")
    case False
    show ?thesis
    proof (rule kept_frame [OF chainsD(5) [OF ch x] at [OF x False]])
      fix q
      assume "owned_by (Ob E) (heap s) (fst x) q" "q \<in> Q" "present E s q" "obj_at E s q = fst x"
      moreover then have "q \<noteq> p" using free [OF x False] by blast
      ultimately show "present E s' q \<and> obj_at E s' q = fst x" using ms by (simp add: present_def obj_at_def)
    qed auto
  qed (rule D(2))
  have new: "kept_object E (insert p Q) s' (a, n)" using st p by (simp add: settled_def kept_object_def owned_by_def)
  have "accounted E (insert (a, n) ?objs) F (insert p Q) s'" unfolding accounted_def
  proof (intro ballI impI)
    fix q
    assume q: "q \<in> insert p Q" "present E s' q"
    show "(\<exists>x \<in> insert (a, n) ?objs. fst x = obj_at E s' q \<and> \<not> ob_is_freed (Ob E) (heap s') (fst x)) \<or> obj_at E s' q \<in> F"
    proof (cases "q = p")
      case True
      then show ?thesis using st p by (auto simp: settled_def owned_by_def)
    next
      case False
      have q': "q \<in> Q" "present E s q" "obj_at E s' q = obj_at E s q" using q False ms by (simp_all add: present_def obj_at_def)
      have "x \<notin> D" if "fst x = obj_at E s q" for x using D(3) [OF q'(1) False q'(2)] that by metis
      then have fz: "ob_is_freed (Ob E) (heap s') (fst x) = ob_is_freed (Ob E) (heap s) (fst x)" if "x \<in> ?objs" "fst x = obj_at E s q" for x
        using object_same(3) [OF chainsD(5) [OF ch that(1)] at [OF that(1)]] that(2) by blast
      have "(\<exists>x \<in> ?objs. fst x = obj_at E s q \<and> \<not> ob_is_freed (Ob E) (heap s) (fst x)) \<or> obj_at E s q \<in> F"
        using chainsD(6) [OF ch] q'(1,2) unfolding accounted_def by blast
      then show ?thesis using fz unfolding q'(3) by blast
    qed
  qed
  then have acc: "accounted E (laid_objects Ch' (ids s)) F (insert p Q) s'" unfolding objs .
  have "regions_laid Ch' s'" using e(2) al(2) by simp
  from chains_step [OF ch same e(1) this tk old _ acc] new chainsD(4) [OF ch] p show ?thesis by blast
qed

text \<open>Nothing drawn: free regions may have moved, and header bytes of regions changed.\<close>

lemma frame_chains:
  assumes ch: "chains Ch F Q s" and objs: "laid_objects Ch' (ids s') = laid_objects Ch (ids s)"
    and dis: "\<And>i. i \<in># ids s' \<Longrightarrow> disjoint_chunks (Ch' i)" and laid: "regions_laid Ch' s'"
    and sp: "space (\<Union> (chunk ` laid_objects Ch (ids s))) s'" and h: "only_headers (heap s) (heap s')"
    and ms: "\<And>q. q \<in> Q \<Longrightarrow> present E s' q \<Longrightarrow> metas s' q = metas s q"
    and own: "\<And>x q. x \<in> laid_objects Ch (ids s) \<Longrightarrow> owned_by (Ob E) (heap s) (fst x) q \<Longrightarrow> metas s' q = metas s q"
  shows "chains Ch' F Q s'"
proof -
  let ?objs = "laid_objects Ch (ids s)"
  have at: "heap s' y = heap s y" if "body y" for y using h that by (simp add: only_headers_def)
  have "kept_object E Q s' x" if x: "x \<in> ?objs" for x
    by (rule kept_frame [OF chainsD(5) [OF ch x] at]) (use own [OF x] in \<open>auto simp: present_def obj_at_def\<close>)
  moreover have "accounted E ?objs F Q s'" unfolding accounted_def
  proof (intro ballI impI)
    fix q
    assume q: "q \<in> Q" "present E s' q"
    then have q': "present E s q" "obj_at E s' q = obj_at E s q" using ms [OF q] by (simp_all add: present_def obj_at_def)
    have "ob_is_freed (Ob E) (heap s') (fst x) = ob_is_freed (Ob E) (heap s) (fst x)" if "x \<in> ?objs" for x
      by (rule object_same(3) [OF chainsD(5) [OF ch that] at])
    then show "(\<exists>x \<in> ?objs. fst x = obj_at E s' q \<and> \<not> ob_is_freed (Ob E) (heap s') (fst x)) \<or> obj_at E s' q \<in> F"
      using chainsD(6) [OF ch] q q' by (auto simp: accounted_def)
  qed
  ultimately show ?thesis unfolding chained_def Let_def objs using dis laid sp chainsD(4) [OF ch] by blast
qed

lemma headers_chains:
  assumes "chains Ch F Q s" and same: "ids s' = ids s" and "regions_laid Ch s'"
    and "space (\<Union> (chunk ` laid_objects Ch (ids s))) s'" and "only_headers (heap s) (heap s')"
    and "\<And>q. q \<in> Q \<Longrightarrow> present E s' q \<Longrightarrow> metas s' q = metas s q"
    and "\<And>x q. x \<in> laid_objects Ch (ids s) \<Longrightarrow> owned_by (Ob E) (heap s) (fst x) q \<Longrightarrow> metas s' q = metas s q"
  shows "chains Ch F Q s'"
  by (rule frame_chains [OF assms(1) _ _ assms(3-)]) (use chainsD(3) [OF assms(1)] in \<open>simp_all add: same\<close>)

lemma undrawn_chains:
  assumes ch: "chains Ch F Q s" and ok: "cache_ok E items capacity N s" and nd: "nothing_drawn E s s'"
    and ms: "\<And>q. q \<in> Q \<Longrightarrow> present E s' q \<Longrightarrow> metas s' q = metas s q"
    and own: "\<And>x q. x \<in> laid_objects Ch (ids s) \<Longrightarrow> owned_by (Ob E) (heap s) (fst x) q \<Longrightarrow> metas s' q = metas s q"
  shows "chains Ch F Q s'"
proof -
  consider "cache_region_manager s' = cache_region_manager s"
    | n s1 where "allocate_local_object_nb E False n s = Some (Inr (None, s1))" "cache_region_manager s' = cache_region_manager s1"
    using nd by (auto simp: nothing_drawn_def)
  then have "ids s' = ids s \<and> regions_laid Ch s' \<and> space (\<Union> (chunk ` laid_objects Ch (ids s))) s'"
  proof cases
    case 1
    then show ?thesis using chainsD(1,2) [OF ch] by simp
  next
    case (2 n s1)
    have fr: "alloc_frame E items capacity N s s1" using allocate_nb_spec [OF ok, of False n] 2(1) by auto
    obtain Ch' where e: "extended Ch (ids s) n None Ch'" "regions_laid Ch' s1"
      using allocate_nb_laid [OF 2(1) ok chainsD(2,1) [OF ch]] by blast
    then show ?thesis using allocate_nb_space [OF 2(1) ok chainsD(2) [OF ch]] alloc_frame_fields(10) [OF fr] 2(2)
      by (simp add: taken_def extended_def)
  qed
  then show ?thesis using headers_chains [OF ch _ _ _ _ ms own] nd by (simp add: nothing_drawn_def)
qed

text \<open>A step of one pointer that owns no object of the account.\<close>

lemma step_chains:
  assumes ch: "chains Ch F Q s" and ok: "cache_ok E items capacity N s" and st: "space_step E p s s'" and p: "p \<noteq> 0"
    and free: "\<And>x. x \<in> laid_objects Ch (ids s) \<Longrightarrow> \<not> owned_by (Ob E) (heap s) (fst x) p"
  shows "p \<in> Q \<Longrightarrow> \<exists>Ch'. chains Ch' F Q s'"
    and "p \<notin> Q \<Longrightarrow> nothing_drawn E s s' \<Longrightarrow> \<exists>Ch'. chains Ch' F Q s'"
    and "space_drawn E n a s s' \<Longrightarrow> settled E n a p s' \<Longrightarrow> \<exists>Ch'. chains Ch' F (insert p Q) s'"
proof -
  have ms: "\<forall>q. q \<noteq> p \<longrightarrow> metas s' q = metas s q" using st by (simp add: space_step_def)
  have no: "metas s' q = metas s q" if "x \<in> laid_objects Ch (ids s)" "owned_by (Ob E) (heap s) (fst x) q" for x q
    using free [OF that(1)] that(2) ms by metis
  show drawn: "\<exists>Ch'. chains Ch' F (insert p Q) s'" if sd: "space_drawn E n a s s'" "settled E n a p s'" for n a
  proof -
    obtain s1 where al: "allocate_local_object_nb E False n s = Some (Inr (Some a, s1))" "cache_region_manager s' = cache_region_manager s1"
      using sd(1) by (auto simp: space_drawn_def)
    have h: "heap s' y = heap s y" if "body y" "y \<notin> addr_range a (unat n)" for y using sd(1) that by (simp add: space_drawn_def)
    show ?thesis
    proof (rule drawn_chains [OF ch ok al ms sd(2) p, where D = "{}"])
      show "heap s' y = heap s y" if "body y" "y \<notin> addr_range a (unat n)" "y \<notin> \<Union> (chunk ` {})" for y using h that(1,2) .
      show "\<not> owned_by (Ob E) (heap s) (fst x) p" if "x \<in> laid_objects Ch (ids s)" "x \<notin> {}" for x using free that(1) .
    qed simp_all
  qed
  have undrawn: "\<exists>Ch'. chains Ch' F Q s'" if "nothing_drawn E s s'" "\<And>q. q \<in> Q \<Longrightarrow> present E s' q \<Longrightarrow> metas s' q = metas s q"
    by (rule exI, rule undrawn_chains [OF ch ok that(1)]) (erule that(2) no, assumption)+
  show "\<exists>Ch'. chains Ch' F Q s'" if "p \<notin> Q" "nothing_drawn E s s'"
    by (rule undrawn [OF that(2)]) (use ms that(1) in auto)
  show "\<exists>Ch'. chains Ch' F Q s'" if "p \<in> Q"
  proof -
    consider "nothing_drawn E s s'" "present E s' p \<longrightarrow> metas s' p = metas s p"
      | n a where "space_drawn E n a s s'" "settled E n a p s'" using st by (auto simp: space_step_def)
    then show ?thesis
    proof cases
      case 1
      show ?thesis by (rule undrawn [OF 1(1)]) (use ms 1(2) in metis)
    next
      case 2
      then show ?thesis using drawn that by (simp add: insert_absorb)
    qed
  qed
qed

text \<open>An absent pointer owns none, and neither does one whose object a collection is about to move.\<close>

lemma unowned:
  assumes ch: "chains Ch F Q s" and x: "x \<in> laid_objects Ch (ids s)"
    and p: "p \<notin> Q \<or> \<not> present E s p \<or> (obj_at E s p \<in> F \<and> (\<forall>i \<in># ids s. T i \<inter> F = {}))"
  shows "\<not> owned_by (Ob E) (heap s) (fst x) p"
proof
  assume o: "owned_by (Ob E) (heap s) (fst x) p"
  have k: "kept_object E Q s x" by (rule chainsD(5) [OF ch x])
  then have "p \<in> Q \<and> present E s p \<and> obj_at E s p = fst x" using o by (auto simp: kept_object_def owned_by_def)
  then have f: "fst x \<in> F" "\<forall>i \<in># ids s. T i \<inter> F = {}" using p by auto
  have "fst x \<in> chunk x" using k by (intro chunk_nonempty) (simp add: kept_object_def)
  moreover obtain i where "i \<in># ids s" "x \<in> set (Ch i)" using x by (auto simp: laid_objects_def)
  ultimately show False using chunk_territory [OF ch] f by blast
qed

text \<open>Only the memory, the region manager and where the pointers lead matter.\<close>

lemma chains_cong:
  assumes "heap s' = heap s" and "cache_region_manager s' = cache_region_manager s"
    and "\<And>q. present E s' q = present E s q" and "\<And>q. present E s q \<Longrightarrow> obj_at E s' q = obj_at E s q"
  shows "chains Ch F Q s' \<longleftrightarrow> chains Ch F Q s"
  using assms unfolding chained_def kept_object_def accounted_def Let_def by (simp cong: conj_cong imp_cong)

lemma chains_fields:
  "heap s' = heap s \<Longrightarrow> cache_region_manager s' = cache_region_manager s \<Longrightarrow> metas s' = metas s \<Longrightarrow> chains Ch F Q s' \<longleftrightarrow> chains Ch F Q s"
  by (rule chains_cong) (simp_all add: present_def obj_at_def)

lemma resize_chains:
  assumes ch: "chains Ch {} Q s" and ok: "cache_ok E items capacity N s" and p: "p \<in> Q" "present E s p" "p \<noteq> 0" and ap: "apart E Q s"
    and st: "resize_step E p s s'"
  shows "\<exists>Ch'. chains Ch' {} Q s'"
proof -
  obtain n a w b where w: "space_drawn E n a s w" "settled E n a p w" "\<forall>q. q \<noteq> p \<longrightarrow> metas w q = metas s q"
      and s': "s' = inc_ref_cnt E b (-1) (w\<lparr>heap := ob_free (Ob E) (obj_at E s p) (heap w)\<rparr>)"
    using st by (auto simp: resize_step_def)
  obtain x where x: "x \<in> laid_objects Ch (ids s)" "fst x = obj_at E s p" using chainsD(6) [OF ch] p by (auto simp: accounted_def)
  obtain s1 where al: "allocate_local_object_nb E False n s = Some (Inr (Some a, s1))" "cache_region_manager w = cache_region_manager s1"
    using w(1) by (auto simp: space_drawn_def)
  have k: "kept_object E Q s x" by (rule chainsD(5) [OF ch x(1)])
  have fr: "alloc_frame E items capacity N s s1" using allocate_nb_spec [OF ok, of False n] al(1) by auto
  have off: "addr_range a (unat n) \<inter> chunk x = {}"
    using allocate_nb_space [OF al(1) ok chainsD(2) [OF ch]] x(1) by (auto simp: taken_def)
  have hw: "heap w y = heap s y" if "body y" "y \<notin> addr_range a (unat n)" for y using w(1) that by (simp add: space_drawn_def)
  have ow: "obj_ok (Ob E) (heap w) (fst x)" "ob_size (Ob E) (heap w) (fst x) = snd x"
    using object_same(1,2) [OF k, of "heap w"] hw off by blast+
  let ?w = "w\<lparr>heap := ob_free (Ob E) (obj_at E s p) (heap w)\<rparr>"
  have hf: "heap ?w y = heap w y" if "y \<notin> chunk x" for y
  proof -
    have "outside (fst x) (ob_kHeaderSize (Ob E)) y" using that k by (simp add: chunk_def kept_object_def addr_range_def outside_def)
    then show ?thesis using free_outside x(2) by simp
  qed
  have kw: "kept_object E Q ?w x" using freed_object [OF ow(1)] k ow(2) x(2) by (simp add: kept_object_def)
  have sz: "0 < unat n" "x \<noteq> (a, n)" 
    using w(2) off chunk_nonempty [of x] k by (auto simp: settled_def chunk_def kept_object_def)
  have st': "settled E n a p ?w"
  proof -
    have kn: "kept_object E {p} w (a, n)" using w(2) p(3) by (simp add: settled_def kept_object_def owned_by_def)
    have "heap ?w y = heap w y" if "y \<in> chunk (a, n)" for y using hf that off by (auto simp: chunk_def)
    then show ?thesis using object_same [OF kn, of "heap ?w"] w(2) by (auto simp: settled_def owned_by_def present_def obj_at_def)
  qed
  have "\<exists>Ch'. chains Ch' {} (insert p Q) ?w"
  proof (rule drawn_chains [OF ch ok al(1) _ _ st' p(3), of "{x}"])
    show "cache_region_manager ?w = cache_region_manager s1" using al(2) by simp
    show "\<forall>q. q \<noteq> p \<longrightarrow> metas ?w q = metas s q" using w(3) by simp
    show "heap ?w y = heap s y" if "body y" "y \<notin> addr_range a (unat n)" "y \<notin> \<Union> (chunk ` {x})" for y
      using hf hw that by simp
    show "kept_object E (insert p Q) ?w y" if "y \<in> {x}" for y using kw that p(1) by (simp add: insert_absorb)
    show "obj_at E s q \<noteq> fst y" if q: "q \<in> Q" "q \<noteq> p" "present E s q" and y: "y \<in> {x}" for q y
    proof
      assume "obj_at E s q = fst y"
      then have "obj_bytes E s q = obj_bytes E s p" using y x(2) by (simp add: obj_bytes_def)
      moreover have "obj_bytes E s p = chunk x" using object_chunk [OF k] x(2) by (simp add: obj_bytes_def)
      ultimately show False using ap q p chunk_nonempty [of x] k by (fastforce simp: apart_def kept_object_def)
    qed
    show "\<not> owned_by (Ob E) (heap s) (fst y) p" if y: "y \<in> laid_objects Ch (ids s)" "y \<notin> {x}" for y
    proof
      assume "owned_by (Ob E) (heap s) (fst y) p"
      then have "obj_at E s p = fst y" using chainsD(5) [OF ch y(1)] by (auto simp: kept_object_def owned_by_def)
      moreover have "fst y \<in> chunk y" "fst x \<in> chunk x" using k chainsD(5) [OF ch y(1)] by (auto intro!: chunk_nonempty simp: kept_object_def)
      ultimately show False using chunks_apart [OF ch x(1) y(1)] y(2) x(2) by auto
    qed
  qed (use x(1) in auto)
  then obtain Ch' where c: "chains Ch' {} Q ?w" using p(1) by (auto simp: insert_absorb)
  have s'w: "cache_region_manager s' = cache_region_manager ?w" "metas s' = metas ?w" "only_headers (heap ?w) (heap s')"
    using ref_cnt_headers by (simp_all add: s' inc_ref_cnt_def)
  have "chains Ch' {} Q s'"
    by (rule headers_chains [OF c]) (use s'w chainsD(1,2) [OF c] in simp_all)
  then show ?thesis by blast
qed

end

end
