(* ===== verification/Fm_Collect.thy ===== *)
theory Fm_Collect
  imports Fm_Chains
begin

text \<open>
  The collector over the account: the regions it picks can be walked, marking, writing back and
  giving back keep the account, and so a round succeeds on every store that has one. The
  documented layout is an instance.
\<close>

section \<open>Every region can be collected\<close>

lemma sized_object_chain:
  "sized_chain G E right cur xs \<Longrightarrow> \<forall>x \<in> set xs. ob_size (Ob E) h (fst x) = snd x \<Longrightarrow> object_chain G E h right cur (map fst xs)"
  by (induction xs arbitrary: cur) auto

lemma object_chain_unique: "object_chain G E h right cur as \<Longrightarrow> object_chain G E h right cur bs \<Longrightarrow> as = bs"
proof (induction as arbitrary: cur bs)
  case Nil
  then show ?case by (cases bs) auto
next
  case (Cons a as)
  then show ?case by (cases bs) auto
qed

lemma master_fn_Cons: "master_fn R (r # rs) = master_fn R [r] @ master_fn R rs"
  by (simp add: master_fn_def)

text \<open>The objects the slaves visit in the regions given are those of the account, region by region.\<close>

lemma account_walked:
  assumes "\<forall>r \<in> set rs. laid_out G E r (Ch (region_idx r)) \<and> (\<forall>x \<in> set (Ch (region_idx r)). ob_size (Ob E) h (fst x) = snd x)"
  shows "\<exists>ch. (\<forall>t \<in> set (master_fn (Rg E) rs). object_chain G E h (snd t) (fst t) (ch t))
    \<and> concat (map ch (master_fn (Rg E) rs)) = concat (map (\<lambda>r. map fst (Ch (region_idx r))) rs)"
proof -
  define ch where "ch t = (THE as. object_chain G E h (snd t) (fst t) as)" for t
  have ch: "ch t = as" if "object_chain G E h (snd t) (fst t) as" for t as
    unfolding ch_def by (rule the_equality [where P = "\<lambda>as. object_chain G E h (snd t) (fst t) as", OF that]) (rule object_chain_unique [OF _ that])
  have one: "map ch ts = map (map fst) xss \<and> (\<forall>t \<in> set ts. object_chain G E h (snd t) (fst t) (ch t))"
    if "list_all2 (\<lambda>t. sized_chain G E (snd t) (fst t)) ts xss" "\<forall>x \<in> set (concat xss). ob_size (Ob E) h (fst x) = snd x" for ts xss
    using that
  proof (induction rule: list_all2_induct)
    case (Cons t ts xs xss)
    have "object_chain G E h (snd t) (fst t) (map fst xs)" using sized_object_chain [OF Cons.hyps(1)] Cons.prems by simp
    then show ?case using ch [of t] Cons.IH Cons.prems by simp
  qed simp
  show ?thesis
  proof (intro exI [of _ ch], use assms in \<open>induction rs\<close>)
    case Nil
    then show ?case by (simp add: master_fn_def)
  next
    case (Cons r rs)
    obtain xss where xss: "concat xss = Ch (region_idx r)" "list_all2 (\<lambda>t. sized_chain G E (snd t) (fst t)) (master_fn (Rg E) [r]) xss"
      using Cons.prems by (auto simp: laid_out_def)
    have "\<forall>x \<in> set (concat xss). ob_size (Ob E) h (fst x) = snd x" using xss(1) Cons.prems by simp
    from one [OF xss(2) this] Cons show ?case
      unfolding master_fn_Cons [of "Rg E" r rs] by (auto simp: xss(1) [symmetric] map_concat)
  qed
qed

context chain_env
begin

lemma pick_loop_laid:
  assumes "regions_laid Ch s" and "cache_ok E items capacity N s" and "\<forall>r \<in> set (from_regions s). laid G E area Ch r"
  shows "regions_laid Ch (pick_loop G E n s) \<and> (\<forall>r \<in> set (from_regions (pick_loop G E n s)). laid G E area Ch r)"
  using assms
proof (induction "n - length (from_regions s)" arbitrary: s rule: less_induct)
  case less
  obtain res m where pop: "pop_used_region (Rg E) (Cb E) (kPickRegionMaxRetryTimes G) (seen_by_scan G s) (cache_region_manager s) = (res, m)"
    by fastforce
  have wf: "rm_wf (Rg E) items capacity N (cache_region_manager s)" using less.prems(2) by (simp add: cache_ok_def)
  note c = pop_used_conserves [OF wf pop] and own = pop_used_owned [OF pop]
  have laid: "all_valid (Rg E) items (laid G E area Ch) m" using less.prems(1) own by (auto simp: all_valid_def split: option.splits)
  show ?case
  proof (cases res)
    case None
    then have "pick_loop G E n s = s\<lparr>cache_region_manager := m\<rparr>" using pop by (subst pick_loop.simps) simp
    then show ?thesis using laid less.prems(3) by simp
  next
    case (Some r)
    let ?s = "s\<lparr>cache_region_manager := m, from_regions := from_regions s @ [r]\<rparr>"
    have unf: "pick_loop G E n s = (if length (from_regions ?s) < n then pick_loop G E n ?s else ?s)"
      using pop Some by (subst pick_loop.simps) (simp add: Let_def)
    have ok: "cache_ok E items capacity N ?s" using c less.prems(2) by (simp add: cache_ok_def)
    have "laid G E area Ch r" using own Some c less.prems(1) by (auto simp: all_valid_def)
    then have r: "\<forall>q \<in> set (from_regions ?s). laid G E area Ch q" using less.prems(3) by simp
    show ?thesis
    proof (cases "length (from_regions ?s) < n")
      case False
      then show ?thesis using unf laid r by simp
    next
      case True
      then have "n - length (from_regions ?s) < n - length (from_regions s)" by simp
      from less.hyps [OF this _ ok r] show ?thesis using unf True laid by simp
    qed
  qed
qed

text \<open>The regions picked leave with their lists; the account of the others stays.\<close>

lemma pick_chains:
  assumes ch: "chains Ch {} Q s" and cok: "cache_ok E items capacity N s" and N: "size (ids s) \<le> N"
  defines "t \<equiv> pick_from_regions G E s"
  shows "\<forall>r \<in> set (from_regions t). laid G E area Ch r \<and> region_idx r \<in># ids s \<and> region_idx r \<notin># ids t"
    and "ids s = ids t + mset (map region_idx (from_regions t))" and "distinct (map region_idx (from_regions t))"
    and "heap t = heap s" "metas t = metas s" and "chains Ch (picked_bytes area t) Q t"
proof -
  let ?s = "s\<lparr>from_regions := []\<rparr>" and ?n = "num_regions_per_gc_round G (cache_region_manager s)"
  have t: "t = pick_loop G E ?n ?s" by (simp add: t_def pick_from_regions_def)
  have gi: "gc_inv E items capacity N (ids s) ?s" using cok N by (simp add: gc_inv_def cache_ok_def)
  note pick = pick_loop_spec [OF gi, of ?n, folded t]
  then show sum: "ids s = ids t + mset (map region_idx (from_regions t))" by (simp add: gc_inv_def)
  obtain m fr where e: "t = s\<lparr>cache_region_manager := m, from_regions := fr\<rparr>" using pick by auto
  then show hm: "heap t = heap s" "metas t = metas s" by simp_all
  have cs: "cache_ok E items capacity N ?s" using cok by (simp add: cache_ok_def)
  have spt: "space (\<Union> (chunk ` laid_objects Ch (ids s))) t \<and> picked_ok E items area T N t"
    unfolding t by (rule pick_loop_space [OF cs]) (use chainsD(2) [OF ch] N in \<open>simp_all add: picked_ok_def\<close>)
  then show "distinct (map region_idx (from_regions t))" by (simp add: picked_ok_def)
  have l: "regions_laid Ch t \<and> (\<forall>r \<in> set (from_regions t). laid G E area Ch r)"
    unfolding t by (rule pick_loop_laid [OF _ cs]) (use chainsD(1) [OF ch] in simp_all)
  show picked: "\<forall>r \<in> set (from_regions t). laid G E area Ch r \<and> region_idx r \<in># ids s \<and> region_idx r \<notin># ids t"
    using l spt unfolding sum by (auto simp: picked_ok_def)
  have sub: "laid_objects Ch (ids t) \<subseteq> laid_objects Ch (ids s)" unfolding sum by (auto simp: laid_objects_def)
  have po: "present E t q = present E s q" "obj_at E t q = obj_at E s q" for q using hm by (simp_all add: present_def obj_at_def)
  have "space (\<Union> (chunk ` laid_objects Ch (ids t))) t"
    by (rule space_ok_mono [OF conjunct1 [OF spt]]) (use sub in blast)
  moreover have "kept_object E Q t x" if "x \<in> laid_objects Ch (ids t)" for x
    using chainsD(5) [OF ch] sub that unfolding kept_object_def hm po by blast
  moreover have "disjoint_chunks (Ch i)" if "i \<in># ids t" for i using chainsD(3) [OF ch] that unfolding sum by simp
  moreover have "accounted E (laid_objects Ch (ids t)) (picked_bytes area t) Q t" unfolding accounted_def po hm
  proof (intro ballI impI)
    fix q
    assume "q \<in> Q" "present E s q"
    then obtain x where x: "x \<in> laid_objects Ch (ids s)" "fst x = obj_at E s q" "\<not> ob_is_freed (Ob E) (heap s) (fst x)"
      using chainsD(6) [OF ch] by (auto simp: accounted_def)
    then obtain i where i: "i \<in># ids s" "x \<in> set (Ch i)" by (auto simp: laid_objects_def)
    show "(\<exists>x \<in> laid_objects Ch (ids t). fst x = obj_at E s q \<and> \<not> ob_is_freed (Ob E) (heap s) (fst x)) \<or> obj_at E s q \<in> picked_bytes area t"
    proof (cases "i \<in># ids t")
      case True
      then have "x \<in> laid_objects Ch (ids t)" using i(2) by (auto simp: laid_objects_def)
      then show ?thesis using x by blast
    next
      case False
      then obtain r where r: "r \<in> set (from_regions t)" "region_idx r = i" using i(1) unfolding sum by auto
      have "fst x \<in> chunk x" using chainsD(5) [OF ch x(1)] by (intro chunk_nonempty) (simp add: kept_object_def)
      then have "fst x \<in> area r" using picked r i(2) by (auto simp: laid_def)
      then show ?thesis using x(2) r(1) by (auto simp: picked_bytes_def)
    qed
  qed
  ultimately show "chains Ch (picked_bytes area t) Q t" using l chainsD(4) [OF ch] by (simp add: chained_def Let_def)
qed

lemma picked_apart:
  assumes "chains Ch F Q s"
  shows "distinct is \<Longrightarrow> set is \<subseteq> set_mset (ids s) \<Longrightarrow> disjoint_chunks (concat (map Ch is))"
proof (induction "is")
  case (Cons i js)
  have "chunk x \<inter> chunk y = {}" if "x \<in> set (Ch i)" "j \<in> set js" "y \<in> set (Ch j)" for x y j
  proof -
    have ij: "i \<noteq> j" "i \<in># ids s" "j \<in># ids s" using Cons.prems that(2) by auto
    then show ?thesis using chunk_territory [OF assms ij(2) that(1)] chunk_territory [OF assms ij(3) that(3)] territories [OF ij(1)] by blast
  qed
  then have "\<forall>x \<in> set (Ch i). \<forall>y \<in> set (concat (map Ch js)). chunk x \<inter> chunk y = {}" by auto
  then show ?case using Cons chainsD(3) [OF assms, of i] by (simp add: sorted_wrt_append)
qed simp

lemma distinct_addresses: "disjoint_chunks xs \<Longrightarrow> (\<And>x. x \<in> set xs \<Longrightarrow> 0 < unat (snd x)) \<Longrightarrow> distinct (map fst xs)"
proof (induction xs)
  case (Cons x xs)
  have "fst x \<noteq> fst y" if "y \<in> set xs" for y
    using Cons.prems(1) that chunk_nonempty [of x] chunk_nonempty [of y] Cons.prems(2) by fastforce
  then show ?case using Cons by auto
qed simp

lemma chained_parsed:
  assumes ch: "chains Ch {} Q s" and inv: "store_inv E items capacity contents area room T V Q N s" and N: "size (ids s) \<le> N"
  defines "t \<equiv> pick_from_regions G E s"
  shows "\<exists>f. parsed G E area Q f t"
proof -
  have cok: "cache_ok E items capacity N s" using inv by (simp add: store_inv_def)
  note p = pick_chains [OF ch cok N, folded t_def]
  let ?rs = "from_regions t" and ?xs = "concat (map (\<lambda>r. Ch (region_idx r)) (from_regions t))"
  have objs: "x \<in> laid_objects Ch (ids s)" if "r \<in> set ?rs" "x \<in> set (Ch (region_idx r))" for r x
    using p(1) that by (auto simp: laid_objects_def)
  have k: "kept_object E Q s x" if x: "x \<in> set ?xs" for x
  proof -
    obtain r where "r \<in> set ?rs" "x \<in> set (Ch (region_idx r))" using x by auto
    then show ?thesis by (rule chainsD(5) [OF ch objs])
  qed
  have "\<forall>r \<in> set ?rs. laid_out G E r (Ch (region_idx r)) \<and> (\<forall>x \<in> set (Ch (region_idx r)). ob_size (Ob E) (heap t) (fst x) = snd x)"
    using p(1,4) chainsD(5) [OF ch objs] by (auto simp: laid_def kept_object_def)
  from account_walked [OF this] obtain f where f: "\<forall>u \<in> set (master_fn (Rg E) ?rs). object_chain G E (heap t) (snd u) (fst u) (f u)"
      "picked_objects E f t = map fst ?xs" unfolding picked_objects_def by (auto simp: map_concat comp_def)
  have "distinct (map fst ?xs)"
  proof -
    have "disjoint_chunks (concat (map Ch (map region_idx ?rs)))" by (rule picked_apart [OF ch p(3)]) (use p(1) in auto)
    then have "disjoint_chunks ?xs" by (simp add: comp_def)
    moreover have "0 < unat (snd x)" if "x \<in> set ?xs" for x using k [OF that] unfolding kept_object_def by linarith
    ultimately show ?thesis by (rule distinct_addresses)
  qed
  moreover have "whole_object E (picked_bytes area t) (heap t) (fst x)
        \<and> (\<not> ob_is_freed (Ob E) (heap t) (fst x) \<longrightarrow> ob_get_ptr_addr (Ob E) (heap t) (fst x) \<in> Q
             \<and> present E t (ob_get_ptr_addr (Ob E) (heap t) (fst x)) \<and> obj_at E t (ob_get_ptr_addr (Ob E) (heap t) (fst x)) = fst x)"
    if x: "x \<in> set ?xs" for x
  proof -
    obtain r where r: "r \<in> set ?rs" "x \<in> set (Ch (region_idx r))" using x by auto
    have "chunk x \<subseteq> picked_bytes area t" using p(1) r by (auto simp: laid_def picked_bytes_def)
    then show ?thesis using k [OF x] object_chunk [OF k [OF x]]
      by (simp add: kept_object_def whole_object_def p(4,5) present_def obj_at_def)
  qed
  moreover have "obj_bytes E t q \<inter> picked_bytes area t = {} \<or> obj_at E t q \<in> set (map fst ?xs) \<and> \<not> ob_is_freed (Ob E) (heap t) (obj_at E t q)"
    if q: "q \<in> Q" "present E t q" for q
  proof -
    have q': "present E s q" "obj_at E t q = obj_at E s q" using q p(5) by (simp_all add: present_def obj_at_def)
    then obtain x where x: "x \<in> laid_objects Ch (ids s)" "fst x = obj_at E s q" "\<not> ob_is_freed (Ob E) (heap s) (fst x)"
      using chainsD(6) [OF ch] q(1) by (auto simp: accounted_def)
    then obtain i where i: "i \<in># ids s" "x \<in> set (Ch i)" by (auto simp: laid_objects_def)
    show ?thesis
    proof (cases "i \<in># ids t")
      case True
      have "obj_bytes E t q = chunk x" using object_chunk [OF chainsD(5) [OF ch x(1)]] x(2) q'(2) p(4) by (simp add: obj_bytes_def)
      moreover have "chunk x \<subseteq> T i" by (rule chunk_territory [OF ch i])
      moreover have "picked_bytes area t \<inter> T i = {}"
      proof -
        have "picked_ok E items area T N t" unfolding t_def using pick_store(2) [OF inv N] .
        then have "area r \<inter> T i = {}" if "r \<in> set ?rs" for r
          using that p(1) True territories [of "region_idx r" i] by (fastforce simp: picked_ok_def)
        then show ?thesis by (auto simp: picked_bytes_def)
      qed
      ultimately show ?thesis by blast
    next
      case False
      then obtain r where "r \<in> set ?rs" "region_idx r = i" using i(1) unfolding p(2) by auto
      then have "x \<in> set ?xs" using i(2) by auto
      then have "fst x \<in> set (map fst ?xs)" unfolding set_map by (rule imageI)
      then show ?thesis using x q'(2) p(4) by simp
    qed
  qed
  ultimately show ?thesis unfolding parsed_def f(2) using f(1) by (intro exI [of _ f]) (auto simp: f(2))
qed

text \<open>Marking, and the evictions of a collection.\<close>

lemma marked_chains:
  assumes ch: "chains Ch F Q s" and ms: "\<forall>q. ms q = metas s q \<or> pt_is_present (Pt E) (metas s q) \<and> marked_of E (metas s q) (ms q)"
  shows "chains Ch F Q (s\<lparr>metas := ms\<rparr>)"
proof -
  have "present E (s\<lparr>metas := ms\<rparr>) q = present E s q" "present E s q \<Longrightarrow> obj_at E (s\<lparr>metas := ms\<rparr>) q = obj_at E s q" for q
    using spec [OF ms, of q] by (auto simp: present_def obj_at_def marked_of_def)
  then show ?thesis using ch chains_cong [of "s\<lparr>metas := ms\<rparr>" s] by simp
qed

lemma step_ids:
  assumes "cache_ok E items capacity N s" and "space_step E p s s'"
  shows "ids s' = ids s"
proof -
  have "ids s1 = ids s" if "allocate_local_object_nb E False n s = Some (Inr (res, s1))" for n res s1
    using allocate_nb_spec [OF assms(1), of False n] that alloc_frame_fields(10) by fastforce
  then show ?thesis using assms(2) unfolding space_step_def nothing_drawn_def space_drawn_def by (elim conjE disjE exE) simp_all
qed

lemma eviction_chains: "\<forall>i \<in># J. T i \<inter> F = {} \<Longrightarrow> kept_by_eviction (\<lambda>s. ids s = J \<and> (\<exists>Ch. chains Ch F Q s)) V Q N F"
  unfolding kept_by_eviction_def
proof (intro conjI allI impI)
  fix s s' :: "('q, 'd) fm_state"
  assume "metas s' = metas s" "heap s' = heap s" "cache_region_manager s' = cache_region_manager s" "ids s = J \<and> (\<exists>Ch. chains Ch F Q s)"
  then show "ids s' = J" "\<exists>Ch. chains Ch F Q s'" using chains_fields [of s' s] by auto
next
  fix s X p l s2
  assume J: "\<forall>i \<in># J. T i \<inter> F = {}" and "ids s = J \<and> (\<exists>Ch. chains Ch F Q s)" and ok: "cache_ok E items capacity N s"
    and use: "in_use E contents V Q X s" and p: "p \<in> Q" "present E s p" "obj_bytes E s p \<subseteq> F"
    and st: "space_step E p (s\<lparr>obj_locks := l\<rparr>) s2"
  then obtain Ch where J': "ids s = J" and ch: "chains Ch F Q s" by blast
  have okl: "cache_ok E items capacity N (s\<lparr>obj_locks := l\<rparr>)" using ok by (simp add: cache_ok_def)
  have chl: "chains Ch F Q (s\<lparr>obj_locks := l\<rparr>)" using ch chains_fields [of "s\<lparr>obj_locks := l\<rparr>" s] by simp
  show "ids (s2\<lparr>obj_locks := {}\<rparr>) = J" using step_ids [OF okl st] J' by simp
  have "ptr_ok E contents s p" using use p(1) by (simp add: in_use_def stored_def)
  then have "obj_at E s p \<in> F"
    using present_size(3) [OF _ p(2)] p(3) by (auto simp: obj_bytes_def bytes_of_def addr_range_at)
  then have free: "\<not> owned_by (Ob E) (heap (s\<lparr>obj_locks := l\<rparr>)) (fst x) p" if "x \<in> laid_objects Ch (ids (s\<lparr>obj_locks := l\<rparr>))" for x
    using unowned [OF ch, of x p] that J J' by simp
  have p0: "p \<noteq> 0" using chainsD(4) [OF ch] p(1) by metis
  obtain Ch' where "chains Ch' F Q s2" using step_chains(1) [OF chl okl st p0 free p(1)] by blast
  then show "\<exists>Ch. chains Ch F Q (s2\<lparr>obj_locks := {}\<rparr>)" using chains_fields [of "s2\<lparr>obj_locks := {}\<rparr>" s2] by auto
qed

text \<open>The regions come back empty.\<close>

lemma push_from_laid:
  assumes "cache_ok E items capacity N s" and "regions_laid Ch s" and "\<forall>r \<in> set rs. \<not> rg_is_invalid (Rg E) r \<and> Ch (region_idx r) = []"
    and "size (ids s) + length rs \<le> N" and "push_from_regions E pushed rs s = Inr s'"
  shows "regions_laid Ch s'"
  using assms
proof (induction rs arbitrary: s pushed)
  case (Cons r rs)
  let ?m = "cache_region_manager s"
  have wf: "rm_wf (Rg E) items capacity N ?m" and sz: "size (ids s) < N" and v: "\<not> rg_is_invalid (Rg E) r"
    using Cons.prems by (auto simp: cache_ok_def)
  obtain r' h m where p: "push_free_region (Rg E) (Cb E) r (heap s) ?m = Inr (r', h, m)" "rm_wf (Rg E) items capacity N m"
      "region_ids (Rg E) items m = add_mset (region_idx r) (ids s)"
      "items (free_regions m) = items (free_regions ?m) @ [fst (rg_reset (Rg E) r (heap s))]"
      "used_regions m = used_regions ?m" "nt_used_regions m = nt_used_regions ?m"
    using push_free_spec [OF wf sz v, of "heap s"] by blast
  have "core_regions m = core_regions ?m"
    using p(1) by (auto simp: push_free_region_def spin_lock_def spin_unlock_def split: prod.splits if_splits)
  then have "owned_regions items m = add_mset (fst (rg_reset (Rg E) r (heap s))) (owned_regions items ?m)"
    using p(4-6) by (simp add: owned_regions_def)
  moreover have "laid G E area Ch (fst (rg_reset (Rg E) r (heap s)))"
    using reset_laid [of r "heap s"] reset_idx [of r "heap s"] Cons.prems(3) by (simp add: laid_def)
  ultimately have "all_valid (Rg E) items (laid G E area Ch) m" using Cons.prems(2) by (auto simp: all_valid_def)
  then show ?case using Cons.prems p by (intro Cons.IH [of "s\<lparr>heap := h, cache_region_manager := m\<rparr>"]) (auto simp: cache_ok_def)
qed auto

lemma returned_chains:
  assumes ch: "chains Ch F Q s" and cok: "cache_ok E items capacity N s" and po: "picked_ok E items area T N s"
    and off: "\<And>q. q \<in> Q \<Longrightarrow> present E s q \<Longrightarrow> obj_at E s q \<notin> F" and run: "push_from_regions E [] (from_regions s) s = Inr s'"
  shows "\<exists>Ch'. chains Ch' {} Q (notify_mutators G s')"
proof -
  let ?rs = "from_regions s" and ?X = "\<Union> (chunk ` laid_objects Ch (ids s))"
  let ?Ch = "\<lambda>i. if i \<in> region_idx ` set (from_regions s) then [] else Ch i"
  have rs: "\<forall>r \<in> set ?rs. \<not> rg_is_invalid (Rg E) r \<and> area r \<subseteq> T (region_idx r)" "region_idx ` set ?rs \<inter> set_mset (ids s) = {}"
    "distinct (map region_idx ?rs)" "size (ids s) + length ?rs \<le> N" using po by (auto simp: picked_ok_def)
  have gone: "area r \<inter> ?X = {}" if r: "r \<in> set ?rs" for r
  proof -
    have "area r \<inter> chunk x = {}" if x: "x \<in> laid_objects Ch (ids s)" for x
    proof -
      obtain i where i: "i \<in># ids s" "x \<in> set (Ch i)" using x by (auto simp: laid_objects_def)
      have "region_idx r \<noteq> i" using rs(2) r i(1) by blast
      from territories [OF this] show ?thesis using chunk_territory [OF ch i] rs(1) r by blast
    qed
    then show ?thesis by blast
  qed
  obtain h m fr where s': "s' = s\<lparr>heap := h, cache_region_manager := m, from_regions := fr\<rparr>" "only_headers (heap s) h"
      "space_ok (Rg E) items area room T ?X m" "region_ids (Rg E) items m = ids s + mset (map region_idx ?rs)"
    using push_from_space [OF cok chainsD(2) [OF ch] _ rs(3,2,4), of "[]"] rs(1) gone run by auto
  have "all_valid (Rg E) items (laid G E area ?Ch) (cache_region_manager s)"
  proof -
    have "region_idx r \<in># ids s" if "r \<in># owned_regions items (cache_region_manager s)" "\<not> rg_is_invalid (Rg E) r" for r
      using that by (auto simp: region_ids_def valid_ids_def)
    then have "region_idx r \<notin> region_idx ` set ?rs" if "r \<in># owned_regions items (cache_region_manager s)" "\<not> rg_is_invalid (Rg E) r" for r
      using that rs(2) by blast
    then show ?thesis using chainsD(1) [OF ch] unfolding all_valid_def laid_def by simp
  qed
  then have laid: "regions_laid ?Ch s'" by (rule push_from_laid [OF cok _ _ rs(4) run]) (use rs(1) in auto)
  have objs: "laid_objects ?Ch (ids s') = laid_objects Ch (ids s)"
  proof -
    have "set_mset (ids s') = set_mset (ids s) \<union> region_idx ` set ?rs" using s'(1,4) by simp
    moreover have "(\<Union>i \<in> region_idx ` set ?rs. set (?Ch i)) = {}" by simp
    moreover have "?Ch i = Ch i" if "i \<in># ids s" for i using rs(2) that by auto
    then have "(\<Union>i \<in> set_mset (ids s). set (?Ch i)) = (\<Union>i \<in> set_mset (ids s). set (Ch i))" by simp
    ultimately show ?thesis unfolding laid_objects_def by (simp only: UN_Un Un_empty_right)
  qed
  have "chains ?Ch F Q s'"
    by (rule frame_chains [OF ch objs _ laid]) (use chainsD(3) [OF ch] s' in auto)
  moreover have "obj_at E s' q = obj_at E s q" "present E s' q = present E s q" for q by (simp_all add: s' obj_at_def present_def)
  ultimately have "chains ?Ch {} Q s'" using off by (auto simp: chained_def Let_def accounted_def)
  then have "chains ?Ch {} Q (notify_mutators G s')"
    using chains_fields [of "notify_mutators G s'" s'] by (simp add: notify_mutators_def Let_def)
  then show ?thesis by blast
qed

text \<open>A round of the collector, from the pick to the notification, on any chained store.\<close>

lemma collect_chains:
  assumes ch: "chains Ch {} Q s" and inv: "store_inv E items capacity contents area room T V Q N s" and N: "size (ids s) \<le> N"
  shows "\<exists>s' Ch'. gc_round G E armed (pick_from_regions G E s) = Some (Inr s') \<and> store_inv E items capacity contents area room T V Q N s'
    \<and> ids s' = ids s \<and> far_mem_region_manager s' = far_mem_region_manager s \<and> chains Ch' {} Q s'
    \<and> (\<forall>q \<in> Q. present E s' q \<longrightarrow> obj_bytes E s' q \<inter> picked_bytes area (pick_from_regions G E s) = {})"
proof -
  let ?t = "pick_from_regions G E s" let ?F = "picked_bytes area ?t"
  have cok: "cache_ok E items capacity N s" using inv by (simp add: store_inv_def)
  note ps = pick_store [OF inv N] and pc = pick_chains [OF ch cok N]
  obtain f where pa: "parsed G E area Q f ?t" using chained_parsed [OF ch inv N] by blast
  obtain s' where r: "gc_round G E armed ?t = Some (Inr s')" "store_inv E items capacity contents area room T V Q N s'"
      "ids s' = ids ?t + mset (map region_idx (from_regions ?t))" "far_mem_region_manager s' = far_mem_region_manager ?t"
      "\<forall>q \<in> Q. present E s' q \<longrightarrow> obj_bytes E s' q \<inter> ?F = {}"
    using round_keeps_store [OF ps(1,2) pa, of armed] by (elim exE conjE) (rule that)
  have off: "\<forall>i \<in># ids ?t. T i \<inter> ?F = {}"
  proof
    fix i
    assume i: "i \<in># ids ?t"
    have "T i \<inter> area r = {}" if r: "r \<in> set (from_regions ?t)" for r
      using ps(2) r i territories [of i "region_idx r"] by (fastforce simp: picked_ok_def)
    then show "T i \<inter> ?F = {}" by (auto simp: picked_bytes_def)
  qed
  have marks: "ids (?t\<lparr>metas := ms\<rparr>) = ids ?t \<and> (\<exists>Ch. chains Ch ?F Q (?t\<lparr>metas := ms\<rparr>))"
    if "\<forall>q. ms q = metas ?t q \<or> pt_is_present (Pt E) (metas ?t q) \<and> marked_of E (metas ?t q) (ms q)" for ms
    using marked_chains [OF pc(6) that] by auto
  obtain s3 where s3: "gc_round G E armed ?t = and_then (Some (push_from_regions E [] (from_regions ?t) s3)) (\<lambda>s. Some (Inr (notify_mutators G s)))"
      "ids s3 = ids ?t" "\<exists>Ch. chains Ch ?F Q s3" "store_inv E items capacity contents area room T V Q N s3" "picked_ok E items area T N s3"
      "from_regions s3 = from_regions ?t" "\<forall>q \<in> Q. present E s3 q \<longrightarrow> obj_bytes E s3 q \<inter> ?F = {}"
    by (rule exE [OF round_written [OF ps(1,2) pa eviction_chains [OF off] marks, of armed]], assumption) (elim conjE, rule that, assumption+)
  obtain Ch3 where ch3: "chains Ch3 ?F Q s3" using s3(3) by blast
  obtain s4 where s4: "push_from_regions E [] (from_regions s3) s3 = Inr s4" "s' = notify_mutators G s4"
    using s3(1) r(1) unfolding s3(6) by (cases "push_from_regions E [] (from_regions ?t) s3") auto
  have cok3: "cache_ok E items capacity N s3" using s3(4) by (simp add: store_inv_def)
  have out: "obj_at E s3 q \<notin> ?F" if q: "q \<in> Q" "present E s3 q" for q
  proof -
    have "ptr_ok E contents s3 q" using s3(4) q(1) by (simp add: store_inv_def in_use_def stored_def)
    from present_size(3) [OF this q(2)] have "obj_at E s3 q \<in> obj_bytes E s3 q" by (simp add: obj_bytes_def bytes_of_def addr_range_at)
    then show ?thesis using s3(7) q by blast
  qed
  obtain Ch' where "chains Ch' {} Q s'" using returned_chains [OF ch3 cok3 s3(5) out s4(1)] s4(2) by auto
  then show ?thesis using r ps(3,4) by auto
qed

end

section \<open>An instance\<close>

text \<open>In the documented layout a region's one boundary runs from its first object to its first free byte.\<close>

lemma layout_laid_out:
  assumes "num_boundaries r = (if first_free_byte_idx r = of_nat kObjectPos then 0 else 1)"
  shows "laid_out demo_gc demo_ext r xs \<longleftrightarrow>
    (if first_free_byte_idx r = of_nat kObjectPos then xs = []
     else sized_chain demo_gc demo_ext (region_base r + of_nat (unat (first_free_byte_idx r))) (region_base r + of_nat kObjectPos) xs)"
proof -
  have "master_fn (Rg demo_ext) [r] = (if first_free_byte_idx r = of_nat kObjectPos then []
      else [(region_base r + of_nat kObjectPos, region_base r + of_nat (unat (first_free_byte_idx r)))])"
    using assms by (simp add: master_fn_def layout_regions_def)
  then show ?thesis
    by (cases "first_free_byte_idx r = of_nat kObjectPos") (auto simp: laid_out_def list_all2_Cons1 intro: exI [of _ "[xs]"])
qed

lemma region_base_bound: "buf_ptr r = 0 \<or> buf_ok (buf_ptr r) \<Longrightarrow> unat (region_base r) < 2 ^ 46"
proof -
  have "unat (region_idx r) < 2 ^ 32" using unsigned_less [of "region_idx r"] by simp
  then have "unat (region_idx r) * 1024 < 2 ^ 46" by simp
  moreover from this have "unat (of_nat (unat (region_idx r) * 1024) :: u64) = unat (region_idx r) * 1024"
    by (intro unat_of_nat_u64) simp
  ultimately show "buf_ptr r = 0 \<or> buf_ok (buf_ptr r) \<Longrightarrow> unat (region_base r) < 2 ^ 46"
    by (auto simp: region_base_def buf_ok_def kSize_val)
qed

lemma chain_append:
  assumes "sized_chain demo_gc demo_ext right cur xs" and "right \<le> right'" and "right + 12 < right'" and "\<not> right' + 12 < right'"
    and "right + align_to demo_gc (ucast sz) (of_nat 8) = right'"
  shows "sized_chain demo_gc demo_ext right' cur (xs @ [(right, sz)])"
  using assms by (induction xs arbitrary: cur) auto

lemma align_bump: "align_to demo_gc (ucast (sz :: u16)) (of_nat 8) = of_nat (bump_size sz)"
proof -
  have sz: "unat sz < 2 ^ 16" using unsigned_less [of sz] by simp
  have "(ucast sz + 8 - 1 :: u64) = of_nat (unat sz + 7)" by simp
  moreover have "unat (of_nat (unat sz + 7) :: u64) = unat sz + 7" using sz by (intro unat_of_nat_u64) simp
  ultimately have "unat ((ucast sz + 8 - 1 :: u64) div 8) = (unat sz + 7) div 8" by (simp only: unat_div) simp
  then have "(ucast sz + 8 - 1 :: u64) div 8 = of_nat ((unat sz + 7) div 8)" by (metis of_nat_unat ucast_id)
  then show ?thesis by (simp add: demo_gc_def bump_size_def)
qed

lemma layout_alloc_laid:
  assumes xs: "laid_out demo_gc demo_ext r xs" and al: "rg_allocate_object layout_regions sz r h = (Some a, r', h')" and sz: "12 < unat sz"
  shows "laid_out demo_gc demo_ext r' (xs @ [(a, sz)])"
proof -
  let ?b = "unat (region_base r)" and ?f = "unat (first_free_byte_idx r)" and ?n = "bump_size sz"
  note al = layout_allocated [OF al]
  have bound: "?b < 2 ^ 46" by (rule region_base_bound [OF al(8)])
  have n: "12 < ?n" using sz by (simp add: bump_size_def)
  have a: "a = of_nat (?b + ?f)" using al(3) by simp
  have right: "region_base r + of_nat (unat (first_free_byte_idx r')) = of_nat (?b + ?f + ?n)" using al(5) by (simp add: add.assoc)
  have small: "unat (of_nat (?b + ?f + ?n) :: u64) = ?b + ?f + ?n" "unat (of_nat (?b + ?f) :: u64) = ?b + ?f"
    "unat (of_nat (?b + ?f + 12) :: u64) = ?b + ?f + 12" "unat (of_nat (?b + ?f + ?n + 12) :: u64) = ?b + ?f + ?n + 12"
    using bound al(1,2) by (intro unat_of_nat_u64; simp add: kSize_val)+
  have plus: "a + 12 = of_nat (?b + ?f + 12)" "of_nat (?b + ?f + ?n) + 12 = (of_nat (?b + ?f + ?n + 12) :: u64)" using a by simp_all
  have step: "a \<le> of_nat (?b + ?f + ?n)" "a + 12 < of_nat (?b + ?f + ?n)" "\<not> (of_nat (?b + ?f + ?n) :: u64) + 12 < of_nat (?b + ?f + ?n)"
    unfolding plus unfolding a word_le_nat_alt word_less_nat_alt small using n by linarith+
  have nxt: "a + align_to demo_gc (ucast sz) (of_nat 8) = of_nat (?b + ?f + ?n)" unfolding align_bump a by simp
  have moved: "first_free_byte_idx r' \<noteq> of_nat kObjectPos" "num_boundaries r' = 1"
  proof -
    have "unat (first_free_byte_idx r') \<noteq> unat (of_nat kObjectPos :: u32)" using al(5) n by (simp add: kObjectPos_def kHeaderSize_def)
    then show "first_free_byte_idx r' \<noteq> of_nat kObjectPos" by metis
    show "num_boundaries r' = 1" by (simp add: al(4))
  qed
  have old: "sized_chain demo_gc demo_ext a (region_base r + of_nat kObjectPos) xs"
  proof (cases "first_free_byte_idx r = of_nat kObjectPos")
    case True
    then have "xs = []" "a = region_base r + of_nat kObjectPos" using xs layout_laid_out [OF al(7)] al(3) by (auto simp: kObjectPos_def kHeaderSize_def)
    moreover have "\<not> a + 12 < a" unfolding plus unfolding a word_less_nat_alt small by simp
    ultimately show ?thesis by simp
  next
    case False
    then show ?thesis using xs layout_laid_out [OF al(7)] al(3) by simp
  qed
  have "sized_chain demo_gc demo_ext (of_nat (?b + ?f + ?n)) (region_base r + of_nat kObjectPos) (xs @ [(a, sz)])"
    by (rule chain_append [OF old step nxt])
  then show ?thesis using layout_laid_out [of r' "xs @ [(a, sz)]"] moved right al(6) by (simp add: add.assoc)
qed

lemma byte_freed:
  assumes "obj_ok byte_objects h a"
  shows "obj_ok byte_objects (ob_free byte_objects a h) a \<and> ob_size byte_objects (ob_free byte_objects a h) a = ob_size byte_objects h a
    \<and> ob_is_freed byte_objects (ob_free byte_objects a h) a"
proof -
  let ?h = "ob_free byte_objects a h"
  have at: "?h (a + of_nat i) = h (a + of_nat i)" if "8 \<le> i" "i < 2 ^ 63" for i
    by (simp add: byte_objects_def) (rule wr_bytes_outside, use that in \<open>simp add: outside_def unat_of_nat_u64\<close>)
  have view: "obj_view byte_objects ?h a = obj_view byte_objects h a"
  proof (rule bo_view_agree(4), rule at)
    fix i
    assume "i < 12 + unat (bo_len h a) + unat (h (a + 11))"
    then show "i < 2 ^ 63" using bo_size [OF assms] unat_u16_less [of "ob_size byte_objects h a"] by simp
  qed
  have "rd_u64 ?h a = 0"
    using rd_wr_same [of 8 "replicate 8 0" h a] by (intro rd_u64_bytes) (simp add: byte_objects_def u64_bytes_def map_replicate_const)
  then have "ob_is_freed byte_objects ?h a" by (simp add: byte_objects_def)
  then show ?thesis using bytes.view_ok [OF view] bytes.view_size [OF view] assms by blast
qed

interpretation demo_chains: chain_env demo_ext ring_items ring_cap "\<lambda>d. d" layout_area layout_room demo_territory demo_gc
proof (intro chain_env.intro chain_env_axioms.intro)
  show "object_store demo_ext ring_items ring_cap (\<lambda>d. d) layout_area layout_room demo_territory demo_gc"
    by (rule demo_store.object_store_axioms)
  show "resize_env demo_ext ring_items ring_cap (\<lambda>d. d) layout_area layout_room demo_territory"
    by (rule demo_resize.resize_env_axioms)
  show "laid_out demo_gc demo_ext r' (xs @ [(a, sz)])"
    if "laid_out demo_gc demo_ext r xs" "rg_allocate_object (Rg demo_ext) sz r h = (Some a, r', h')" "ob_kHeaderSize (Ob demo_ext) < unat sz"
    for r xs sz h a r' h'
    using layout_alloc_laid that by simp
  show "laid_out demo_gc demo_ext r' xs" if "laid_out demo_gc demo_ext r xs" "rg_allocate_object (Rg demo_ext) sz r h = (None, r', h')" for r xs sz h r' h'
    using that by (auto simp: layout_regions_def split: if_splits)
  show "laid_out demo_gc demo_ext (fst (rg_set_nt (Rg demo_ext) r h)) xs = laid_out demo_gc demo_ext r xs" for r h xs
    by (simp add: layout_regions_def)
  show "laid_out demo_gc demo_ext (fst (rg_reset (Rg demo_ext) r h)) []" for r h
    by (simp add: laid_out_def master_fn_def layout_regions_def)
  show "laid_out demo_gc demo_ext (fst (rg_make (Rg demo_ext) i l nt b h)) []" for i l nt b h
    by (simp add: laid_out_def master_fn_def layout_regions_def)
qed (use byte_freed in simp)

lemma demo_full_chained:
  "chained demo_gc demo_ext ring_items layout_area layout_room demo_territory (\<lambda>i. if i = 1 then [(2054, 23)] else []) {} {64} demo_full"
proof -
  let ?Ch = "\<lambda>i :: u32. if i = 1 then [(2054 :: addr, 23 :: u16)] else []"
  have objs: "laid_objects ?Ch {#0, 1#} = {(2054, 23)}" by (auto simp: laid_objects_def)
  have "sized_chain demo_gc demo_ext (2048 + of_nat 30) (2048 + of_nat kObjectPos) [(2054, 23)]"
    by (simp add: kObjectPos_def kHeaderSize_def demo_gc_def)
  then have "laid_out demo_gc demo_ext demo_used [(2054, 23)]" by (subst layout_laid_out) (simp_all add: kObjectPos_def kHeaderSize_def)
  moreover have "laid_out demo_gc demo_ext (demo_region 0) []"
    by (subst layout_laid_out) (simp_all add: demo_region_def layout_regions_def)
  ultimately have "laid demo_gc demo_ext layout_area ?Ch r" if "r = demo_region 0 \<or> r = demo_used" for r
    using that demo_used_bytes(1) by (auto simp: laid_def chunk_def)
  then have "all_valid layout_regions ring_items (laid demo_gc demo_ext layout_area ?Ch) (demo_rm [demo_region 0] [demo_used] [])"
    unfolding all_valid_def using demo_full_owned by blast
  moreover have "space_ok layout_regions ring_items layout_area layout_room demo_territory (addr_range 2054 23) (demo_rm [demo_region 0] [demo_used] [])"
    using demo_full_inv demo_full_object(5) by (simp add: store_inv_def)
  moreover have "kept_object demo_ext {64} demo_full (2054, 23)"
    using demo_owned_object(1,2,4,5) demo_full_object(1,2) by (simp add: kept_object_def placed_def kHeaderSize_def kSize_val)
  moreover have "accounted demo_ext {(2054, 23)} {} {64} demo_full"
    using demo_owned_object(2) demo_full_object(2) by (simp add: accounted_def)
  ultimately show ?thesis by (simp add: chained_def Let_def demo_full_ids objs chunk_def)
qed

end
