(* ===== verification/Fm_Store.thy ===== *)
theory Fm_Store
  imports Fm_Collect
begin

text \<open>
  The manager as an object store. The abstract store is a map from pointers to values; the
  manager, with its two region managers, its caches, its device and its collector, refines
  it: every run of its operations is a run of the store.
\<close>

section \<open>The abstract store\<close>

text \<open>A value is the data structure, the id and the data of an object.\<close>

type_synonym store = "addr \<rightharpoonup> u8 \<times> u8 list \<times> u8 list"

datatype store_op = Fetch addr | Create addr u8 u16 "u8 list option" | Resize addr u16 "u8 list" | Collect | Run_Collector

definition key_used :: "store \<Rightarrow> u8 \<times> u8 list \<Rightarrow> bool" where
  "key_used A k \<longleftrightarrow> (\<exists>v \<in> ran A. (fst v, fst (snd v)) = k)"

text \<open>
  A step and the result it reports. Fetching and collecting change nothing; a new object has
  an id that no other object of its data structure has; resizing replaces the data, and
  gives a plain pointer a new id; whatever fails changes nothing.
\<close>

inductive store_step :: "u8 \<Rightarrow> store \<Rightarrow> store_op \<Rightarrow> bool \<Rightarrow> store \<Rightarrow> bool" for plain :: u8 where
  fetch: "A p \<noteq> None \<Longrightarrow> store_step plain A (Fetch p) True A"
| create: "A p = None \<Longrightarrow> length bs = unat item \<Longrightarrow> id_given oid oidb \<Longrightarrow> \<not> key_used A (ds, oidb) \<Longrightarrow>
    store_step plain A (Create p ds item oid) True (A(p \<mapsto> (ds, oidb, bs)))"
| create_full: "A p = None \<Longrightarrow> store_step plain A (Create p ds item oid) False A"
| resize: "A p = Some (ds, oidb, bs) \<Longrightarrow> ds \<noteq> plain \<longrightarrow> oidb' = oidb \<Longrightarrow> \<not> key_used (A(p := None)) (ds, oidb') \<Longrightarrow>
    store_step plain A (Resize p item buf) True (A(p \<mapsto> (ds, oidb', take (unat item) buf)))"
| resize_full: "A p \<noteq> None \<Longrightarrow> store_step plain A (Resize p item buf) False A"
| collect: "store_step plain A Collect True A"
| run_collector: "store_step plain A Run_Collector True A"

inductive store_trace :: "u8 \<Rightarrow> store \<Rightarrow> (store_op \<times> bool) list \<Rightarrow> store \<Rightarrow> bool" for plain :: u8 where
  stop: "store_trace plain A [] A"
| go: "store_step plain A op ok A1 \<Longrightarrow> store_trace plain A1 tr A' \<Longrightarrow> store_trace plain A ((op, ok) # tr) A'"

section \<open>The manager's operations\<close>

text \<open>
  One operation of the manager and what it reports. \<open>Collect\<close> is one round of the collector, over
  the regions it picks: other threads run between the rounds of a collection.
  \<open>Run_Collector\<close> is the whole collector thread, with as many rounds as it takes.
\<close>

fun run_op :: "('q, 'd) gc_ext \<Rightarrow> ('q, 'd) ext \<Rightarrow> store_op \<Rightarrow> ('q, 'd) fm_state \<Rightarrow> (fm_error + (bool \<times> ('q, 'd) fm_state)) option" where
  "run_op G E (Fetch p) s = and_then (swap_in E False p s) (\<lambda>s. Some (Inr (True, s)))"
| "run_op G E (Create p ds item oid) s = allocate_generic_unique_ptr_nb E p ds item oid s"
| "run_op G E (Resize p item buf) s = reallocate_generic_unique_ptr_nb E p item buf s"
| "run_op G E Collect s = and_then (gc_round G E False (pick_from_regions G E s)) (\<lambda>s. Some (Inr (True, s)))"
| "run_op G E Run_Collector s = and_then (gc_thread G E s) (\<lambda>s. Some (Inr (True, s)))"

text \<open>The pointers that have an object.\<close>

fun live_after :: "store_op \<Rightarrow> bool \<Rightarrow> addr set \<Rightarrow> addr set" where
  "live_after (Create p ds item oid) ok Q = (if ok then insert p Q else Q)"
| "live_after op ok Q = Q"

definition store_of :: "('q, 'd) ext \<Rightarrow> ('d \<Rightarrow> u8 \<times> u8 list \<Rightarrow> u8 list option) \<Rightarrow> addr set \<Rightarrow> ('q, 'd) fm_state \<Rightarrow> store" where
  "store_of E contents Q s = (\<lambda>p. if p \<in> Q then value_of E contents s p else None)"

text \<open>
  When an operation may be called. Fetching finds its object in the cache or has room for it
  without waiting for a collection, which is an operation of its own here; a creation names a
  new pointer, not null, and an unused id of 8 bytes unless the pointer is plain; a resize
  finds its object in the cache; the collector may always run.
\<close>

definition has_room :: "('q, 'd) ext \<Rightarrow> ('q \<Rightarrow> Region list) \<Rightarrow> u16 \<Rightarrow> ('q, 'd) fm_state \<Rightarrow> bool" where
  "has_room E items sz s \<longleftrightarrow>
     fst (rg_allocate_object (Rg E) sz (get_slot (cache_region_manager s) (cur_slot s False)) (heap s)) \<noteq> None
     \<or> (\<exists>x xs. items (free_regions (cache_region_manager s)) = x # xs \<and> (\<forall>h. fst (rg_allocate_object (Rg E) sz x h) \<noteq> None))"

fun op_ok :: "('q, 'd) ext \<Rightarrow> ('q \<Rightarrow> Region list) \<Rightarrow> ('d \<Rightarrow> u8 \<times> u8 list \<Rightarrow> u8 list option) \<Rightarrow>
   addr set \<Rightarrow> ('q, 'd) fm_state \<Rightarrow> store_op \<Rightarrow> bool" where
  "op_ok E items contents Q s (Fetch p) \<longleftrightarrow>
     p \<in> Q \<and> (present E s p \<or> has_room E items (pt_get_object_size (Pt E) (metas s p)) s)"
| "op_ok E items contents Q s (Create p ds item oid) \<longleftrightarrow>
     p \<notin> Q \<and> p \<noteq> 0 \<and> ob_kHeaderSize (Ob E) + unat item + 8 < 2 ^ 16
   \<and> (case oid of None \<Rightarrow> ds = kVanillaPtrDSID E
      | Some i \<Rightarrow> (\<exists>r < 2 ^ 38. i = u64_bytes r) \<and> \<not> key_used (store_of E contents Q s) (ds, i) \<and> ds \<noteq> kVanillaPtrDSID E)"
| "op_ok E items contents Q s (Resize p item buf) \<longleftrightarrow>
     p \<in> Q \<and> present E s p \<and> deref_fn E p s = Some (Inr s)
   \<and> ob_kHeaderSize (Ob E) + unat item + 8 < 2 ^ 16 \<and> unat item \<le> length buf"
| "op_ok E items contents Q s Collect \<longleftrightarrow> True"
| "op_ok E items contents Q s Run_Collector \<longleftrightarrow> True"

inductive manager_trace :: "('q, 'd) gc_ext \<Rightarrow> ('q, 'd) ext \<Rightarrow> ('q \<Rightarrow> Region list) \<Rightarrow> ('d \<Rightarrow> u8 \<times> u8 list \<Rightarrow> u8 list option) \<Rightarrow>
   addr set \<Rightarrow> ('q, 'd) fm_state \<Rightarrow> (store_op \<times> bool) list \<Rightarrow> addr set \<Rightarrow> ('q, 'd) fm_state \<Rightarrow> bool"
  for G E items contents where
  stop: "manager_trace G E items contents Q s [] Q s"
| go: "op_ok E items contents Q s op \<Longrightarrow> run_op G E op s = Some (Inr (ok, s1)) \<Longrightarrow>
    manager_trace G E items contents (live_after op ok Q) s1 tr Q' s' \<Longrightarrow>
    manager_trace G E items contents Q s ((op, ok) # tr) Q' s'"

context manager_env
begin

text \<open>The value of a well-formed pointer has an id of 38 bits and a size of 16.\<close>

lemma value_typed:
  assumes ok: "ptr_ok E contents s p" and val: "value_of E contents s p = Some v"
  shows "\<exists>ds r bs. v = (ds, u64_bytes r, bs) \<and> r < 2 ^ 38 \<and> ob_kHeaderSize (Ob E) + length bs + 8 < 2 ^ 16"
proof (cases "present E s p")
  case False
  then obtain bs where bs: "contents (device s) (pt_get_ds_id (Pt E) (metas s p), u64_bytes (pt_get_object_id (Pt E) (metas s p))) = Some bs"
      "ob_kHeaderSize (Ob E) + length bs + 8 \<le> unat (pt_get_object_size (Pt E) (metas s p))" "pt_get_object_id (Pt E) (metas s p) < 2 ^ 38"
    using ok by (auto simp: ptr_ok_def present_def Let_def)
  then have "v = (pt_get_ds_id (Pt E) (metas s p), u64_bytes (pt_get_object_id (Pt E) (metas s p)), bs)"
    using val False by (simp add: value_of_def present_def Let_def)
  moreover have "ob_kHeaderSize (Ob E) + length bs + 8 < 2 ^ 16" using le_less_trans [OF bs(2) unat_u16_less] .
  ultimately show ?thesis using bs(3) by blast
next
  case True
  let ?a = "obj_at E s p"
  have bk: "obj_backed E contents s (pt_is_dirty (Pt E) (metas s p)) ?a"
    using ok True by (simp add: ptr_ok_def present_def obj_at_def Let_def)
  then obtain r where r: "obj_id_bytes (Ob E) (heap s) ?a = u64_bytes r" "r < 2 ^ 38" and o: "obj_ok (Ob E) (heap s) ?a"
    by (auto simp: obj_backed_def)
  have v: "v = (ob_get_ds_id (Ob E) (heap s) ?a, u64_bytes r, obj_data (Ob E) (heap s) ?a)"
    using val True r(1) by (simp add: value_of_def present_def obj_at_def obj_view_def Let_def)
  have "unat (ob_size (Ob E) (heap s) ?a) = ob_kHeaderSize (Ob E) + length (obj_data (Ob E) (heap s) ?a) + 8"
    using size_view [OF o] r(1) by simp
  then have "ob_kHeaderSize (Ob E) + length (obj_data (Ob E) (heap s) ?a) + 8 < 2 ^ 16" by (metis unat_u16_less)
  then show ?thesis using v r(2) by blast
qed

end

section \<open>The relation\<close>

text \<open>
  The invariant of the cache, the account of the objects in its regions, and that of far memory: the ids of plain pointers are
  addresses that were handed out, \<open>X\<close>, and what far memory has left is apart from them.
\<close>

definition plain_ids :: "u8 \<Rightarrow> addr set \<Rightarrow> (addr \<Rightarrow> u8 \<times> u8 list \<times> u8 list) \<Rightarrow> addr set \<Rightarrow> bool" where
  "plain_ids plain X V Q \<longleftrightarrow> (\<forall>q \<in> Q. fst (V q) = plain \<longrightarrow> (\<exists>r \<in> X. fst (snd (V q)) = u64_bytes r))"

definition far_rel :: "('q, 'd) ext \<Rightarrow> ('q \<Rightarrow> Region list) \<Rightarrow> ('q \<Rightarrow> nat) \<Rightarrow> (Region \<Rightarrow> addr set) \<Rightarrow> (Region \<Rightarrow> addr set) \<Rightarrow>
   (u32 \<Rightarrow> addr set) \<Rightarrow> nat \<Rightarrow> (addr \<Rightarrow> u8 \<times> u8 list \<times> u8 list) \<Rightarrow> addr set \<Rightarrow> ('q, 'd) fm_state \<Rightarrow> bool" where
  "far_rel E items capacity area room Tf M V Q s \<longleftrightarrow> far_ok E items capacity M s
   \<and> (\<exists>X. space_ok (Rg E) items area room Tf X (far_mem_region_manager s) \<and> plain_ids (kVanillaPtrDSID E) X V Q)"

definition store_rel :: "('q, 'd) gc_ext \<Rightarrow> ('q, 'd) ext \<Rightarrow> ('q \<Rightarrow> Region list) \<Rightarrow> ('q \<Rightarrow> nat) \<Rightarrow> ('d \<Rightarrow> u8 \<times> u8 list \<Rightarrow> u8 list option) \<Rightarrow>
   (Region \<Rightarrow> addr set) \<Rightarrow> (Region \<Rightarrow> addr set) \<Rightarrow> (u32 \<Rightarrow> addr set) \<Rightarrow> (u32 \<Rightarrow> addr set) \<Rightarrow> nat \<Rightarrow> nat \<Rightarrow> addr set \<Rightarrow>
   ('q, 'd) fm_state \<Rightarrow> bool" where
  "store_rel G E items capacity contents area room T Tf N M Q s \<longleftrightarrow>
     size (region_ids (Rg E) items (cache_region_manager s)) \<le> N
   \<and> (\<exists>Ch. chained G E items area room T Ch {} Q s)
   \<and> (\<exists>V. store_inv E items capacity contents area room T V Q N s \<and> far_rel E items capacity area room Tf M V Q s)"

lemma far_rel_frame:
  assumes "far_rel E items capacity area room Tf M V Q s" and "far_mem_region_manager s' = far_mem_region_manager s"
    and "cache_ok E items capacity N s'" and "\<And>q. q \<in> Q' \<Longrightarrow> fst (V' q) = kVanillaPtrDSID E \<Longrightarrow> q \<in> Q \<and> V' q = V q"
  shows "far_rel E items capacity area room Tf M V' Q' s'"
  using assms unfolding far_rel_def far_ok_def cache_ok_def plain_ids_def by metis

lemma inv_store_of:
  assumes "store_inv E items capacity contents area room T V Q N s"
  shows "store_of E contents Q s = (\<lambda>p. if p \<in> Q then Some (V p) else None)" and "cache_ok E items capacity N s"
  using assms by (auto simp: store_of_def store_inv_def in_use_def stored_def fun_eq_iff)

locale store_manager = chain_env E items capacity contents area room T G +
  far: far_space E items capacity contents area room Tf
  for E :: "('q, 'd) ext" and items capacity contents area room T G Tf +
  assumes plain_id_size: "kVanillaPtrObjectIDSize E = 8"
    and yield_idle: "thread_yield G t = t"
begin

abbreviation rel :: "nat \<Rightarrow> nat \<Rightarrow> addr set \<Rightarrow> ('q, 'd) fm_state \<Rightarrow> bool" where
  "rel N M Q s \<equiv> store_rel G E items capacity contents area room T Tf N M Q s"

abbreviation plain :: u8 where
  "plain \<equiv> kVanillaPtrDSID E"

text \<open>An id drawn from far memory is no other plain pointer's, and has left far memory for good.\<close>

lemma drawn_fresh:
  assumes f: "far_rel E items capacity area room Tf M V Q s" and d: "far_drawn E sz oidb s s'" and sz: "0 < unat sz"
    and V': "\<And>q. q \<in> Q' \<Longrightarrow> fst (V' q) = plain \<Longrightarrow> q \<in> Q \<and> V' q = V q \<or> fst (snd (V' q)) = oidb"
  shows "\<exists>r < 2 ^ 38. oidb = u64_bytes r" and "(plain, oidb) \<notin> key V ` Q" and "far_rel E items capacity area room Tf M V' Q' s'"
proof -
  obtain X where X: "far.space X s" "plain_ids plain X V Q" and ok: "far_ok E items capacity M s"
    using f by (auto simp: far_rel_def)
  obtain r where r: "oidb = u64_bytes r" "r < 2 ^ 38" "r \<notin> X" "far.space (X \<union> addr_range r (unat sz)) s'"
      "r \<in> addr_range r (unat sz)" "far_ok E items capacity M s'"
    by (rule far.drawn_space [OF d ok X(1) sz])
  show "\<exists>r < 2 ^ 38. oidb = u64_bytes r" using r(1,2) by blast
  show "(plain, oidb) \<notin> key V ` Q"
  proof
    assume "(plain, oidb) \<in> key V ` Q"
    then obtain q where "q \<in> Q" "fst (V q) = plain" "fst (snd (V q)) = oidb" by (auto simp: key_def)
    then obtain r' where "r' \<in> X" "u64_bytes r = u64_bytes r'" using X(2) r(1) unfolding plain_ids_def by metis
    then show False using r(3) by simp
  qed
  have "plain_ids plain (X \<union> addr_range r (unat sz)) V' Q'" unfolding plain_ids_def
  proof (intro ballI impI)
    fix q
    assume q: "q \<in> Q'" "fst (V' q) = plain"
    show "\<exists>r' \<in> X \<union> addr_range r (unat sz). fst (snd (V' q)) = u64_bytes r'"
      using V' [OF q]
    proof
      assume "q \<in> Q \<and> V' q = V q"
      then show ?thesis using X(2) q(2) unfolding plain_ids_def by (metis UnI1)
    next
      assume "fst (snd (V' q)) = oidb"
      then show ?thesis using r(1,5) by (intro bexI [of _ r]) simp_all
    qed
  qed
  then show "far_rel E items capacity area room Tf M V' Q' s'" using r(4,6) by (auto simp: far_rel_def)
qed

lemma relE:
  assumes "rel N M Q s"
  obtains V Ch where "store_inv E items capacity contents area room T V Q N s" and "far_rel E items capacity area room Tf M V Q s"
    and "size (ids s) \<le> N" and "chains Ch {} Q s"
  using assms that by (auto simp: store_rel_def)

lemma relI:
  "store_inv E items capacity contents area room T V Q N s \<Longrightarrow> far_rel E items capacity area room Tf M V Q s \<Longrightarrow>
   size (ids s) \<le> N \<Longrightarrow> chains Ch {} Q s \<Longrightarrow> rel N M Q s"
  by (auto simp: store_rel_def)

lemma size_pos: "ob_kHeaderSize (Ob E) + unat item + 8 < 2 ^ 16 \<Longrightarrow> 0 < unat (total_size E item 8)"
  using total_size_fits [of item 8] by simp

section \<open>Every step\<close>

lemma fetched_chains:
  assumes ch: "chains Ch {} Q s" and ok: "cache_ok E items capacity N s" and p: "p \<in> Q" "\<not> present E s p"
    and st: "space_step E p (s\<lparr>obj_locks := l\<rparr>) s'"
  shows "\<exists>Ch'. chains Ch' {} Q s'"
proof -
  let ?t = "s\<lparr>obj_locks := l\<rparr>"
  have t: "chains Ch {} Q ?t" "cache_ok E items capacity N ?t" using ch chains_fields [of ?t s] ok by (simp_all add: cache_ok_def)
  have p0: "p \<noteq> 0" using chainsD(4) [OF ch] p(1) by metis
  have "\<not> owned_by (Ob E) (heap ?t) (fst x) p" if "x \<in> laid_objects Ch (ids ?t)" for x
    using unowned [OF ch, of x p] that p(2) by simp
  from step_chains(1) [OF t st p0 this p(1)] show ?thesis .
qed

lemma rel_fetch:
  assumes rel: "rel N M Q s" and ok: "op_ok E items contents Q s (Fetch p)"
  shows "\<exists>s'. swap_in E False p s = Some (Inr s') \<and> rel N M Q s' \<and> store_of E contents Q s' = store_of E contents Q s"
proof -
  obtain V Ch where inv: "store_inv E items capacity contents area room T V Q N s" and f: "far_rel E items capacity area room Tf M V Q s"
      and N: "size (ids s) \<le> N" and ch: "chains Ch {} Q s"
    using rel by (rule relE)
  have l: "obj_locks s = {}" using inv by (simp add: store_inv_def in_use_def)
  then have lock: "lock_wait E oid s = Some s" for oid by (rule lock_free)
  show ?thesis
  proof (cases "present E s p")
    case True
    have "s\<lparr>obj_locks := {}\<rparr> = s" using l by (metis fm_state.surjective fm_state.update_convs(7))
    then have "swap_in E False p s = Some (Inr s)"
      using True lock l by (simp add: swap_in_def lock_object_def unlock_object_def present_def Let_def)
    then show ?thesis using rel by blast
  next
    case False
    have p: "p \<in> Q" and room: "has_room E items (pt_get_object_size (Pt E) (metas s p)) s" using ok False by simp_all
    note a = inv_store_of [OF inv]
    obtain s' where run: "swap_in E False p s = Some (Inr s')" "store_inv E items capacity contents area room T V Q N s'"
        "far_mem_region_manager s' = far_mem_region_manager s"
        "ids s' = ids s" "\<exists>l. space_step E p (s\<lparr>obj_locks := l\<rparr>) s'"
      using swap_in_store [OF inv p False lock room [unfolded has_room_def]] by blast
    obtain Ch' where ch': "chains Ch' {} Q s'" using fetched_chains [OF ch a(2) p False] run(5) by blast
    note a' = inv_store_of [OF run(2)]
    have "far_rel E items capacity area room Tf M V Q s'" by (rule far_rel_frame [OF f run(3) a'(2)]) simp
    from relI [OF run(2) this _ ch'] show ?thesis using run(1,4) N by (intro exI [of _ s']) (simp add: a(1) a'(1))
  qed
qed

lemma rel_collect:
  assumes rel: "rel N M Q s"
  shows "\<exists>s'. gc_round G E armed (pick_from_regions G E s) = Some (Inr s') \<and> rel N M Q s'
    \<and> store_of E contents Q s' = store_of E contents Q s \<and> far_mem_region_manager s' = far_mem_region_manager s
    \<and> ids s' = ids s \<and> (\<forall>q \<in> Q. present E s' q \<longrightarrow> obj_bytes E s' q \<inter> picked_bytes area (pick_from_regions G E s) = {})"
proof -
  obtain V Ch where inv: "store_inv E items capacity contents area room T V Q N s" and f: "far_rel E items capacity area room Tf M V Q s"
      and N: "size (ids s) \<le> N" and ch: "chains Ch {} Q s"
    using rel by (rule relE)
  obtain s' Ch' where run: "gc_round G E armed (pick_from_regions G E s) = Some (Inr s')"
      "store_inv E items capacity contents area room T V Q N s'" "ids s' = ids s" "far_mem_region_manager s' = far_mem_region_manager s"
      "chains Ch' {} Q s'" "\<forall>q \<in> Q. present E s' q \<longrightarrow> obj_bytes E s' q \<inter> picked_bytes area (pick_from_regions G E s) = {}"
    using collect_chains [OF ch inv N, of armed] by (elim exE conjE) (rule that)
  note a = inv_store_of [OF inv] and a' = inv_store_of [OF run(2)]
  have "far_rel E items capacity area room Tf M V Q s'" by (rule far_rel_frame [OF f run(4) a'(2)]) simp
  from relI [OF run(2) this _ run(5)] show ?thesis using run(1,3,4,6) N by (intro exI [of _ s']) (simp add: a(1) a'(1))
qed

text \<open>A collector that finds nothing to collect has only moved regions in their queues.\<close>

lemma rel_pick:
  assumes rel: "rel N M Q s" and none: "from_regions (pick_from_regions G E s) = []"
  shows "rel N M Q (pick_from_regions G E s)" and "store_of E contents Q (pick_from_regions G E s) = store_of E contents Q s"
proof -
  let ?t = "pick_from_regions G E s"
  obtain V Ch where inv: "store_inv E items capacity contents area room T V Q N s" and f: "far_rel E items capacity area room Tf M V Q s"
      and N: "size (ids s) \<le> N" and ch: "chains Ch {} Q s"
    using rel by (rule relE)
  have cok: "cache_ok E items capacity N s" using inv by (simp add: store_inv_def)
  note ps = pick_store [OF inv N] and pc = pick_chains [OF ch cok N]
  note a = inv_store_of [OF inv] and a' = inv_store_of [OF ps(1)]
  have "far_rel E items capacity area room Tf M V Q ?t" by (rule far_rel_frame [OF f ps(4) a'(2)]) simp
  moreover have "chains Ch {} Q ?t" using pc(6) none by (simp add: picked_bytes_def)
  moreover have "size (ids ?t) \<le> N" using ps(3) none N by simp
  ultimately show "rel N M Q ?t" using relI [OF ps(1)] by blast
  show "store_of E contents Q ?t = store_of E contents Q s" by (simp add: a(1) a'(1))
qed

text \<open>The flags of the collector do not matter.\<close>

lemma rel_fields:
  assumes rel: "rel N M Q s" and f: "metas s' = metas s" "heap s' = heap s" "device s' = device s" "obj_locks s' = obj_locks s"
    "evac_notifiers s' = evac_notifiers s" "copy_notifiers s' = copy_notifiers s" "cur_slot s' = cur_slot s"
    "cache_region_manager s' = cache_region_manager s" "far_mem_region_manager s' = far_mem_region_manager s"
  shows "rel N M Q s'" and "store_of E contents Q s' = store_of E contents Q s"
proof -
  obtain V Ch where inv: "store_inv E items capacity contents area room T V Q N s" and fr: "far_rel E items capacity area room Tf M V Q s"
      and N: "size (ids s) \<le> N" and ch: "chains Ch {} Q s"
    using rel by (rule relE)
  have use: "in_use E contents V Q (live_bytes E Q s) s" using inv by (simp add: store_inv_def)
  note u = in_use_frame [OF use f(1,3-6), unfolded f(2), OF refl]
  have cok: "cache_ok E items capacity N s'" using inv f by (simp add: store_inv_def cache_ok_def)
  have inv': "store_inv E items capacity contents area room T V Q N s'" using inv cok u(1,5) f(8) by (simp add: store_inv_def)
  have "far_rel E items capacity area room Tf M V Q s'" by (rule far_rel_frame [OF fr f(9) cok]) simp
  from relI [OF inv' this] show "rel N M Q s'" using N ch f chains_fields [of s' s] by simp
  show "store_of E contents Q s' = store_of E contents Q s" by (simp add: inv_store_of(1) [OF inv] inv_store_of(1) [OF inv'])
qed

lemma rel_gc_loop:
  assumes run: "gc_loop G E armed s = Some y" and rel: "rel N M Q s"
  shows "\<exists>b s'. y = Inr (b, s') \<and> rel N M Q s' \<and> store_of E contents Q s' = store_of E contents Q s"
proof -
  have "G' = G \<longrightarrow> E' = E \<longrightarrow> rel N M Q s \<longrightarrow> (\<exists>b s'. y = Inr (b, s') \<and> rel N M Q s' \<and> store_of E contents Q s' = store_of E contents Q s)"
    if "gc_loop G' E' armed s = Some y" for G' E' armed s y
  proof (rule gc_loop.raw_induct [OF _ that], goal_cases)
    case (1 f G' E' armed s y)
    show ?case
    proof (intro impI)
      assume G: "G' = G" and E: "E' = E" and rel: "rel N M Q s"
      let ?t = "pick_from_regions G E s"
      show "\<exists>b s'. y = Inr (b, s') \<and> rel N M Q s' \<and> store_of E contents Q s' = store_of E contents Q s"
      proof (cases "is_free_cache_high G s")
        case True
        then show ?thesis using 1(2) G rel by auto
      next
        case low: False
        show ?thesis
        proof (cases "from_regions ?t = []")
          case True
          then have "f G E armed ?t = Some y" using 1(2) low G E yield_idle by (simp add: Let_def)
          from 1(1) [OF this] rel_pick [OF rel True] show ?thesis by simp
        next
          case False
          obtain s1 where s1: "gc_round G E armed ?t = Some (Inr s1)" "rel N M Q s1" "store_of E contents Q s1 = store_of E contents Q s"
            using rel_collect [OF rel, of armed] by blast
          then have "f G E False s1 = Some y" using 1(2) low False G E by (simp add: Let_def)
          from 1(1) [OF this] s1(2,3) show ?thesis by simp
        qed
      qed
    qed
  qed
  then show ?thesis using assms by blast
qed

lemma rel_run_collector:
  assumes run: "gc_thread G E s = Some y" and rel: "rel N M Q s"
  shows "\<exists>s'. y = Inr s' \<and> rel N M Q s' \<and> store_of E contents Q s' = store_of E contents Q s"
proof -
  let ?s = "(preempt_disable (s\<lparr>pending_gcs := pending_gcs s + 1\<rparr>))\<lparr>self_th_status := GC G\<rparr>"
  have same: "rel N M Q u \<and> store_of E contents Q u = store_of E contents Q v"
    if "rel N M Q v" "metas u = metas v" "heap u = heap v" "device u = device v" "obj_locks u = obj_locks v"
    "evac_notifiers u = evac_notifiers v" "copy_notifiers u = copy_notifiers v" "cur_slot u = cur_slot v"
    "cache_region_manager u = cache_region_manager v" "far_mem_region_manager u = far_mem_region_manager v" for u v
    using rel_fields [OF that] by blast
  have idle: "rel N M Q (u\<lparr>pending_gcs := k\<rparr>) \<and> store_of E contents Q (u\<lparr>pending_gcs := k\<rparr>) = store_of E contents Q s"
    if "u = reset_guard True ?s" for u k
    unfolding that by (rule same [OF rel]) (simp_all add: reset_guard_def preempt_enable_def preempt_disable_def)
  have start: "rel N M Q (?s\<lparr>gc_master_active := True\<rparr>) \<and> store_of E contents Q (?s\<lparr>gc_master_active := True\<rparr>) = store_of E contents Q s"
    by (rule same [OF rel]) (simp_all add: preempt_disable_def)
  show ?thesis
  proof (cases "\<not> is_free_cache_low G ?s \<or> gc_master_active ?s")
    case True
    then have "gc_cache G E (s\<lparr>pending_gcs := pending_gcs s + 1\<rparr>) = Some (Inr (reset_guard True ?s))"
      by (auto simp: gc_cache_def Let_def)
    then show ?thesis using run idle [OF refl] by (auto simp: gc_thread_def)
  next
    case False
    then have c: "gc_cache G E (s\<lparr>pending_gcs := pending_gcs s + 1\<rparr>)
        = and_then (gc_loop G E True (?s\<lparr>gc_master_active := True\<rparr>)) (\<lambda>(armed, s).
           Some (Inr (reset_guard armed (stop_prioritizing s\<lparr>gc_master_spawned := False, gc_master_active := False\<rparr>))))"
      by (simp add: gc_cache_def Let_def)
    obtain z where z: "gc_loop G E True (?s\<lparr>gc_master_active := True\<rparr>) = Some z"
      using run c by (cases "gc_loop G E True (?s\<lparr>gc_master_active := True\<rparr>)") (auto simp: gc_thread_def)
    obtain b t where t: "z = Inr (b, t)" "rel N M Q t" "store_of E contents Q t = store_of E contents Q s"
      using rel_gc_loop [OF z conjunct1 [OF start]] start by auto
    let ?t = "reset_guard b (stop_prioritizing t\<lparr>gc_master_spawned := False, gc_master_active := False\<rparr>)"
    have "y = Inr (?t\<lparr>pending_gcs := pending_gcs ?t - 1\<rparr>)" using run c z t(1) by (simp add: gc_thread_def)
    moreover have "rel N M Q (?t\<lparr>pending_gcs := pending_gcs ?t - 1\<rparr>)
        \<and> store_of E contents Q (?t\<lparr>pending_gcs := pending_gcs ?t - 1\<rparr>) = store_of E contents Q t"
      by (rule same [OF t(2)]) (simp_all add: reset_guard_def preempt_enable_def stop_prioritizing_def)
    ultimately show ?thesis using t(3) by auto
  qed
qed

text \<open>The store after one pointer got a value.\<close>

lemma store_of_upd:
  assumes "store_inv E items capacity contents area room T V Q N s" and "store_inv E items capacity contents area room T (V(p := v)) (insert p Q) N s'"
  shows "store_of E contents (insert p Q) s' = (store_of E contents Q s)(p \<mapsto> v)"
  using inv_store_of(1) [OF assms(1)] inv_store_of(1) [OF assms(2)] by (auto simp: fun_eq_iff)

lemma key_used_of:
  assumes "store_inv E items capacity contents area room T V Q N s"
  shows "key_used ((store_of E contents Q s)(p := None)) k \<longleftrightarrow> k \<in> key V ` (Q - {p})"
    and "key_used (store_of E contents Q s) k \<longleftrightarrow> k \<in> key V ` Q"
proof -
  have used: "key_used (\<lambda>q. if q \<in> S then Some (V q) else None) k \<longleftrightarrow> k \<in> key V ` S" for S
  proof -
    have "ran (\<lambda>q. if q \<in> S then Some (V q) else None) = V ` S" by (force simp: ran_def image_iff)
    then have "key_used (\<lambda>q. if q \<in> S then Some (V q) else None) k \<longleftrightarrow> (\<exists>v \<in> V ` S. (fst v, fst (snd v)) = k)"
      by (simp only: key_used_def)
    also have "\<dots> \<longleftrightarrow> (\<exists>q \<in> S. (fst (V q), fst (snd (V q))) = k)" by (rule Set.bex_simps)
    also have "\<dots> \<longleftrightarrow> k \<in> key V ` S" unfolding image_iff key_def by (rule bex_cong) (rule refl, rule eq_commute)
    finally show ?thesis .
  qed
  note a = inv_store_of(1) [OF assms]
  have "(store_of E contents Q s)(p := None) = (\<lambda>q. if q \<in> Q - {p} then Some (V q) else None)"
    unfolding a by (rule ext) simp
  then show "key_used ((store_of E contents Q s)(p := None)) k \<longleftrightarrow> k \<in> key V ` (Q - {p})"
    using used [of "Q - {p}"] by (simp only:)
  show "key_used (store_of E contents Q s) k \<longleftrightarrow> k \<in> key V ` Q" unfolding a by (rule used)
qed

lemma rel_create:
  assumes rel: "rel N M Q s" and ok: "op_ok E items contents Q s (Create p ds item oid)"
    and run: "allocate_generic_unique_ptr_nb E p ds item oid s = Some y"
  shows "\<exists>b s'. y = Inr (b, s') \<and> rel N M (live_after (Create p ds item oid) b Q) s'
    \<and> store_step plain (store_of E contents Q s) (Create p ds item oid) b (store_of E contents (live_after (Create p ds item oid) b Q) s')"
proof -
  obtain V Ch where inv: "store_inv E items capacity contents area room T V Q N s" and f: "far_rel E items capacity area room Tf M V Q s"
      and N: "size (ids s) \<le> N" and ch: "chains Ch {} Q s"
    using rel by (rule relE)
  have p: "p \<notin> Q" "p \<noteq> 0" and fit: "ob_kHeaderSize (Ob E) + unat item + 8 < 2 ^ 16" using ok by simp_all
  have len: "id_len_of E oid = 8" using ok plain_id_size by (auto simp: id_len_of_def split: option.splits)
  have fok: "far_ok E items capacity M s" using f by (simp add: far_rel_def)
  obtain b s' where y: "y = Inr (b, s')" and same: "ids s' = ids s"
      and grow: "if b then 0 < unat item + 8 \<longrightarrow> object_step E p s s' else nothing_drawn E s s' \<and> metas s' = metas s"
      and res: "if b then \<exists>oidb bs. id_from E oid (total_size E item 8) oidb s s'
           \<and> value_of E contents s' p = Some (ds, oidb, bs) \<and> length bs = unat item
           \<and> ((\<exists>r < 2 ^ 38. oidb = u64_bytes r) \<and> (ds, oidb) \<notin> key V ` Q \<longrightarrow>
             store_inv E items capacity contents area room T (V(p := (ds, oidb, bs))) (insert p Q) N s')
       else far_mem_region_manager s' = far_mem_region_manager s \<and> store_inv E items capacity contents area room T V Q N s'"
    using create_store [OF inv fok p(1) _ _ plain_id_size run, unfolded len, OF fit, simplified] by (elim exE conjE) (rule that, assumption+)
  have cok: "cache_ok E items capacity N s" using inv by (simp add: store_inv_def)
  have ch': "\<exists>Ch'. chains Ch' {} (if b then insert p Q else Q) s'"
  proof (cases b)
    case True
    then obtain n a where g: "space_drawn E n a s s'" "settled E n a p s'" "object_step E p s s'" using grow by (auto simp: object_step_def)
    have "\<not> owned_by (Ob E) (heap s) (fst x) p" if "x \<in> laid_objects Ch (ids s)" for x using unowned [OF ch that] p(1) by blast
    from step_chains(3) [OF ch cok object_step_space [OF g(3)] p(2) this g(1,2)] show ?thesis using True by simp
  next
    case False
    then have "nothing_drawn E s s'" "metas s' = metas s" using grow by simp_all
    then have "chains Ch {} Q s'" using undrawn_chains [OF ch cok] by simp
    then show ?thesis using False by auto
  qed
  have none: "store_of E contents Q s p = None" using p by (simp add: store_of_def)
  show ?thesis
  proof (cases b)
    case False
    then have s': "far_mem_region_manager s' = far_mem_region_manager s" "store_inv E items capacity contents area room T V Q N s'"
      using res by simp_all
    have "far_rel E items capacity area room Tf M V Q s'" by (rule far_rel_frame [OF f s'(1) inv_store_of(2) [OF s'(2)]]) simp
    then have "rel N M Q s'" using relI [OF s'(2)] N same ch' False by auto
    moreover have "store_of E contents Q s' = store_of E contents Q s" by (simp add: inv_store_of(1) [OF inv] inv_store_of(1) [OF s'(2)])
    ultimately show ?thesis using y False none by (auto intro: store_step.create_full)
  next
    case True
    then obtain oidb bs where new: "id_from E oid (total_size E item 8) oidb s s'" "length bs = unat item"
        "(\<exists>r < 2 ^ 38. oidb = u64_bytes r) \<and> (ds, oidb) \<notin> key V ` Q \<Longrightarrow>
          store_inv E items capacity contents area room T (V(p := (ds, oidb, bs))) (insert p Q) N s'"
      using res by (simp only: if_True) blast
    let ?V = "V(p := (ds, oidb, bs))"
    have id: "(\<exists>r < 2 ^ 38. oidb = u64_bytes r) \<and> (ds, oidb) \<notin> key V ` Q \<and> far_rel E items capacity area room Tf M ?V (insert p Q) s'"
    proof (cases oid)
      case None
      then have d: "far_drawn E (total_size E item 8) oidb s s'" and ds: "ds = plain" using new(1) ok by (simp_all add: id_from_def)
      have "q \<in> Q \<and> ?V q = V q \<or> fst (snd (?V q)) = oidb" if "q \<in> insert p Q" "fst (?V q) = plain" for q using that by auto
      from drawn_fresh [OF f d size_pos [OF fit] this] ds show ?thesis by blast
    next
      case (Some i)
      then have i: "oidb = i" "far_mem_region_manager s' = far_mem_region_manager s" and ds: "ds \<noteq> plain"
          and k: "\<exists>r < 2 ^ 38. i = u64_bytes r" "(ds, i) \<notin> key V ` Q"
        using new(1) ok by (auto simp: id_from_def key_used_of(2) [OF inv])
      have "store_inv E items capacity contents area room T ?V (insert p Q) N s'" using new(3) i(1) k by blast
      note cok = inv_store_of(2) [OF this]
      have "q \<in> Q \<and> ?V q = V q" if "q \<in> insert p Q" "fst (?V q) = plain" for q using that ds by (auto split: if_splits)
      from far_rel_frame [OF f i(2) cok this] k i(1) show ?thesis by blast
    qed
    then have inv': "store_inv E items capacity contents area room T ?V (insert p Q) N s'" using new(3) by blast
    have "store_step plain (store_of E contents Q s) (Create p ds item oid) True ((store_of E contents Q s)(p \<mapsto> (ds, oidb, bs)))"
      using none new(2) id_from_given [OF new(1)] id by (intro store_step.create) (simp_all add: key_used_of(2) [OF inv])
    then show ?thesis using y True id relI [OF inv'] N same ch' by (auto simp: store_of_upd [OF inv inv'])
  qed
qed

lemma rel_resize:
  fixes buf :: "u8 list"
  assumes rel: "rel N M Q s" and ok: "op_ok E items contents Q s (Resize p item buf)"
    and run: "reallocate_generic_unique_ptr_nb E p item buf s = Some y"
  shows "\<exists>b s'. y = Inr (b, s') \<and> rel N M Q s'
    \<and> store_step plain (store_of E contents Q s) (Resize p item buf) b (store_of E contents Q s')"
proof -
  obtain V Ch where inv: "store_inv E items capacity contents area room T V Q N s" and f: "far_rel E items capacity area room Tf M V Q s"
      and N: "size (ids s) \<le> N" and ch: "chains Ch {} Q s"
    using rel by (rule relE)
  have p: "p \<in> Q" "present E s p" "deref_fn E p s = Some (Inr s)" and fit: "ob_kHeaderSize (Ob E) + unat item + 8 < 2 ^ 16"
    and buf: "unat item \<le> length buf" using ok by simp_all
  have fok: "far_ok E items capacity M s" using f by (simp add: far_rel_def)
  have cok: "cache_ok E items capacity N s" and ap: "apart E Q s" using inv by (simp_all add: store_inv_def in_use_def)
  let ?ds = "fst (V p)" and ?oid = "fst (snd (V p))"
  let ?src = "if ?ds = plain then None else Some ?oid"
  obtain b s' where y: "y = Inr (b, s')" and same: "ids s' = ids s"
      and res: "if b then \<exists>oidb. id_from E ?src (total_size E item 8) oidb s s'
           \<and> ((?ds = plain \<longrightarrow> (\<exists>r < 2 ^ 38. oidb = u64_bytes r) \<and> (?ds, oidb) \<notin> key V ` (Q - {p})) \<longrightarrow>
             store_inv E items capacity contents area room T (V(p := (?ds, oidb, take (unat item) buf))) Q N s' \<and> resize_step E p s s')
       else far_mem_region_manager s' = far_mem_region_manager s \<and> store_inv E items capacity contents area room T V Q N s' \<and> nothing_drawn E s s' \<and> metas s' = metas s"
    using resize_store [OF inv p fok plain_id_size fit buf run] by (elim exE conjE) (rule that, assumption+)
  have here: "store_of E contents Q s p = Some (?ds, ?oid, snd (snd (V p)))" using p(1) by (simp add: inv_store_of(1) [OF inv])
  show ?thesis
  proof (cases b)
    case False
    then have s': "far_mem_region_manager s' = far_mem_region_manager s" "store_inv E items capacity contents area room T V Q N s'"
      using res by simp_all
    have "far_rel E items capacity area room Tf M V Q s'" by (rule far_rel_frame [OF f s'(1) inv_store_of(2) [OF s'(2)]]) simp
    moreover have "chains Ch {} Q s'" using undrawn_chains [OF ch cok] res False by auto
    ultimately have "rel N M Q s'" using relI [OF s'(2)] N same by auto
    moreover have "store_of E contents Q s' = store_of E contents Q s" by (simp add: inv_store_of(1) [OF inv] inv_store_of(1) [OF s'(2)])
    ultimately show ?thesis using y False here by (auto intro: store_step.resize_full)
  next
    case True
    then obtain oidb where new: "id_from E ?src (total_size E item 8) oidb s s'"
        "(?ds = plain \<longrightarrow> (\<exists>r < 2 ^ 38. oidb = u64_bytes r) \<and> (?ds, oidb) \<notin> key V ` (Q - {p})) \<Longrightarrow>
          store_inv E items capacity contents area room T (V(p := (?ds, oidb, take (unat item) buf))) Q N s' \<and> resize_step E p s s'"
      using res by (simp only: if_True) blast
    let ?V = "V(p := (?ds, oidb, take (unat item) buf))"
    have id: "(?ds = plain \<longrightarrow> (\<exists>r < 2 ^ 38. oidb = u64_bytes r) \<and> (?ds, oidb) \<notin> key V ` (Q - {p}))
        \<and> (?ds \<noteq> plain \<longrightarrow> oidb = ?oid) \<and> far_rel E items capacity area room Tf M ?V Q s'"
    proof (cases "?ds = plain")
      case plain: True
      then have d: "far_drawn E (total_size E item 8) oidb s s'" using new(1) by (simp add: id_from_def)
      have "q \<in> Q \<and> ?V q = V q \<or> fst (snd (?V q)) = oidb" if "q \<in> Q" "fst (?V q) = plain" for q using that by auto
      note df = drawn_fresh [OF f d size_pos [OF fit] this]
      have "(?ds, oidb) \<notin> key V ` (Q - {p})" using df(2) plain by auto
      then show ?thesis using df(1,3) plain by (simp only: simp_thms)
    next
      case other: False
      then have i: "oidb = ?oid" "far_mem_region_manager s' = far_mem_region_manager s" using new(1) by (simp_all add: id_from_def)
      have "store_inv E items capacity contents area room T ?V Q N s'" using new(2) other by blast
      note cok = inv_store_of(2) [OF this]
      have "q \<in> Q \<and> ?V q = V q" if "q \<in> Q" "fst (?V q) = plain" for q using that other by (auto split: if_splits)
      from far_rel_frame [OF f i(2) cok this] other i(1) show ?thesis by blast
    qed
    then have inv': "store_inv E items capacity contents area room T ?V Q N s'" and st: "resize_step E p s s'" using new(2) by blast+
    have p0: "p \<noteq> 0" using chainsD(4) [OF ch] p(1) by metis
    obtain Ch' where ch': "chains Ch' {} Q s'" using resize_chains [OF ch cok p(1,2) p0 ap st] by blast
    have "(?ds, oidb) \<notin> key V ` (Q - {p})"
    proof (cases "?ds = plain")
      case False
      have "inj_on (key V) Q" using inv by (simp add: store_inv_def)
      then have "key V p \<notin> key V ` (Q - {p})" using p(1) by (auto dest: inj_onD)
      then show ?thesis using id False by (simp add: key_def)
    qed (use id in blast)
    then have unused: "\<not> key_used ((store_of E contents Q s)(p := None)) (?ds, oidb)" by (simp only: key_used_of(1) [OF inv] simp_thms)
    have kept: "?ds \<noteq> plain \<longrightarrow> oidb = ?oid" using id by blast
    have "store_step plain (store_of E contents Q s) (Resize p item buf) True ((store_of E contents Q s)(p \<mapsto> (?ds, oidb, take (unat item) buf)))"
      by (rule store_step.resize [where A = "store_of E contents Q s" and p = p, OF here kept unused])
    moreover have "store_of E contents Q s' = (store_of E contents Q s)(p \<mapsto> (?ds, oidb, take (unat item) buf))"
      using store_of_upd [OF inv, of p "(?ds, oidb, take (unat item) buf)"] inv' p(1) by (simp add: insert_absorb)
    ultimately show ?thesis using y True id relI [OF inv' _ _ ch'] N same by auto
  qed
qed

theorem step_refines:
  assumes rel: "rel N M Q s" and ok: "op_ok E items contents Q s op" and run: "run_op G E op s = Some y"
  shows "\<exists>b s'. y = Inr (b, s') \<and> rel N M (live_after op b Q) s'
    \<and> store_step plain (store_of E contents Q s) op b (store_of E contents (live_after op b Q) s')"
proof (cases op)
  case (Fetch p)
  have p: "p \<in> Q" using ok Fetch by simp
  obtain V where "store_inv E items capacity contents area room T V Q N s" using rel by (auto simp: store_rel_def)
  from inv_store_of(1) [OF this] have "store_of E contents Q s p \<noteq> None" using p by simp
  then show ?thesis using rel_fetch [OF rel ok [unfolded Fetch]] run Fetch by (auto intro!: exI [of _ True] store_step.fetch)
next
  case Collect
  then show ?thesis using rel_collect [OF rel, of False] run by (auto intro!: exI [of _ True] store_step.collect)
next
  case Run_Collector
  then obtain z where z: "gc_thread G E s = Some z" using run by (cases "gc_thread G E s") auto
  then show ?thesis using rel_run_collector [OF z rel] run Run_Collector by (auto intro!: exI [of _ True] store_step.run_collector)
next
  case (Create p ds item oid)
  then show ?thesis using rel_create [OF rel ok [unfolded Create]] run by simp
next
  case (Resize p item buf)
  then show ?thesis using rel_resize [OF rel ok [unfolded Resize]] run by simp
qed

text \<open>Runs.\<close>

theorem trace_refines:
  assumes "manager_trace G E items contents Q s tr Q' s'" and "rel N M Q s"
  shows "rel N M Q' s' \<and> store_trace plain (store_of E contents Q s) tr (store_of E contents Q' s')"
  using assms
proof (induction rule: manager_trace.induct)
  case (stop Q s)
  then show ?case by (auto intro: store_trace.stop)
next
  case (go Q s op ok s1 tr Q' s')
  have "rel N M (live_after op ok Q) s1"
    and "store_step plain (store_of E contents Q s) op ok (store_of E contents (live_after op ok Q) s1)"
    using step_refines [OF go.prems go.hyps(1,2)] by auto
  then show ?case using go.IH by (auto intro: store_trace.go)
qed

end

lemma untouched_value:
  assumes "store_trace plain A tr A'" and "A p = Some v" and "\<And>item buf. (Resize p item buf, True) \<notin> set tr"
  shows "A' p = Some v"
  using assms
proof (induction rule: store_trace.induct)
  case (go A op ok A1 tr A')
  have "\<And>item buf. op = Resize p item buf \<Longrightarrow> \<not> ok" using go.prems(2) by auto
  with go.hyps(1) have "A1 p = Some v" by cases (use go.prems(1) in auto)
  then show ?case using go.IH go.prems(2) by auto
qed

section \<open>Refinement\<close>

text \<open>
  C2 (the manager refines an object store): whatever sequence of fetches, creations, resizes
  and collections runs from a state in the relation, it is a run of the abstract store, step
  by step and with the same results, the relation holds again at the end, and no operation
  that may then be called fails with an error. In particular no object is lost, changed or
  mixed up with another one, and no two plain pointers ever get the same far address.
\<close>

theorem manager_refines_store:
  assumes "store_manager E items capacity contents area room T G Tf"
    and "manager_trace G E items contents Q s tr Q' s'"
    and "store_rel G E items capacity contents area room T Tf N M Q s"
  shows "store_trace (kVanillaPtrDSID E) (store_of E contents Q s) tr (store_of E contents Q' s')
    \<and> store_rel G E items capacity contents area room T Tf N M Q' s'
    \<and> (\<forall>op e. op_ok E items contents Q' s' op \<longrightarrow> run_op G E op s' \<noteq> Some (Inl e))"
proof -
  have tr: "store_rel G E items capacity contents area room T Tf N M Q' s'"
    "store_trace (kVanillaPtrDSID E) (store_of E contents Q s) tr (store_of E contents Q' s')"
    using store_manager.trace_refines [OF assms] by blast+
  have "run_op G E op s' \<noteq> Some (Inl e)" if "op_ok E items contents Q' s' op" for op e
    using store_manager.step_refines [OF assms(1) tr(1) that] by blast
  then show ?thesis using tr by blast
qed

text \<open>
  C3 (objects persist): an object keeps its data structure, id and data through every run
  that does not resize it, wherever the run has moved it.
\<close>

theorem objects_persist:
  assumes "store_manager E items capacity contents area room T G Tf"
    and "manager_trace G E items contents Q s tr Q' s'"
    and "store_rel G E items capacity contents area room T Tf N M Q s"
    and "p \<in> Q" and "\<forall>item buf. (Resize p item buf, True) \<notin> set tr"
  shows "p \<in> Q' \<and> value_of E contents s' p = value_of E contents s p"
proof -
  obtain V where "store_inv E items capacity contents area room T V Q N s" using assms(3) by (auto simp: store_rel_def)
  from inv_store_of(1) [OF this] have v: "store_of E contents Q s p = Some (V p)" using assms(4) by simp
  have "store_trace (kVanillaPtrDSID E) (store_of E contents Q s) tr (store_of E contents Q' s')"
    using store_manager.trace_refines [OF assms(1-3)] by blast
  from untouched_value [OF this v] have "store_of E contents Q' s' p = Some (V p)" using assms(5) by blast
  then show ?thesis using v assms(4) by (auto simp: store_of_def split: if_splits)
qed

text \<open>
  C4 (reachable states are well typed): in every state a run reaches, every pointer word,
  header and device entry decodes to an object: its id has 8 bytes and 38 bits, its size
  fits 16 bits, no two objects have the same key or overlap in the cache, both region
  managers are well formed and no object is locked.
\<close>

theorem reachable_store_typed:
  assumes "store_manager E items capacity contents area room T G Tf"
    and "manager_trace G E items contents Q s tr Q' s'"
    and "store_rel G E items capacity contents area room T Tf N M Q s"
  shows "(\<forall>q \<in> Q'. ptr_ok E contents s' q \<and> (\<exists>ds r bs. value_of E contents s' q = Some (ds, u64_bytes r, bs) \<and> r < 2 ^ 38
        \<and> ob_kHeaderSize (Ob E) + length bs + 8 < 2 ^ 16))
    \<and> apart E Q' s'
    \<and> (\<forall>q \<in> Q'. \<forall>q' \<in> Q'. q \<noteq> q' \<longrightarrow> (\<forall>ds oid bs bs'. \<not> (value_of E contents s' q = Some (ds, oid, bs) \<and> value_of E contents s' q' = Some (ds, oid, bs'))))
    \<and> cache_ok E items capacity N s' \<and> far_ok E items capacity M s' \<and> obj_locks s' = {}"
proof -
  have "store_rel G E items capacity contents area room T Tf N M Q' s'" using store_manager.trace_refines [OF assms] by blast
  then obtain V where inv: "store_inv E items capacity contents area room T V Q' N s'" and f: "far_ok E items capacity M s'"
    by (auto simp: store_rel_def far_rel_def)
  have st: "ptr_ok E contents s' q" "value_of E contents s' q = Some (V q)" if "q \<in> Q'" for q
    using inv that by (simp_all add: store_inv_def in_use_def stored_def)
  have env: "manager_env E items capacity contents"
    using assms(1) by (simp add: store_manager_def chain_env_def object_store_def cache_space_def)
  have typed: "\<exists>ds r bs. value_of E contents s' q = Some (ds, u64_bytes r, bs) \<and> r < 2 ^ 38 \<and> ob_kHeaderSize (Ob E) + length bs + 8 < 2 ^ 16"
    if "q \<in> Q'" for q
    using manager_env.value_typed [OF env st [OF that]] st(2) [OF that] by auto
  have "\<not> (value_of E contents s' q = Some (ds, oid, bs) \<and> value_of E contents s' q' = Some (ds, oid, bs'))"
    if "q \<in> Q'" "q' \<in> Q'" "q \<noteq> q'" for q q' ds oid bs bs'
  proof
    assume "value_of E contents s' q = Some (ds, oid, bs) \<and> value_of E contents s' q' = Some (ds, oid, bs')"
    then have "key V q = key V q'" using st(2) [OF that(1)] st(2) [OF that(2)] by (simp add: key_def)
    moreover have "inj_on (key V) Q'" using inv by (simp add: store_inv_def)
    ultimately show False using that by (auto dest: inj_onD)
  qed
  then show ?thesis using st(1) typed inv f by (simp add: store_inv_def in_use_def)
qed

text \<open>
  C5 (every reachable state can be collected): in every state a run reaches, a round of the
  collector, over whatever regions it picks, returns: it loses no region, leaves no object in
  the regions it empties, keeps every value, and ends in the relation again.
\<close>

theorem reachable_store_collectable:
  assumes "store_manager E items capacity contents area room T G Tf"
    and "manager_trace G E items contents Q s tr Q' s'"
    and "store_rel G E items capacity contents area room T Tf N M Q s"
  shows "\<exists>s2. gc_round G E armed (pick_from_regions G E s') = Some (Inr s2)
    \<and> region_ids (Rg E) items (cache_region_manager s2) = region_ids (Rg E) items (cache_region_manager s')
    \<and> (\<forall>q \<in> Q'. present E s2 q \<longrightarrow> obj_bytes E s2 q \<inter> picked_bytes area (pick_from_regions G E s') = {})
    \<and> (\<forall>q \<in> Q'. value_of E contents s2 q = value_of E contents s' q)
    \<and> store_rel G E items capacity contents area room T Tf N M Q' s2"
proof -
  have rel: "store_rel G E items capacity contents area room T Tf N M Q' s'" using store_manager.trace_refines [OF assms] by blast
  obtain s2 where s2: "gc_round G E armed (pick_from_regions G E s') = Some (Inr s2)"
      "store_rel G E items capacity contents area room T Tf N M Q' s2" "store_of E contents Q' s2 = store_of E contents Q' s'"
      "region_ids (Rg E) items (cache_region_manager s2) = region_ids (Rg E) items (cache_region_manager s')"
      "\<forall>q \<in> Q'. present E s2 q \<longrightarrow> obj_bytes E s2 q \<inter> picked_bytes area (pick_from_regions G E s') = {}"
    using store_manager.rel_collect [OF assms(1) rel, of armed] by blast
  have "value_of E contents s2 q = value_of E contents s' q" if "q \<in> Q'" for q
    using fun_cong [OF s2(3), of q] that by (simp add: store_of_def)
  then show ?thesis using s2 by blast
qed

section \<open>An instance\<close>

interpretation demo_manager: store_manager demo_ext ring_items ring_cap "\<lambda>d. d" layout_area layout_room demo_territory demo_gc demo_far_territory
proof (intro store_manager.intro store_manager_axioms.intro)
  show "chain_env demo_ext ring_items ring_cap (\<lambda>d. d) layout_area layout_room demo_territory demo_gc"
    by (rule demo_chains.chain_env_axioms)
  show "far_space demo_ext ring_items ring_cap (\<lambda>d. d) layout_area layout_room demo_far_territory"
    by (rule demo_far.far_space_axioms)
qed simp_all

text \<open>Far memory has one region, of the addresses below 1024, and no plain pointer yet.\<close>

lemma demo_far_manager: "far_mem_region_manager demo_full = demo_rm [far_region 0] [] []"
  by (simp add: demo_full_def demo_owned_def demo_present_def)

lemma demo_far_alloc: "fst (rg_allocate_object layout_regions (total_size demo_ext 4 8) (far_region 0) h) \<noteq> None"
  by (simp add: total_size_def far_region_def layout_regions_def kObjectPos_def kHeaderSize_def kSize_val
      bump_size_def buf_ok_def region_base_def kInvalidIdx_def)

lemma demo_full_rel:
  "store_rel demo_gc demo_ext ring_items ring_cap (\<lambda>d. d) layout_area layout_room demo_territory demo_far_territory 50 50 {64} demo_full"
proof -
  have ids: "region_ids layout_regions ring_items (demo_rm [far_region 0] [] []) = {#0#}"
    by (simp add: region_ids_split valid_ids_default) (simp add: demo_rm_def demo_queue_items kInvalidIdx_def)
  have own: "r = far_region 0" if "\<not> rg_is_invalid layout_regions r" "r \<in># owned_regions ring_items (demo_rm [far_region 0] [] [])" for r
    using that by (auto simp: owned_regions_def core_regions_def demo_rm_def demo_queue_items)
  have "layout_area (far_region 0) \<subseteq> demo_far_territory 0"
    by (auto simp: layout_area_def addr_range_at demo_far_territory_def far_region_def layout_regions_def region_base_def
        kSize_val word_less_nat_alt)
  then have "spaced layout_area layout_room demo_far_territory {} (far_region 0)" by (simp add: spaced_def)
  then have "space_ok layout_regions ring_items layout_area layout_room demo_far_territory {} (demo_rm [far_region 0] [] [])"
    unfolding space_ok_def all_valid_def ids using own by fastforce
  moreover have "plain_ids (kVanillaPtrDSID demo_ext) {} (\<lambda>_. (5, u64_bytes 9, [1, 2, 3])) {64}" by (simp add: plain_ids_def)
  ultimately have "far_rel demo_ext ring_items ring_cap layout_area layout_room demo_far_territory 50 (\<lambda>_. (5, u64_bytes 9, [1, 2, 3])) {64} demo_full"
    unfolding far_rel_def demo_far_manager using demo_full_far by auto
  moreover have "size (region_ids (Rg demo_ext) ring_items (cache_region_manager demo_full)) \<le> 50" by (simp add: demo_full_ids)
  ultimately show ?thesis using demo_full_inv demo_full_chained by (auto simp: store_rel_def)
qed

text \<open>A collection, which moves the object of the pointer at 64, and then a new plain pointer.\<close>

lemma demo_run:
  "\<exists>ok Q' s'. manager_trace demo_gc demo_ext ring_items (\<lambda>d. d) {64} demo_full
     [(Collect, True), (Create 128 255 4 None, ok)] Q' s'"
proof -
  have c: "op_ok demo_ext ring_items (\<lambda>d. d) {64} demo_full Collect" by simp
  obtain s1 where s1: "gc_round demo_gc demo_ext False (pick_from_regions demo_gc demo_ext demo_full) = Some (Inr s1)"
      "store_rel demo_gc demo_ext ring_items ring_cap (\<lambda>d. d) layout_area layout_room demo_territory demo_far_territory 50 50 {64} s1"
      "far_mem_region_manager s1 = far_mem_region_manager demo_full"
    using demo_manager.rel_collect [OF demo_full_rel, of False] by blast
  have far: "\<exists>x xs. ring_items (free_regions (far_mem_region_manager s1)) = x # xs
      \<and> (\<forall>h. fst (rg_allocate_object (Rg demo_ext) (total_size demo_ext 4 (id_len_of demo_ext None)) x h) \<noteq> None)"
  proof -
    have "id_len_of demo_ext None = 8" by (simp add: id_len_of_def)
    then show ?thesis unfolding s1(3) demo_far_manager
      by (intro exI [of _ "far_region 0"] exI [of _ "[]"]) (use demo_far_alloc in simp)
  qed
  obtain V where "store_inv demo_ext ring_items ring_cap (\<lambda>d. d) layout_area layout_room demo_territory V {64} 50 s1"
      "far_ok demo_ext ring_items ring_cap 50 s1"
    using s1(2) by (auto simp: store_rel_def far_rel_def)
  then obtain y where y: "allocate_generic_unique_ptr_nb demo_ext 128 255 4 None s1 = Some y"
    using demo.create_returns [of 50 s1 50 None 4 128 255] far by (auto simp: store_inv_def)
  have o: "op_ok demo_ext ring_items (\<lambda>d. d) {64} s1 (Create 128 255 4 None)" by simp
  obtain ok s2 where s2: "y = Inr (ok, s2)" using demo_manager.rel_create [OF s1(2) o y] by blast
  have "manager_trace demo_gc demo_ext ring_items (\<lambda>d. d) {64} demo_full
      [(Collect, True), (Create 128 255 4 None, ok)] (live_after (Create 128 255 4 None) ok {64}) s2"
    using c s1(1) y s2 by (auto intro!: manager_trace.intros)
  then show ?thesis by blast
qed

theorem manager_refines_store_witness:
  "\<exists>tr Q' s'. length tr = 2 \<and> store_trace 255 [64 \<mapsto> (5, u64_bytes 9, [1, 2, 3])] tr (store_of demo_ext (\<lambda>d. d) Q' s')"
proof -
  obtain ok Q' s' where tr: "manager_trace demo_gc demo_ext ring_items (\<lambda>d. d) {64} demo_full
     [(Collect, True), (Create 128 255 4 None, ok)] Q' s'" using demo_run by blast
  have "store_of demo_ext (\<lambda>d. d) {64} demo_full = [64 \<mapsto> (5, u64_bytes 9, [1, 2, 3])]"
    using demo_full_object(3) by (auto simp: store_of_def fun_eq_iff)
  then show ?thesis using manager_refines_store [OF demo_manager.store_manager_axioms tr demo_full_rel]
    by (intro exI [of _ "[(Collect, True), (Create 128 255 4 None, ok)]"] exI [of _ Q'] exI [of _ s']) simp
qed

theorem objects_persist_witness:
  "\<exists>tr Q' s'. manager_trace demo_gc demo_ext ring_items (\<lambda>d. d) {64} demo_full tr Q' s' \<and> length tr = 2
    \<and> value_of demo_ext (\<lambda>d. d) s' 64 = Some (5, u64_bytes 9, [1, 2, 3])"
proof -
  obtain ok Q' s' where tr: "manager_trace demo_gc demo_ext ring_items (\<lambda>d. d) {64} demo_full
     [(Collect, True), (Create 128 255 4 None, ok)] Q' s'" using demo_run by blast
  then show ?thesis using objects_persist [OF demo_manager.store_manager_axioms tr demo_full_rel, of 64] demo_full_object(3) by fastforce
qed

theorem reachable_store_typed_witness:
  "\<exists>tr Q' s'. manager_trace demo_gc demo_ext ring_items (\<lambda>d. d) {64} demo_full tr Q' s' \<and> length tr = 2
    \<and> apart demo_ext Q' s' \<and> far_ok demo_ext ring_items ring_cap 50 s'"
proof -
  obtain ok Q' s' where tr: "manager_trace demo_gc demo_ext ring_items (\<lambda>d. d) {64} demo_full
     [(Collect, True), (Create 128 255 4 None, ok)] Q' s'" using demo_run by blast
  then show ?thesis using reachable_store_typed [OF demo_manager.store_manager_axioms tr demo_full_rel] by fastforce
qed

theorem reachable_store_collectable_witness:
  "\<exists>tr Q' s' s2. manager_trace demo_gc demo_ext ring_items (\<lambda>d. d) {64} demo_full tr Q' s' \<and> length tr = 2
    \<and> gc_round demo_gc demo_ext True (pick_from_regions demo_gc demo_ext s') = Some (Inr s2)
    \<and> (\<forall>q \<in> Q'. value_of demo_ext (\<lambda>d. d) s2 q = value_of demo_ext (\<lambda>d. d) s' q)"
proof -
  obtain ok Q' s' where tr: "manager_trace demo_gc demo_ext ring_items (\<lambda>d. d) {64} demo_full
     [(Collect, True), (Create 128 255 4 None, ok)] Q' s'" using demo_run by blast
  then show ?thesis using reachable_store_collectable [OF demo_manager.store_manager_axioms tr demo_full_rel, of True] by fastforce
qed

end
