(* ===== verification/Fm_Manager.thy ===== *)
theory Fm_Manager
  imports Fm_Gc
begin

text \<open>
  The life of the manager (\<^verbatim>\<open>aifm_changes/manager.cpp\<close>): its constructor, which starts the
  pager, its destructor, the factory that keeps the one instance, the pool of data structure
  ids, and the data structures that draw from it.
\<close>

section \<open>Construction\<close>

text \<open>
  Constants of the manager's header, the huge page allocator, the size the device reports.
  The base class of the two parallelizers keeps the number of slaves and the depth of their
  queues; the vector of regions they share is \<^verbatim>\<open>from_regions_\<close> of the manager itself.
\<close>

record build_ext =
  hugepage :: "u64 \<Rightarrow> addr"
  kGCSlaveThreadTaskQueueDepth :: u32
  kDefaultNumGCThreads :: u32
  get_far_mem_size :: u64

record Parallelizer =
  par_num_slaves :: u32
  par_task_queues_depth :: u32

definition GCParallelizer_ctor :: "u32 \<Rightarrow> u32 \<Rightarrow> Parallelizer" where
  "GCParallelizer_ctor num_slaves depth = \<lparr>par_num_slaves = num_slaves, par_task_queues_depth = depth\<rparr>"

definition GCParallelMarker_ctor :: "u32 \<Rightarrow> u32 \<Rightarrow> Parallelizer" where
  "GCParallelMarker_ctor num_slaves depth = GCParallelizer_ctor num_slaves depth"

definition GCParallelWriteBacker_ctor :: "u32 \<Rightarrow> u32 \<Rightarrow> Parallelizer" where
  "GCParallelWriteBacker_ctor num_slaves depth = GCParallelizer_ctor num_slaves depth"

record ('q, 'd) FarMemManager =
  fm :: "('q, 'd) fm_state"
  parallel_marker :: Parallelizer
  parallel_write_backer :: Parallelizer
  num_gc_threads :: u32

text \<open>The data structure ids from \<open>ds\<close> up to the one before the last.\<close>

function push_ds_ids :: "u8 \<Rightarrow> u8 \<Rightarrow> u8 list \<Rightarrow> u8 list" where
  "push_ds_ids vanilla ds ids =
     (if ds < 255 then push_ds_ids vanilla (ds + 1) (if ds \<noteq> vanilla then ids @ [ds] else ids) else ids)"
  by pat_completeness auto
termination
  by (relation "measure (\<lambda>(v, ds, ids). 255 - unat ds)") (simp_all add: word_less_nat_alt unat_word_ariths)

declare push_ds_ids.simps [simp del]

text \<open>
  \<open>s\<close> is the memory before: members without an initialiser in the constructor keep what they
  hold, the two containers start empty.
\<close>

definition FarMemManager_ctor :: "('q, 'd) ext \<Rightarrow> build_ext \<Rightarrow> u64 \<Rightarrow> u64 \<Rightarrow> u32 \<Rightarrow> ('q, 'd) fm_state \<Rightarrow> dswap \<Rightarrow>
   fm_error + (('q, 'd) FarMemManager \<times> dswap)" where
  "FarMemManager_ctor E B c_size far_mem_size n_gc_threads s st =
     (case RegionManager_ctor (Rg E) (Cb E) (hugepage B) c_size True (heap s) of
        Inl e \<Rightarrow> Inl e
      | Inr (cm, h) \<Rightarrow>
          (case RegionManager_ctor (Rg E) (Cb E) (hugepage B) far_mem_size False h of
             Inl e \<Rightarrow> Inl e
           | Inr (fmm, h) \<Rightarrow>
               (let marker = GCParallelMarker_ctor n_gc_threads (kGCSlaveThreadTaskQueueDepth B);
                    backer = GCParallelWriteBacker_ctor n_gc_threads (kGCSlaveThreadTaskQueueDepth B);
                    s = s\<lparr>heap := h, cache_region_manager := cm, far_mem_region_manager := fmm, from_regions := [], available_ds_ids := []\<rparr>
                in if push_bit kObjectIDBitSize 1 \<le> far_mem_size then Inl Bug_On
                   else (let s = s\<lparr>evac_notifiers := (\<lambda>_. 0)\<rparr>;
                             st = init_dynamic_pager c_size st;
                             s = s\<lparr>available_ds_ids := push_ds_ids (kVanillaPtrDSID E) 0 (available_ds_ids s)\<rparr>
                         in Inr (\<lparr>fm = s, parallel_marker = marker, parallel_write_backer = backer, num_gc_threads = n_gc_threads\<rparr>, st)))))"

section \<open>Destruction\<close>

partial_function (option) wait_pending_gcs :: "('q, 'd) gc_ext \<Rightarrow> ('q, 'd) fm_state \<Rightarrow> (fm_error + ('q, 'd) fm_state) option" where
  "wait_pending_gcs G s = (if pending_gcs s \<noteq> 0 then wait_pending_gcs G (thread_yield G s) else Some (Inr s))"

definition FarMemManager_dtor :: "('q, 'd) gc_ext \<Rightarrow> ('q, 'd) fm_state \<Rightarrow> dswap \<Rightarrow>
   (fm_error + (('q, 'd) fm_state \<times> dswap)) option" where
  "FarMemManager_dtor G s st =
     (let st = stop_dynamic_pager st
      in and_then (wait_pending_gcs G s) (\<lambda>s. Some (Inr (s, st))))"

section \<open>The factory\<close>

record ('q, 'd) factory =
  factory_ptr :: "('q, 'd) FarMemManager option"
  pager_state :: dswap

text \<open>The result is the pointer returned, \<open>None\<close> for \<^verbatim>\<open>nullptr\<close>.\<close>

definition build :: "('q, 'd) ext \<Rightarrow> build_ext \<Rightarrow> u64 \<Rightarrow> u32 option \<Rightarrow> ('q, 'd) fm_state \<Rightarrow> ('q, 'd) factory \<Rightarrow>
   fm_error + (('q, 'd) FarMemManager option \<times> ('q, 'd) factory)" where
  "build E B c_size optional_num_gc_threads s w =
     (if factory_ptr w \<noteq> None then Inr (None, w)
      else (let n = (case optional_num_gc_threads of Some n \<Rightarrow> n | None \<Rightarrow> kDefaultNumGCThreads B)
            in if n = 0 then Inr (None, w)
               else (case FarMemManager_ctor E B c_size (get_far_mem_size B) n s (pager_state w) of
                       Inl e \<Rightarrow> Inl e
                     | Inr (mo, st) \<Rightarrow> Inr (Some mo, \<lparr>factory_ptr = Some mo, pager_state = st\<rparr>))))"

section \<open>Data structure ids\<close>

text \<open>\<^verbatim>\<open>front()\<close> and \<^verbatim>\<open>pop()\<close> of the empty queue have no defined behaviour.\<close>

definition allocate_ds_id :: "('q, 'd) fm_state \<Rightarrow> fm_error + (u8 \<times> ('q, 'd) fm_state)" where
  "allocate_ds_id s =
     (case available_ds_ids s of [] \<Rightarrow> Inl Undefined | ds # ids \<Rightarrow> Inr (ds, s\<lparr>available_ds_ids := ids\<rparr>))"

definition free_ds_id :: "u8 \<Rightarrow> ('q, 'd) fm_state \<Rightarrow> ('q, 'd) fm_state" where
  "free_ds_id ds s = s\<lparr>available_ds_ids := available_ds_ids s @ [ds]\<rparr>"

text \<open>\<open>mk\<close> is the constructor of \<^verbatim>\<open>GenericConcurrentHopscotch\<close>.\<close>

definition allocate_concurrent_hopscotch ::
  "(u8 \<Rightarrow> u32 \<Rightarrow> u32 \<Rightarrow> u64 \<Rightarrow> ('q, 'd) fm_state \<Rightarrow> fm_error + ('h \<times> ('q, 'd) fm_state)) \<Rightarrow> u32 \<Rightarrow> u32 \<Rightarrow> u64 \<Rightarrow>
   ('q, 'd) fm_state \<Rightarrow> fm_error + ('h \<times> ('q, 'd) fm_state)" where
  "allocate_concurrent_hopscotch mk local_shift remote_shift remote_data_size s =
     (case allocate_ds_id s of Inl e \<Rightarrow> Inl e | Inr (ds, s) \<Rightarrow> mk ds local_shift remote_shift remote_data_size s)"

definition allocate_concurrent_hopscotch_heap ::
  "(u8 \<Rightarrow> u32 \<Rightarrow> u32 \<Rightarrow> u64 \<Rightarrow> ('q, 'd) fm_state \<Rightarrow> fm_error + (addr \<times> ('q, 'd) fm_state)) \<Rightarrow> u32 \<Rightarrow> u32 \<Rightarrow> u64 \<Rightarrow>
   ('q, 'd) fm_state \<Rightarrow> fm_error + (addr \<times> ('q, 'd) fm_state)" where
  "allocate_concurrent_hopscotch_heap mk local_shift remote_shift remote_data_size s =
     (case allocate_ds_id s of Inl e \<Rightarrow> Inl e | Inr (ds, s) \<Rightarrow> mk ds local_shift remote_shift remote_data_size s)"

section \<open>A pool of identifiers\<close>

text \<open>
  The contract: a queue of identifiers, taken at the front and given back at the end.
\<close>

locale id_pool =
  fixes take_id :: "'s \<Rightarrow> fm_error + ('i \<times> 's)" and give_id :: "'i \<Rightarrow> 's \<Rightarrow> 's" and avail :: "'s \<Rightarrow> 'i list"
  assumes take_Nil: "avail s = [] \<Longrightarrow> take_id s = Inl Undefined"
    and take_Cons: "avail s = x # xs \<Longrightarrow> \<exists>s'. take_id s = Inr (x, s') \<and> avail s' = xs"
    and give: "avail (give_id x s) = avail s @ [x]"

text \<open>
  The states reachable from \<open>s0\<close> when clients only give back what they hold, with the
  identifiers they hold; in between, anything may happen that leaves the pool alone.
\<close>

inductive pool_run :: "('s \<Rightarrow> fm_error + ('i \<times> 's)) \<Rightarrow> ('i \<Rightarrow> 's \<Rightarrow> 's) \<Rightarrow> ('s \<Rightarrow> 'i list) \<Rightarrow> 's \<Rightarrow> 's \<Rightarrow> 'i list \<Rightarrow> bool"
  for take_id give_id avail s0 where
  start: "pool_run take_id give_id avail s0 s0 []"
| take: "pool_run take_id give_id avail s0 s live \<Longrightarrow> take_id s = Inr (x, s') \<Longrightarrow> pool_run take_id give_id avail s0 s' (x # live)"
| give: "pool_run take_id give_id avail s0 s live \<Longrightarrow> x \<in> set live \<Longrightarrow>
    pool_run take_id give_id avail s0 (give_id x s) (remove1 x live)"
| other: "pool_run take_id give_id avail s0 s live \<Longrightarrow> avail s' = avail s \<Longrightarrow> pool_run take_id give_id avail s0 s' live"

context id_pool
begin

lemma take_cases:
  assumes "take_id s = Inr (x, s')"
  shows "avail s = x # avail s'"
  using assms take_Nil [of s] take_Cons [of s] by (cases "avail s") auto

lemma conserved:
  "pool_run take_id give_id avail s0 s live \<Longrightarrow> mset live + mset (avail s) = mset (avail s0)"
proof (induction rule: pool_run.induct)
  case (take s live x s')
  then show ?case using take_cases [OF take.hyps(2)] by simp
next
  case (give s live x)
  have "mset (remove1 x live) + {#x#} = mset live" using give.hyps(2) by simp
  then have "mset (remove1 x live) + mset (avail (give_id x s)) = mset live + mset (avail s)"
    by (simp add: id_pool.give [OF id_pool_axioms] ac_simps)
  then show ?case using give.IH by simp
qed simp_all

lemma live_distinct:
  assumes run: "pool_run take_id give_id avail s0 s live" and d: "distinct (avail s0)"
  shows "distinct (live @ avail s)" and "set live \<union> set (avail s) = set (avail s0)"
proof -
  have m: "mset (live @ avail s) = mset (avail s0)" using conserved [OF run] by simp
  show "distinct (live @ avail s)" using d mset_eq_imp_distinct_iff [OF m] by simp
  show "set live \<union> set (avail s) = set (avail s0)" using mset_eq_setD [OF m] by simp
qed

lemma take_fails:
  assumes "pool_run take_id give_id avail s0 s live"
  shows "(\<exists>e. take_id s = Inl e) \<longleftrightarrow> length live = length (avail s0)"
proof -
  have "length live + length (avail s) = length (avail s0)"
    using arg_cong [OF conserved [OF assms], of size] by simp
  then show ?thesis using take_Nil [of s] take_Cons [of s] by (cases "avail s") auto
qed

end

interpretation ds_ids: id_pool allocate_ds_id free_ds_id available_ds_ids
  by unfold_locales (auto simp: allocate_ds_id_def free_ds_id_def)

lemma push_ds_ids_eq: "push_ds_ids v ds ids = ids @ filter (\<lambda>d. d \<noteq> v) (map of_nat [unat ds..<255])"
proof (induction v ds ids rule: push_ds_ids.induct)
  case (1 v ds ids)
  show ?case
  proof (cases "ds < 255")
    case True
    then have lt: "unat ds < 255" by (simp add: word_less_nat_alt)
    then have "unat (ds + 1) = Suc (unat ds)" by (simp add: unat_word_ariths)
    then show ?thesis using True 1 upt_conv_Cons [OF lt] by (subst push_ds_ids.simps) simp
  next
    case False
    then have "255 \<le> unat ds" by (simp add: word_less_nat_alt)
    then show ?thesis using False by (subst push_ds_ids.simps) simp
  qed
qed

lemma ds_ids_initial:
  shows "distinct (push_ds_ids v 0 [])" and "set (push_ds_ids v 0 []) = - {v, 255}"
    and "length (push_ds_ids v 0 []) = (if v = 255 then 255 else 254)"
proof -
  have id: "unat (of_nat i :: u8) = i" if "i < 255" for i
    using that by (simp add: unat_of_nat take_bit_nat_eq_self)
  have inj: "inj_on (of_nat :: nat \<Rightarrow> u8) {0..<255}"
    by (rule inj_on_inverseI [where g = unat]) (use id in simp)
  show d: "distinct (push_ds_ids v 0 [])" using inj by (simp add: push_ds_ids_eq distinct_map)
  have range: "(of_nat :: nat \<Rightarrow> u8) ` {0..<255} = - {255}"
  proof (intro equalityI subsetI)
    fix x :: u8
    assume "x \<in> - {255}"
    moreover have "unat x < 2 ^ 8" using unsigned_less [of x] by simp
    ultimately have "unat x < 255" by (cases "unat x = 255") (auto simp: word_unat_eq_iff)
    then show "x \<in> of_nat ` {0..<255}" by (intro image_eqI [of _ _ "unat x"]) simp_all
  next
    fix x :: u8
    assume "x \<in> of_nat ` {0..<255}"
    then show "x \<in> - {255}" using id by (auto simp: word_unat_eq_iff)
  qed
  show s: "set (push_ds_ids v 0 []) = - {v, 255}" using range by (auto simp: push_ds_ids_eq)
  have "length (push_ds_ids v 0 []) = card ((of_nat :: nat \<Rightarrow> u8) ` {0..<255} - {v})"
    using distinct_card [OF d] s range by (simp add: Compl_insert) 
  also have "\<dots> = (if v = 255 then 255 else 254)"
    using card_image [OF inj] unfolding range by (simp add: card_Diff_singleton_if)
  finally show "length (push_ds_ids v 0 []) = (if v = 255 then 255 else 254)" .
qed

section \<open>Construction succeeds or fails as the sizes tell\<close>

text \<open>\<open>regions_in sz\<close>: the regions that fit into \<open>sz\<close> bytes, the last one in part.\<close>

definition regions_in :: "u64 \<Rightarrow> nat" where
  "regions_in sz = (unat sz + 1023) div 1024"

lemma ctor_too_small:
  assumes "sz \<le> 2 ^ 41" and "regions_in sz \<le> 4"
  shows "RegionManager_ctor R C hp sz loc h = Inl Exit_ENOSPC"
proof -
  have sz: "sz \<le> 2 ^ 53" using assms(1) by (rule order_trans) (simp add: word_le_nat_alt)
  have "free_regions_count sz \<le> of_nat (2 * kNumSocket1CPUs)"
    using assms(2) unfolding free_regions_count_exact [OF sz] by (simp only: of_nat_le_iff kNumSocket1CPUs_def regions_in_def)
  then show ?thesis by (simp add: RegionManager_ctor_def Let_def)
qed

context region_env
begin

lemma ctor_result:
  assumes sz: "sz \<le> 2 ^ 41" and n: "4 < regions_in sz"
  obtains m h' where "RegionManager_ctor R C hp sz loc h = Inr (m, h')"
    and "region_ids R items m = mset (map of_nat [0..<regions_in sz + 36])"
    and "regions_in sz + 36 \<le> capacity (cb_make C (regions_in sz)) \<Longrightarrow> rm_wf R items capacity (regions_in sz + 36) m"
proof -
  have n': "2 * kNumSocket1CPUs < (unat sz + 1023) div 1024" using n by (simp add: regions_in_def kNumSocket1CPUs_def)
  obtain m h' where m: "RegionManager_ctor R C hp sz loc h = Inr (m, h')" using RegionManager_ctor_spec [OF sz n'] by blast
  from that [OF m] ctor_ids [OF sz n' m] ctor_wf [OF sz n' m] show ?thesis by (simp add: regions_in_def)
qed

end

text \<open>
  The \<^verbatim>\<open>BUG_ON\<close> bounds the size of far memory, not the regions made for it: surplus
  regions begin behind its last byte, the last of them 35 KB behind.
\<close>

lemma far_regions_overrun:
  assumes r: "region_env (Rg E) (Cb E) items capacity" and c: "c_size \<le> 2 ^ 41" and f: "far_size \<le> 2 ^ 41"
    and mo: "FarMemManager_ctor E B c_size far_size n s st = Inr (mo, st')"
  shows "\<exists>i \<in># region_ids (Rg E) items (far_mem_region_manager (fm mo)). unat far_size + 35 * 1024 \<le> unat i * kSize"
proof -
  obtain cm h fmm h'
    where cm: "RegionManager_ctor (Rg E) (Cb E) (hugepage B) c_size True (heap s) = Inr (cm, h)"
      and fmm: "RegionManager_ctor (Rg E) (Cb E) (hugepage B) far_size False h = Inr (fmm, h')"
      and fm: "far_mem_region_manager (fm mo) = fmm"
    using mo by (auto simp: FarMemManager_ctor_def Let_def split: sum.splits if_splits prod.splits)
  have "4 < regions_in far_size"
  proof (rule ccontr)
    assume "\<not> ?thesis"
    then show False using fmm ctor_too_small [OF f, of "Rg E" "Cb E" "hugepage B" False h] by simp
  qed
  then have ids: "region_ids (Rg E) items fmm = mset (map of_nat [0..<regions_in far_size + 36])"
    using region_env.ctor_result [OF r f, of "hugepage B" False h] fmm
    by (metis Inr_inject prod.inject)
  have last: "of_nat (regions_in far_size + 35) \<in># region_ids (Rg E) items (far_mem_region_manager (fm mo))"
    by (simp add: fm ids del: of_nat_add)
  have "unat far_size \<le> 2 ^ 41" using f by (simp add: word_le_nat_alt)
  then have "regions_in far_size + 35 < 2 ^ 32" by (simp add: regions_in_def)
  then have "unat (of_nat (regions_in far_size + 35) :: u32) = regions_in far_size + 35"
    by (simp add: unat_of_nat take_bit_nat_eq_self del: of_nat_add)
  then show ?thesis
    by (intro bexI [OF _ last]) (simp add: region_constants regions_in_def del: of_nat_add)
qed

text \<open>
  C19 (construction): the manager is built exactly when cache and far memory have more than
  four regions and a far address fits the 38 bits a pointer has for it. It then has 36
  regions more than fit into each memory, no evacuation notifier, every id but the two
  reserved ones, and a running pager; with buffers that have room for the surplus regions,
  both managers are well formed. Otherwise it exits for lack of space, or trips the
  \<^verbatim>\<open>BUG_ON\<close> after both memories have been set up.
\<close>

theorem manager_construction:
  assumes "region_env (Rg E) (Cb E) items capacity" and "c_size \<le> 2 ^ 41" and "far_size \<le> 2 ^ 41"
  shows "case FarMemManager_ctor E B c_size far_size n s st of
      Inl e \<Rightarrow> (if regions_in c_size \<le> 4 \<or> regions_in far_size \<le> 4 then e = Exit_ENOSPC else e = Bug_On \<and> 2 ^ 38 \<le> far_size)
    | Inr (mo, st') \<Rightarrow> 4 < regions_in c_size \<and> 4 < regions_in far_size \<and> far_size < 2 ^ 38 \<and> num_gc_threads mo = n
        \<and> region_ids (Rg E) items (cache_region_manager (fm mo)) = mset (map of_nat [0..<regions_in c_size + 36])
        \<and> region_ids (Rg E) items (far_mem_region_manager (fm mo)) = mset (map of_nat [0..<regions_in far_size + 36])
        \<and> evac_notifiers (fm mo) = (\<lambda>_. 0) \<and> copy_notifiers (fm mo) = copy_notifiers s
        \<and> distinct (available_ds_ids (fm mo)) \<and> set (available_ds_ids (fm mo)) = - {kVanillaPtrDSID E, 255}
        \<and> st' = init_dynamic_pager c_size st
        \<and> ((\<forall>nt. slot_core (cur_slot s nt) < kNumCPUs) \<longrightarrow>
             (regions_in c_size + 36 \<le> capacity (cb_make (Cb E) (regions_in c_size)) \<longrightarrow>
                cache_ok E items capacity (regions_in c_size + 36) (fm mo))
           \<and> (regions_in far_size + 36 \<le> capacity (cb_make (Cb E) (regions_in far_size)) \<longrightarrow>
                far_ok E items capacity (regions_in far_size + 36) (fm mo)))"
proof (cases "regions_in c_size \<le> 4")
  case True
  then show ?thesis by (simp add: FarMemManager_ctor_def ctor_too_small [OF assms(2) True])
next
  case big: False
  then have "4 < regions_in c_size" by simp
  then obtain cm h where cm: "RegionManager_ctor (Rg E) (Cb E) (hugepage B) c_size True (heap s) = Inr (cm, h)"
      "region_ids (Rg E) items cm = mset (map of_nat [0..<regions_in c_size + 36])"
      "regions_in c_size + 36 \<le> capacity (cb_make (Cb E) (regions_in c_size)) \<Longrightarrow> rm_wf (Rg E) items capacity (regions_in c_size + 36) cm"
    using region_env.ctor_result [OF assms(1,2)] by blast
  show ?thesis
  proof (cases "regions_in far_size \<le> 4")
    case True
    then show ?thesis by (simp add: FarMemManager_ctor_def cm(1) ctor_too_small [OF assms(3) True])
  next
    case far: False
    then have "4 < regions_in far_size" by simp
    then obtain fmm h' where fmm: "RegionManager_ctor (Rg E) (Cb E) (hugepage B) far_size False h = Inr (fmm, h')"
        "region_ids (Rg E) items fmm = mset (map of_nat [0..<regions_in far_size + 36])"
        "regions_in far_size + 36 \<le> capacity (cb_make (Cb E) (regions_in far_size)) \<Longrightarrow> rm_wf (Rg E) items capacity (regions_in far_size + 36) fmm"
      using region_env.ctor_result [OF assms(1,3)] by blast
    have k: "2 ^ kObjectIDBitSize = (2 ^ 38 :: u64)" by (simp add: kObjectIDBitSize_def)
    show ?thesis
      using big far cm fmm ds_ids_initial [of "kVanillaPtrDSID E"]
      by (simp add: FarMemManager_ctor_def Let_def k cache_ok_def far_ok_def not_le)
  qed
qed

text \<open>
  C21 (ids): whatever clients do after construction, as long as they free only ids they hold,
  no two of the ids held are the same, neither the id of plain pointers nor 255 is ever
  handed out, and an allocation runs into the undefined \<^verbatim>\<open>front()\<close> of an empty queue exactly
  when all are taken.
\<close>

theorem ds_ids_unique:
  assumes "FarMemManager_ctor E B c_size far_size n s st = Inr (mo, st')"
    and "pool_run allocate_ds_id free_ds_id available_ds_ids (fm mo) s1 live"
  shows "distinct live \<and> kVanillaPtrDSID E \<notin> set live \<and> 255 \<notin> set live
    \<and> (\<forall>ds s2. allocate_ds_id s1 = Inr (ds, s2) \<longrightarrow> ds \<notin> set live)
    \<and> (allocate_ds_id s1 = Inl Undefined \<longleftrightarrow> length live = (if kVanillaPtrDSID E = 255 then 255 else 254))"
proof -
  have a: "available_ds_ids (fm mo) = push_ds_ids (kVanillaPtrDSID E) 0 []"
    using assms(1) by (auto simp: FarMemManager_ctor_def Let_def split: sum.splits prod.splits if_splits)
  note i = ds_ids_initial [of "kVanillaPtrDSID E"]
  note d = ds_ids.live_distinct [OF assms(2), unfolded a, OF i(1)]
  have e: "allocate_ds_id s1 = Inl Undefined \<longleftrightarrow> (\<exists>e. allocate_ds_id s1 = Inl e)"
    by (auto simp: allocate_ds_id_def split: list.splits)
  have "ds \<notin> set live" if "allocate_ds_id s1 = Inr (ds, s2)" for ds s2
    using d(1) ds_ids.take_cases [OF that] by simp
  moreover have "kVanillaPtrDSID E \<notin> set live \<and> 255 \<notin> set live" using d(2) i(2) by auto
  ultimately show ?thesis using d(1) ds_ids.take_fails [OF assms(2)] i(3) a e by simp
qed

text \<open>
  One manager: once a build has returned a manager, the factory holds it, and every later
  build returns null and changes nothing.
\<close>

theorem build_once:
  assumes "build E B c_size threads s w = Inr (Some mo, w')"
  shows "factory_ptr w = None \<and> factory_ptr w' = Some mo \<and> num_gc_threads mo \<noteq> 0
    \<and> dynamic_manager_running (pager_state w') \<and> cache_size (pager_state w') = c_size
    \<and> build E' B' c_size' threads' s'' w' = Inr (None, w')"
  using assms
  by (auto simp: build_def FarMemManager_ctor_def init_dynamic_pager_def Let_def split: if_splits sum.splits prod.splits)

lemma wait_pending_returns:
  "pending_gcs ((thread_yield G ^^ n) s) = 0 \<Longrightarrow> \<exists>k. wait_pending_gcs G s = Some (Inr ((thread_yield G ^^ k) s)) \<and> pending_gcs ((thread_yield G ^^ k) s) = 0"
proof (induction n arbitrary: s)
  case 0
  then show ?case by (intro exI [of _ 0]) (simp add: wait_pending_gcs.simps)
next
  case (Suc n)
  show ?case
  proof (cases "pending_gcs s = 0")
    case True
    then show ?thesis by (intro exI [of _ 0]) (simp add: wait_pending_gcs.simps)
  next
    case False
    obtain k where "wait_pending_gcs G (thread_yield G s) = Some (Inr ((thread_yield G ^^ k) (thread_yield G s)))"
        "pending_gcs ((thread_yield G ^^ k) (thread_yield G s)) = 0"
      using Suc.IH [of "thread_yield G s"] Suc.prems by (auto simp: funpow_swap1)
    then show ?thesis using False by (intro exI [of _ "Suc k"]) (simp add: wait_pending_gcs.simps [of G s] funpow_swap1)
  qed
qed

lemma wait_pending_runs:
  assumes "wait_pending_gcs G s = Some y"
  shows "\<exists>n. pending_gcs ((thread_yield G ^^ n) s) = 0"
proof -
  have "G' = G \<longrightarrow> (\<exists>n. pending_gcs ((thread_yield G ^^ n) s) = 0)" if "wait_pending_gcs G' s = Some y" for G'
  proof (rule wait_pending_gcs.raw_induct [OF _ that], goal_cases)
    case (1 f G' s y)
    show ?case
    proof (cases "pending_gcs s = 0")
      case True
      then show ?thesis by (intro impI exI [of _ 0]) simp
    next
      case False
      then have "f G' (thread_yield G' s) = Some y" using 1(2) by simp
      from 1(1) [OF this] show ?thesis
        by (metis funpow_swap1 o_apply funpow.simps(2))
    qed
  qed
  then show ?thesis using assms by blast
qed

text \<open>
  C29 (destruction): the destructor never fails, stops the pager, and returns exactly when
  yielding often enough brings the number of pending collections to zero.
\<close>

theorem destructor_waits:
  "case FarMemManager_dtor G s st of
     None \<Rightarrow> \<forall>n. pending_gcs ((thread_yield G ^^ n) s) \<noteq> 0
   | Some (Inl e) \<Rightarrow> False
   | Some (Inr (s', st')) \<Rightarrow> pending_gcs s' = 0 \<and> (\<exists>n. s' = (thread_yield G ^^ n) s) \<and> st' = st\<lparr>dynamic_manager_running := False\<rparr>"
proof (cases "\<exists>n. pending_gcs ((thread_yield G ^^ n) s) = 0")
  case True
  then obtain k where "wait_pending_gcs G s = Some (Inr ((thread_yield G ^^ k) s))" "pending_gcs ((thread_yield G ^^ k) s) = 0"
    using wait_pending_returns by blast
  then show ?thesis by (auto simp: FarMemManager_dtor_def stop_dynamic_pager_def Let_def)
next
  case False
  then have "wait_pending_gcs G s = None" using wait_pending_runs [of G s] by (cases "wait_pending_gcs G s") auto
  then show ?thesis using False by (simp add: FarMemManager_dtor_def)
qed

section \<open>Instances\<close>

text \<open>A device of 16 KB.\<close>

definition demo_build :: build_ext where
  "demo_build = \<lparr>hugepage = (\<lambda>n. 1024), kGCSlaveThreadTaskQueueDepth = 8, kDefaultNumGCThreads = 2, get_far_mem_size = 16384\<rparr>"

lemma demo_constructed:
  "\<exists>mo st'. FarMemManager_ctor demo_ext demo_build 16384 16384 n (demo_fm [] []) st = Inr (mo, st')"
proof -
  have sz: "(16384 :: u64) \<le> 2 ^ 41" "4 < regions_in 16384" by (simp_all add: regions_in_def)
  have r: "region_env layout_regions ring_ops ring_items ring_cap" by (rule layout_env)
  obtain cm h where "RegionManager_ctor layout_regions ring_ops (hugepage demo_build) 16384 True (\<lambda>_. 0) = Inr (cm, h)"
    using region_env.ctor_result [OF r sz] by blast
  moreover obtain fmm h' where "RegionManager_ctor layout_regions ring_ops (hugepage demo_build) 16384 False h = Inr (fmm, h')"
    using region_env.ctor_result [OF r sz] by blast
  moreover have "\<not> 2 ^ kObjectIDBitSize \<le> (16384 :: u64)" by (simp add: kObjectIDBitSize_def)
  ultimately show ?thesis by (simp add: FarMemManager_ctor_def Let_def)
qed

theorem manager_construction_witness:
  "\<exists>mo st'. FarMemManager_ctor demo_ext demo_build 16384 16384 2 (demo_fm [] []) dswap_static = Inr (mo, st')
    \<and> cache_ok demo_ext ring_items ring_cap 52 (fm mo) \<and> far_ok demo_ext ring_items ring_cap 52 (fm mo)
    \<and> set (available_ds_ids (fm mo)) = - {255}"
proof -
  have r: "region_env (Rg demo_ext) (Cb demo_ext) ring_items ring_cap" using layout_env by simp
  have n: "regions_in 16384 = 16" by (simp add: regions_in_def)
  have sz: "(16384 :: u64) \<le> 2 ^ 41" by simp
  have cap: "ring_cap (cb_make ring_ops k) = k + 64" for k by (simp add: ring_ops_def)
  have core: "\<forall>nt. slot_core (cur_slot (demo_fm [] []) nt) < kNumCPUs" by (simp add: kNumCPUs_def)
  obtain mo st' where c: "FarMemManager_ctor demo_ext demo_build 16384 16384 2 (demo_fm [] []) dswap_static = Inr (mo, st')"
    using demo_constructed by blast
  show ?thesis
    using manager_construction [OF r sz sz, where B = demo_build and n = 2 and s = "demo_fm [] []" and st = dswap_static] core
    by (simp add: c n cap)
qed

theorem ds_ids_unique_witness:
  "\<exists>mo st' x s1 y s2. FarMemManager_ctor demo_ext demo_build 16384 16384 2 (demo_fm [] []) dswap_static = Inr (mo, st')
    \<and> allocate_ds_id (fm mo) = Inr (x, s1) \<and> allocate_ds_id s1 = Inr (y, s2) \<and> y \<noteq> x \<and> x \<noteq> 255"
proof -
  obtain mo st' where c: "FarMemManager_ctor demo_ext demo_build 16384 16384 2 (demo_fm [] []) dswap_static = Inr (mo, st')"
    using demo_constructed by blast
  have "available_ds_ids (fm mo) = push_ds_ids 255 0 []"
    using c by (auto simp: FarMemManager_ctor_def Let_def split: sum.splits prod.splits if_splits)
  then have l: "length (available_ds_ids (fm mo)) = 255" using ds_ids_initial(3) [of 255] by simp
  then obtain x ids where x: "available_ds_ids (fm mo) = x # ids" by (cases "available_ds_ids (fm mo)") auto
  obtain s1 where one: "allocate_ds_id (fm mo) = Inr (x, s1)" and a: "available_ds_ids s1 = ids"
    using ds_ids.take_Cons [OF x] by blast
  obtain y s2 where two: "allocate_ds_id s1 = Inr (y, s2)"
    using l x a by (cases "available_ds_ids s1") (auto simp: allocate_ds_id_def)
  have "pool_run allocate_ds_id free_ds_id available_ds_ids (fm mo) s1 [x]"
    using pool_run.start one by (rule pool_run.take)
  from ds_ids_unique [OF c this] two have "y \<noteq> x" "x \<noteq> 255" by auto
  then show ?thesis using c one two by blast
qed

theorem build_once_witness:
  "\<exists>mo w'. build demo_ext demo_build 16384 None (demo_fm [] []) \<lparr>factory_ptr = None, pager_state = dswap_static\<rparr> = Inr (Some mo, w')
    \<and> build demo_ext demo_build 32768 (Some 4) (demo_fm [] []) w' = Inr (None, w')"
proof -
  let ?w = "\<lparr>factory_ptr = None, pager_state = dswap_static\<rparr>"
  obtain mo st' where c: "FarMemManager_ctor demo_ext demo_build 16384 16384 2 (demo_fm [] []) dswap_static = Inr (mo, st')"
    using demo_constructed by blast
  have b: "build demo_ext demo_build 16384 None (demo_fm [] []) ?w = Inr (Some mo, \<lparr>factory_ptr = Some mo, pager_state = st'\<rparr>)"
    using c by (simp add: build_def demo_build_def)
  from build_once [OF b] b show ?thesis by blast
qed

end
