(* ===== verification/Fm_Boot.thy ===== *)
theory Fm_Boot
  imports Fm_Store Fm_Manager
begin

text \<open>
  From the constructor on: a manager just built is the empty object store, so whatever runs on it
  is a run of the store from the beginning.
\<close>

section \<open>The memory of the regions\<close>

text \<open>The first \<open>n\<close> regions of a manager lie in territories of their own.\<close>

definition regions_placed :: "region_ops \<Rightarrow> (Region \<Rightarrow> addr set) \<Rightarrow> (u32 \<Rightarrow> addr set) \<Rightarrow> bool \<Rightarrow> addr \<Rightarrow> nat \<Rightarrow> bool" where
  "regions_placed R area T loc base n \<longleftrightarrow> (\<forall>i < n. \<forall>r. numbered R loc base i r \<longrightarrow> area r \<subseteq> T (of_nat i))"

lemma distinct_numbers: "n \<le> 2 ^ 32 \<Longrightarrow> distinct (map (of_nat :: nat \<Rightarrow> u32) [0..<n])"
proof -
  assume n: "n \<le> 2 ^ 32"
  have "inj_on (of_nat :: nat \<Rightarrow> u32) {0..<n}"
  proof (rule inj_onI)
    fix i j
    assume ij: "i \<in> {0..<n}" "j \<in> {0..<n}" and "(of_nat i :: u32) = of_nat j"
    then have "unat (of_nat i :: u32) = unat (of_nat j :: u32)" by simp
    then show "i = j" using ij n by (simp add: unat_of_nat take_bit_nat_eq_self)
  qed
  then show ?thesis by (simp add: distinct_map)
qed

lemma constructed_space:
  assumes env: "region_env R C items capacity" and sz: "sz \<le> 2 ^ 41" and run: "RegionManager_ctor R C hp sz loc h = Inr (m, h')"
    and placed: "regions_placed R area T loc (if loc then hp (of_nat (regions_in sz * kSize)) else 0) (regions_in sz + 36)"
  shows "space_ok R items area room T {} m" and "size (region_ids R items m) = regions_in sz + 36"
    and "\<And>r. r \<in># owned_regions items m \<Longrightarrow> \<exists>base i. numbered R loc base i r"
    and "regions_in sz + 36 \<le> capacity (cb_make C (regions_in sz)) \<Longrightarrow> rm_wf R items capacity (regions_in sz + 36) m"
proof -
  have n: "4 < regions_in sz"
    using run ctor_too_small [OF sz, of R C hp loc h] by (cases "regions_in sz \<le> 4") auto
  then have n': "2 * kNumSocket1CPUs < (unat sz + 1023) div 1024" by (simp add: regions_in_def kNumSocket1CPUs_def)
  have N: "(unat sz + 1023) div 1024 - 2 * kNumSocket1CPUs + 2 * kNumCPUs = regions_in sz + 36"
    using n by (simp add: region_constants regions_in_def)
  have big: "regions_in sz + 36 \<le> 2 ^ 32"
  proof -
    have "unat sz \<le> 2 ^ 41" using sz by (simp add: word_le_nat_alt)
    then show ?thesis by (simp add: regions_in_def)
  qed
  obtain m0 h0 rs where m0: "RegionManager_ctor R C hp sz loc h = Inr (m0, h0)"
      and base0: "local_cache_ptr m0 = (if loc then hp (of_nat (regions_in sz * kSize)) else 0)"
      and rs0: "owned_regions items m0 = mset rs" "list_all2 (numbered R loc (local_cache_ptr m0)) [0..<regions_in sz + 36] rs"
    using region_env.RegionManager_ctor_spec [OF env sz n', of hp loc h, unfolded N, folded regions_in_def]
    by (elim exE conjE) (rule that)
  have "m0 = m" using m0 run by simp
  note base = base0 [unfolded this] and rs = rs0 [unfolded this]
  have num: "\<exists>i < regions_in sz + 36. numbered R loc (local_cache_ptr m) i r" if r: "r \<in> set rs" for r
  proof -
    obtain i where i: "i < length rs" "rs ! i = r" using r by (metis in_set_conv_nth)
    then show ?thesis using rs(2) by (auto simp: list_all2_conv_all_nth)
  qed
  then show "\<exists>base i. numbered R loc base i r" if "r \<in># owned_regions items m" for r
    using that unfolding rs(1) by (metis set_mset_mset)
  have ids: "region_ids R items m = mset (map of_nat [0..<regions_in sz + 36])"
    using region_env.ctor_ids [OF env sz n' run] by (simp add: regions_in_def)
  then show "size (region_ids R items m) = regions_in sz + 36" by simp
  show "regions_in sz + 36 \<le> capacity (cb_make C (regions_in sz)) \<Longrightarrow> rm_wf R items capacity (regions_in sz + 36) m"
    using region_env.ctor_wf [OF env sz n' run] by (simp add: regions_in_def)
  have "area r \<subseteq> T (region_idx r)" if r: "r \<in> set rs" for r
  proof -
    obtain i where nr: "i < regions_in sz + 36" "numbered R loc (local_cache_ptr m) i r" using num [OF r] by blast
    then have "area r \<subseteq> T (of_nat i)" using placed by (simp add: regions_placed_def base)
    then show ?thesis using region_env.numbered_fields [OF env nr(2)] by simp
  qed
  then have "all_valid R items (spaced area room T {}) m" by (simp add: all_valid_def spaced_def rs(1))
  moreover have "count (region_ids R items m) i \<le> 1" for i
    unfolding ids using distinct_numbers [OF big] by (simp only: distinct_count_atmost_1) (simp split: if_splits)
  ultimately show "space_ok R items area room T {} m" by (simp add: space_ok_def)
qed

section \<open>The constructed manager\<close>

text \<open>What static initialisation leaves outside the two region managers.\<close>

definition statics_ok :: "('q, 'd) fm_state \<Rightarrow> bool" where
  "statics_ok s \<longleftrightarrow> copy_notifiers s = (\<lambda>_. 0) \<and> obj_locks s = {} \<and> (\<forall>nt. slot_core (cur_slot s nt) < kNumCPUs)"

definition boot_ok :: "('q, 'd) ext \<Rightarrow> build_ext \<Rightarrow> ('q \<Rightarrow> nat) \<Rightarrow> (Region \<Rightarrow> addr set) \<Rightarrow> (u32 \<Rightarrow> addr set) \<Rightarrow> (u32 \<Rightarrow> addr set) \<Rightarrow>
   u64 \<Rightarrow> u64 \<Rightarrow> ('q, 'd) fm_state \<Rightarrow> bool" where
  "boot_ok E B capacity area T Tf c_size far_size s \<longleftrightarrow> c_size \<le> 2 ^ 41 \<and> far_size \<le> 2 ^ 41 \<and> statics_ok s
     \<and> regions_in c_size + 36 \<le> capacity (cb_make (Cb E) (regions_in c_size))
     \<and> regions_in far_size + 36 \<le> capacity (cb_make (Cb E) (regions_in far_size))
     \<and> regions_placed (Rg E) area T True (hugepage B (of_nat (regions_in c_size * kSize))) (regions_in c_size + 36)
     \<and> regions_placed (Rg E) area Tf False 0 (regions_in far_size + 36)"

context store_manager
begin

lemma boot_rel:
  assumes ok: "boot_ok E B capacity area T Tf c_size far_size s"
    and run: "FarMemManager_ctor E B c_size far_size n s st = Inr (mo, st')"
  shows "rel (regions_in c_size + 36) (regions_in far_size + 36) {} (fm mo)"
proof -
  let ?N = "regions_in c_size + 36" and ?M = "regions_in far_size + 36"
  obtain cm h fmm h' where cm: "RegionManager_ctor (Rg E) (Cb E) (hugepage B) c_size True (heap s) = Inr (cm, h)"
      and fmm: "RegionManager_ctor (Rg E) (Cb E) (hugepage B) far_size False h = Inr (fmm, h')"
      and mo: "fm mo = s\<lparr>heap := h', cache_region_manager := cm, far_mem_region_manager := fmm, from_regions := [],
        available_ds_ids := push_ds_ids (kVanillaPtrDSID E) 0 [], evac_notifiers := (\<lambda>_. 0)\<rparr>"
    using run by (auto simp: FarMemManager_ctor_def Let_def split: sum.splits prod.splits if_splits)
  have sz: "c_size \<le> 2 ^ 41" "far_size \<le> 2 ^ 41" and st: "statics_ok s"
    and cap: "?N \<le> capacity (cb_make (Cb E) (regions_in c_size))" "?M \<le> capacity (cb_make (Cb E) (regions_in far_size))"
    and pl: "regions_placed (Rg E) area T True (if True then hugepage B (of_nat (regions_in c_size * kSize)) else 0) ?N"
      "regions_placed (Rg E) area Tf False (if False then hugepage B (of_nat (regions_in far_size * kSize)) else 0) ?M"
    using ok by (simp_all add: boot_ok_def)
  note c = constructed_space [OF region_env_axioms sz(1) cm pl(1)] and f = constructed_space [OF region_env_axioms sz(2) fmm pl(2)]
  have sp: "space {} (fm mo)" "size (ids (fm mo)) = ?N" using c(1,2) by (simp_all add: mo)
  have cok: "cache_ok E items capacity ?N (fm mo)" using c(4) cap st by (simp add: cache_ok_def mo statics_ok_def)
  have inv: "store_inv E items capacity contents area room T V {} ?N (fm mo)" for V
    using cok sp st by (simp add: store_inv_def in_use_def stored_def apart_def calm_def live_bytes_def mo statics_ok_def)
  have "far_ok E items capacity ?M (fm mo)" using f(4) cap st by (simp add: far_ok_def mo statics_ok_def)
  then have far: "far_rel E items capacity area room Tf ?M V {} (fm mo)" for V
    using f(1) by (auto simp: far_rel_def plain_ids_def mo)
  have "laid G E area (\<lambda>_. []) r" if "r \<in># owned_regions items cm" for r
    using c(3) [OF that] make_laid by (auto simp: laid_def numbered_def)
  then have "chains (\<lambda>_. []) {} {} (fm mo)"
    using sp(1) by (simp add: chained_def Let_def laid_objects_def accounted_def all_valid_def mo)
  from relI [OF inv far _ this] show ?thesis using sp(2) by simp
qed

end

section \<open>From construction on\<close>


section \<open>An instance\<close>

lemma number_word: "i < 2 ^ 20 \<Longrightarrow> (ucast (of_nat i :: u32) :: u64) = of_nat i"
proof -
  assume "i < 2 ^ 20"
  then have "unat (of_nat i :: u32) = i" by (simp add: unat_of_nat take_bit_nat_eq_self)
  moreover have "(ucast (w :: u32) :: u64) = of_nat (unat w)" for w by simp
  ultimately show ?thesis by metis
qed

lemma demo_far_area:
  assumes i: "i < 2 ^ 20" and r: "region_idx r = of_nat i" "buf_ptr r = 0"
  shows "layout_area r \<subseteq> demo_far_territory (of_nat i)"
proof
  have idx: "unat (of_nat i :: u32) = i" using i by (simp add: unat_of_nat take_bit_nat_eq_self)
  fix x
  assume "x \<in> layout_area r"
  then obtain k where k: "k < 1024" "x = of_nat (i * 1024 + k)"
    unfolding layout_area_def region_base_def r idx by (auto simp: addr_range_mem kSize_val idx)
  have "unat x = i * 1024 + k" unfolding k(2) using i k(1) by (intro unat_of_nat_u64) simp
  then show "x \<in> demo_far_territory (of_nat i)" using i k(1) idx by (simp add: demo_far_territory_def word_less_nat_alt)
qed

lemma demo_boot: "boot_ok demo_ext demo_build ring_cap layout_area demo_territory demo_far_territory 16384 16384 (demo_fm [] [])"
proof -
  have "layout_area r \<subseteq> demo_territory (of_nat i)" if "i < 52" "numbered layout_regions True 1024 i r" for i r
  proof -
    have "buf_ptr r = buf_ptr (demo_region i)"
      using ring_regions.numbered_fields [OF that(2)] that(1) number_word [of i] by (simp add: demo_region_def layout_regions_def kSize_val)
    then show ?thesis using that(1) by (intro demo_area) simp_all
  qed
  moreover have "layout_area r \<subseteq> demo_far_territory (of_nat i)" if "i < 52" "numbered layout_regions False 0 i r" for i r
    using demo_far_area [of i r] ring_regions.numbered_fields [OF that(2)] that(1) by simp
  ultimately show ?thesis
    by (simp add: boot_ok_def regions_placed_def regions_in_def statics_ok_def demo_build_def ring_ops_def kNumCPUs_def)
qed

text \<open>On a manager just built: a new object, and a round of the collector.\<close>

lemma demo_boot_run:
  "\<exists>mo st' ok Q s'. FarMemManager_ctor demo_ext demo_build 16384 16384 2 (demo_fm [] []) dswap_static = Inr (mo, st')
    \<and> manager_trace demo_gc demo_ext ring_items (\<lambda>d. d) {} (fm mo) [(Create 64 5 4 (Some (u64_bytes 7)), ok), (Collect, True)] Q s'"
proof -
  obtain mo st' where c: "FarMemManager_ctor demo_ext demo_build 16384 16384 2 (demo_fm [] []) dswap_static = Inr (mo, st')"
    using demo_constructed by blast
  have rel: "store_rel demo_gc demo_ext ring_items ring_cap (\<lambda>d. d) layout_area layout_room demo_territory demo_far_territory
      (regions_in 16384 + 36) (regions_in 16384 + 36) {} (fm mo)" by (rule demo_manager.boot_rel [OF demo_boot c])
  obtain V where "store_inv demo_ext ring_items ring_cap (\<lambda>d. d) layout_area layout_room demo_territory V {} (regions_in 16384 + 36) (fm mo)"
      "far_ok demo_ext ring_items ring_cap (regions_in 16384 + 36) (fm mo)"
    using rel by (auto simp: store_rel_def far_rel_def)
  then obtain y where y: "allocate_generic_unique_ptr_nb demo_ext 64 5 4 (Some (u64_bytes 7)) (fm mo) = Some y"
    using demo.create_returns [where oid = "Some (u64_bytes 7)" and p = 64 and ds = 5 and item = 4 and s = "fm mo"] by (auto simp: store_inv_def)
  have "\<exists>r < 2 ^ 38. u64_bytes 7 = u64_bytes r" by (intro exI [of _ 7]) simp
  then have o: "op_ok demo_ext ring_items (\<lambda>d. d) {} (fm mo) (Create 64 5 4 (Some (u64_bytes 7)))"
    by (simp add: key_used_def store_of_def)
  obtain ok s1 where s1: "y = Inr (ok, s1)" "store_rel demo_gc demo_ext ring_items ring_cap (\<lambda>d. d) layout_area layout_room demo_territory
      demo_far_territory (regions_in 16384 + 36) (regions_in 16384 + 36) (live_after (Create 64 5 4 (Some (u64_bytes 7))) ok {}) s1"
    using demo_manager.rel_create [OF rel o y] by blast
  obtain s2 where s2: "gc_round demo_gc demo_ext False (pick_from_regions demo_gc demo_ext s1) = Some (Inr s2)"
    using demo_manager.rel_collect [OF s1(2), of False] by blast
  have "manager_trace demo_gc demo_ext ring_items (\<lambda>d. d) {} (fm mo) [(Create 64 5 4 (Some (u64_bytes 7)), ok), (Collect, True)]
      (live_after Collect True (live_after (Create 64 5 4 (Some (u64_bytes 7))) ok {})) s2"
    using o y s1(1) s2 by (auto intro!: manager_trace.intros)
  then show ?thesis using c by blast
qed


end
