(* ===== verification/Fm_Threads.thy ===== *)
theory Fm_Threads
  imports Fm_Mutators
begin

text \<open>
  The write-back of a collection beside threads that fetch: \<^verbatim>\<open>swap_in\<close> and the slaves of
  \<^verbatim>\<open>GCParallelWriteBacker\<close> as an interleaving of atomic steps under the object locks of
  \<^verbatim>\<open>aifm_changes/manager.cpp\<close>. A step reads or writes one shared thing: the pointer word, the
  header of the object, the lock, one attempt at an allocation. Filling in the fetched object
  and \<^verbatim>\<open>swap_out\<close> are one step each: they run under the lock of the object they work on.
\<close>

section \<open>Threads\<close>

text \<open>
  A fetching thread: called; id read; waiting for the lock; the pointer looked at again with
  the lock held; waiting for space of the size read; space found at an address; about to
  unlock. The id is the local variable of \<^verbatim>\<open>swap_in\<close>.
\<close>

datatype fetch_pc =
    F_Idle
  | F_Read bool addr
  | F_Check bool addr u64
  | F_Lock bool addr u64
  | F_Recheck bool addr u64
  | F_Alloc bool addr u64 u16
  | F_Fetch addr u64 addr u16
  | F_Unlock u64

text \<open>
  A slave: between two tasks; at an object \<open>cur\<close> of a task that ends at \<open>right\<close>; waiting for
  the lock of the id that starts at an address and has a length; acting with the lock \<open>k\<close>
  held; about to unlock; about to advance.
\<close>

datatype slave_pc =
    S_Next
  | S_Walk addr addr
  | S_Lock addr addr addr nat
  | S_Act addr addr addr nat "u8 list"
  | S_Unlock addr addr addr nat "u8 list"
  | S_Step addr addr

datatype thread = Fetcher nat | Slave nat

record ('q, 'd) threads =
  fm :: "('q, 'd) fm_state"
  fetchers :: "nat \<Rightarrow> fetch_pc"
  slaves :: "nat \<Rightarrow> slave_pc"
  queues :: "nat \<Rightarrow> (addr \<times> addr) list"

definition threads_start :: "('q, 'd) fm_state \<Rightarrow> (nat \<Rightarrow> (addr \<times> addr) list) \<Rightarrow> ('q, 'd) threads" where
  "threads_start s qs = \<lparr>fm = s, fetchers = (\<lambda>_. F_Idle), slaves = (\<lambda>_. S_Next), queues = qs\<rparr>"

text \<open>Every thread runs on a core of its own choice.\<close>

definition on_core :: "(bool \<Rightarrow> slot) \<Rightarrow> ('q, 'd) fm_state \<Rightarrow> ('q, 'd) fm_state" where
  "on_core cs s = s\<lparr>cur_slot := cs\<rparr>"

definition lock_now :: "u8 list \<Rightarrow> ('q, 'd) fm_state \<Rightarrow> ('q, 'd) fm_state" where
  "lock_now k s = s\<lparr>obj_locks := insert k (obj_locks s)\<rparr>"

section \<open>Steps\<close>

text \<open>
  One step of \<^verbatim>\<open>swap_in\<close>. The blocking allocation is its loop of attempts: one that finds no
  space leaves the thread where it is.
\<close>

inductive fetch_step :: "('q, 'd) ext \<Rightarrow> nat \<Rightarrow> ('q, 'd) threads \<Rightarrow> ('q, 'd) threads \<Rightarrow> bool" for E i where
  F_read: "fetchers s i = F_Read nt p \<Longrightarrow>
    fetch_step E i s (s\<lparr>fetchers := (fetchers s)(i := F_Check nt p (pt_get_object_id (Pt E) (metas (fm s) p)))\<rparr>)"
| F_present: "fetchers s i = F_Check nt p oid \<Longrightarrow> pt_is_present (Pt E) (metas (fm s) p) \<Longrightarrow>
    fetch_step E i s (s\<lparr>fetchers := (fetchers s)(i := F_Idle)\<rparr>)"
| F_absent: "fetchers s i = F_Check nt p oid \<Longrightarrow> \<not> pt_is_present (Pt E) (metas (fm s) p) \<Longrightarrow>
    fetch_step E i s (s\<lparr>fetchers := (fetchers s)(i := F_Lock nt p oid)\<rparr>)"
| F_lock: "fetchers s i = F_Lock nt p oid \<Longrightarrow> u64_bytes oid \<notin> obj_locks (fm s) \<Longrightarrow>
    fetch_step E i s (s\<lparr>fm := lock_now (u64_bytes oid) (fm s), fetchers := (fetchers s)(i := F_Recheck nt p oid)\<rparr>)"
| F_raced: "fetchers s i = F_Recheck nt p oid \<Longrightarrow> pt_is_present (Pt E) (metas (fm s) p) \<Longrightarrow>
    fetch_step E i s (s\<lparr>fetchers := (fetchers s)(i := F_Unlock oid)\<rparr>)"
| F_miss: "fetchers s i = F_Recheck nt p oid \<Longrightarrow> \<not> pt_is_present (Pt E) (metas (fm s) p) \<Longrightarrow>
    fetch_step E i s (s\<lparr>fetchers := (fetchers s)(i := F_Alloc nt p oid (pt_get_object_size (Pt E) (metas (fm s) p)))\<rparr>)"
| F_found: "fetchers s i = F_Alloc nt p oid sz \<Longrightarrow> \<forall>b. slot_core (cs b) < kNumCPUs \<Longrightarrow>
    allocate_local_object_nb E nt sz (on_core cs (fm s)) = Some (Inr (Some a, f)) \<Longrightarrow>
    fetch_step E i s (s\<lparr>fm := f, fetchers := (fetchers s)(i := F_Fetch p oid a sz)\<rparr>)"
| F_wait: "fetchers s i = F_Alloc nt p oid sz \<Longrightarrow> \<forall>b. slot_core (cs b) < kNumCPUs \<Longrightarrow>
    allocate_local_object_nb E nt sz (on_core cs (fm s)) = Some (Inr (None, f)) \<Longrightarrow>
    fetch_step E i s (s\<lparr>fm := f\<rparr>)"
| F_fetch: "fetchers s i = F_Fetch p oid a sz \<Longrightarrow>
    fetch_step E i s (s\<lparr>fm := fetch_object E oid p a (fm s), fetchers := (fetchers s)(i := F_Unlock oid)\<rparr>)"
| F_unlock: "fetchers s i = F_Unlock oid \<Longrightarrow>
    fetch_step E i s (s\<lparr>fm := unlock_object (u64_bytes oid) (fm s), fetchers := (fetchers s)(i := F_Idle)\<rparr>)"

text \<open>
  One step of the slave. A thread inside a \<^verbatim>\<open>DerefScope\<close> that has just read a pointer's id
  keeps its object in the cache: the collector waits for such threads before it writes back.
  \<open>scoped\<close> are the threads that are inside a scope.
\<close>

definition looking :: "fetch_pc \<Rightarrow> addr \<Rightarrow> bool" where
  "looking pc p = (case pc of F_Check nt q oid \<Rightarrow> q = p | _ \<Rightarrow> False)"

inductive slave_step :: "('q, 'd) gc_ext \<Rightarrow> ('q, 'd) ext \<Rightarrow> (nat \<Rightarrow> bool) \<Rightarrow> nat \<Rightarrow> ('q, 'd) threads \<Rightarrow> ('q, 'd) threads \<Rightarrow> bool"
  for G E scoped j where
  S_task: "slaves s j = S_Next \<Longrightarrow> queues s j = (left, right) # ts \<Longrightarrow>
    slave_step G E scoped j s (s\<lparr>slaves := (slaves s)(j := S_Walk left right), queues := (queues s)(j := ts)\<rparr>)"
| S_end: "slaves s j = S_Walk cur right \<Longrightarrow> \<not> cur + of_nat (ob_kHeaderSize (Ob E)) < right \<Longrightarrow>
    slave_step G E scoped j s (s\<lparr>slaves := (slaves s)(j := S_Next)\<rparr>)"
| S_skip: "slaves s j = S_Walk cur right \<Longrightarrow> cur + of_nat (ob_kHeaderSize (Ob E)) < right \<Longrightarrow>
    ob_is_freed (Ob E) (heap (fm s)) cur \<Longrightarrow>
    slave_step G E scoped j s (s\<lparr>slaves := (slaves s)(j := S_Step cur right)\<rparr>)"
| S_live: "slaves s j = S_Walk cur right \<Longrightarrow> cur + of_nat (ob_kHeaderSize (Ob E)) < right \<Longrightarrow>
    \<not> ob_is_freed (Ob E) (heap (fm s)) cur \<Longrightarrow>
    slave_step G E scoped j s (s\<lparr>slaves := (slaves s)(j := S_Lock cur right (ob_get_obj_id (Ob E) (heap (fm s)) cur)
      (unat (ob_get_obj_id_len (Ob E) (heap (fm s)) cur)))\<rparr>)"
| S_lock: "slaves s j = S_Lock cur right idp len \<Longrightarrow> rd_bytes (heap (fm s)) idp len \<notin> obj_locks (fm s) \<Longrightarrow>
    slave_step G E scoped j s (s\<lparr>fm := lock_now (rd_bytes (heap (fm s)) idp len) (fm s),
      slaves := (slaves s)(j := S_Act cur right idp len (rd_bytes (heap (fm s)) idp len))\<rparr>)"
| S_freed: "slaves s j = S_Act cur right idp len k \<Longrightarrow> ob_is_freed (Ob E) (heap (fm s)) cur \<Longrightarrow>
    slave_step G E scoped j s (s\<lparr>slaves := (slaves s)(j := S_Unlock cur right idp len k)\<rparr>)"
| S_out: "slaves s j = S_Act cur right idp len k \<Longrightarrow> \<not> ob_is_freed (Ob E) (heap (fm s)) cur \<Longrightarrow>
    \<forall>i. scoped i \<longrightarrow> \<not> looking (fetchers s i) (ob_get_ptr_addr (Ob E) (heap (fm s)) cur) \<Longrightarrow>
    \<forall>b. slot_core (cs b) < kNumCPUs \<Longrightarrow>
    swap_out E (ob_get_ptr_addr (Ob E) (heap (fm s)) cur) cur (on_core cs (fm s)) = Some (Inr f) \<Longrightarrow>
    slave_step G E scoped j s (s\<lparr>fm := f, slaves := (slaves s)(j := S_Unlock cur right idp len k)\<rparr>)"
| S_unlock: "slaves s j = S_Unlock cur right idp len k \<Longrightarrow>
    slave_step G E scoped j s (s\<lparr>fm := unlock_object (rd_bytes (heap (fm s)) idp len) (fm s),
      slaves := (slaves s)(j := S_Step cur right)\<rparr>)"
| S_advance: "slaves s j = S_Step cur right \<Longrightarrow>
    slave_step G E scoped j s (s\<lparr>slaves := (slaves s)(j :=
      S_Walk (cur + align_to G (ucast (ob_size (Ob E) (heap (fm s)) cur)) (of_nat 8)) right)\<rparr>)"

text \<open>Any thread may call \<^verbatim>\<open>swap_in\<close> on any pointer of \<open>Q\<close>.\<close>

inductive threads_step :: "('q, 'd) gc_ext \<Rightarrow> ('q, 'd) ext \<Rightarrow> addr set \<Rightarrow> (nat \<Rightarrow> bool) \<Rightarrow> ('q, 'd) threads \<Rightarrow> ('q, 'd) threads \<Rightarrow> bool"
  for G E Q scoped where
  T_call: "fetchers s i = F_Idle \<Longrightarrow> p \<in> Q \<Longrightarrow> threads_step G E Q scoped s (s\<lparr>fetchers := (fetchers s)(i := F_Read nt p)\<rparr>)"
| T_fetch: "fetch_step E i s s' \<Longrightarrow> threads_step G E Q scoped s s'"
| T_slave: "slave_step G E scoped j s s' \<Longrightarrow> threads_step G E Q scoped s s'"

definition threads_reach :: "('q, 'd) gc_ext \<Rightarrow> ('q, 'd) ext \<Rightarrow> addr set \<Rightarrow> (nat \<Rightarrow> bool) \<Rightarrow> ('q, 'd) threads \<Rightarrow> ('q, 'd) threads \<Rightarrow> bool" where
  "threads_reach G E Q scoped = (threads_step G E Q scoped)\<^sup>*\<^sup>*"

inductive_cases fetch_stepE: "fetch_step E i s s'"
inductive_cases slave_stepE: "slave_step G E scoped j s s'"
inductive_cases threads_stepE: "threads_step G E Q scoped s s'"

section \<open>The object locks\<close>

definition f_held :: "fetch_pc \<Rightarrow> u8 list option" where
  "f_held pc = (case pc of F_Recheck nt p oid \<Rightarrow> Some (u64_bytes oid) | F_Alloc nt p oid sz \<Rightarrow> Some (u64_bytes oid)
     | F_Fetch p oid a sz \<Rightarrow> Some (u64_bytes oid) | F_Unlock oid \<Rightarrow> Some (u64_bytes oid) | _ \<Rightarrow> None)"

definition s_held :: "slave_pc \<Rightarrow> u8 list option" where
  "s_held pc = (case pc of S_Act cur right idp len k \<Rightarrow> Some k | S_Unlock cur right idp len k \<Rightarrow> Some k | _ \<Rightarrow> None)"

text \<open>The id a thread has locked.\<close>

definition held :: "('q, 'd) threads \<Rightarrow> thread \<Rightarrow> u8 list option" where
  "held s t = (case t of Fetcher i \<Rightarrow> f_held (fetchers s i) | Slave j \<Rightarrow> s_held (slaves s j))"

definition locks_ok :: "u8 list set \<Rightarrow> (thread \<Rightarrow> u8 list option) \<Rightarrow> bool" where
  "locks_ok L hold \<longleftrightarrow> (\<forall>k. k \<in> L \<longleftrightarrow> (\<exists>t. hold t = Some k)) \<and> (\<forall>t u k. hold t = Some k \<longrightarrow> hold u = Some k \<longrightarrow> t = u)"

lemma held_simps [simp]:
  "f_held F_Idle = None" "f_held (F_Read nt p) = None" "f_held (F_Check nt p oid) = None" "f_held (F_Lock nt p oid) = None"
  "f_held (F_Recheck nt p oid) = Some (u64_bytes oid)" "f_held (F_Alloc nt p oid sz) = Some (u64_bytes oid)"
  "f_held (F_Fetch p oid a sz) = Some (u64_bytes oid)" "f_held (F_Unlock oid) = Some (u64_bytes oid)"
  "s_held S_Next = None" "s_held (S_Walk cur right) = None" "s_held (S_Lock cur right idp len) = None"
  "s_held (S_Act cur right idp len k) = Some k" "s_held (S_Unlock cur right idp len k) = Some k" "s_held (S_Step cur right) = None"
  by (simp_all add: f_held_def s_held_def)

lemma held_fetcher: "fetchers s' = (fetchers s)(i := pc) \<Longrightarrow> slaves s' = slaves s \<Longrightarrow> held s' = (held s)(Fetcher i := f_held pc)"
  by (rule ext) (auto simp: held_def split: thread.splits)

lemma held_slave: "slaves s' = (slaves s)(j := pc) \<Longrightarrow> fetchers s' = fetchers s \<Longrightarrow> held s' = (held s)(Slave j := s_held pc)"
  by (rule ext) (auto simp: held_def split: thread.splits)

lemma locks_acquire: "locks_ok L hold \<Longrightarrow> k \<notin> L \<Longrightarrow> hold t = None \<Longrightarrow> locks_ok (insert k L) (hold(t := Some k))"
  unfolding locks_ok_def fun_upd_apply by (rule conjI) (metis insert_iff option.distinct(1) option.inject)+

lemma locks_release: "locks_ok L hold \<Longrightarrow> hold t = Some k \<Longrightarrow> locks_ok (L - {k}) (hold(t := None))"
  unfolding locks_ok_def fun_upd_apply by (rule conjI) (metis Diff_iff option.distinct(1) option.inject singleton_iff)+

lemma locks_same: "locks_ok L hold \<Longrightarrow> hold t = x \<Longrightarrow> locks_ok L (hold(t := x))"
  by (simp add: fun_upd_idem)

lemma locks_unique: "locks_ok L hold \<Longrightarrow> hold t = Some k \<Longrightarrow> hold u = Some k \<Longrightarrow> t = u"
  unfolding locks_ok_def by blast

section \<open>The invariant\<close>

text \<open>
  What a fetching thread knows of its pointer; \<open>V\<close> are the values of the pointers. While the
  thread holds the lock of an absent pointer's id the pointer stays absent, and the space it
  has found is its own.
\<close>

definition own_id :: "(addr \<Rightarrow> u8 \<times> u8 list \<times> u8 list) \<Rightarrow> addr \<Rightarrow> u64 \<Rightarrow> bool" where
  "own_id V p oid \<longleftrightarrow> u64_bytes oid = fst (snd (V p))"

definition fetcher_ok :: "('q, 'd) ext \<Rightarrow> (addr \<Rightarrow> u8 \<times> u8 list \<times> u8 list) \<Rightarrow> addr set \<Rightarrow> ('q, 'd) fm_state \<Rightarrow> fetch_pc \<Rightarrow> bool" where
  "fetcher_ok E V Q f pc = (case pc of
     F_Idle \<Rightarrow> True
   | F_Read nt p \<Rightarrow> p \<in> Q
   | F_Check nt p oid \<Rightarrow> p \<in> Q \<and> (\<not> present E f p \<longrightarrow> own_id V p oid)
   | F_Lock nt p oid \<Rightarrow> p \<in> Q \<and> own_id V p oid
   | F_Recheck nt p oid \<Rightarrow> p \<in> Q \<and> own_id V p oid
   | F_Alloc nt p oid sz \<Rightarrow> p \<in> Q \<and> own_id V p oid \<and> \<not> present E f p \<and> sz = pt_get_object_size (Pt E) (metas f p)
   | F_Fetch p oid a sz \<Rightarrow> p \<in> Q \<and> own_id V p oid \<and> \<not> present E f p \<and> sz = pt_get_object_size (Pt E) (metas f p)
       \<and> placed a (unat sz) \<and> addressable (Ob E) a
   | F_Unlock oid \<Rightarrow> True)"

definition reserved :: "fetch_pc \<Rightarrow> addr set" where
  "reserved pc = (case pc of F_Fetch p oid a sz \<Rightarrow> addr_range a (unat sz) | _ \<Rightarrow> {})"

text \<open>The pointer whose object the thread is fetching.\<close>

definition critical :: "fetch_pc \<Rightarrow> addr option" where
  "critical pc = (case pc of F_Alloc nt p oid sz \<Rightarrow> Some p | F_Fetch p oid a sz \<Rightarrow> Some p | _ \<Rightarrow> None)"

text \<open>
  Where a slave is in its objects: \<open>h0\<close> are the bytes of the picked regions \<open>F\<close> when the
  write-back began, \<open>ch\<close> the objects of a task, \<open>rem\<close> the objects the slave has still to come.
\<close>

definition at_object :: "('q, 'd) ext \<Rightarrow> addr set \<Rightarrow> heap \<Rightarrow> addr \<Rightarrow> addr \<Rightarrow> nat \<Rightarrow> bool" where
  "at_object E F h0 cur idp len \<longleftrightarrow> whole_object E F h0 cur \<and> (\<exists>h. (\<forall>x \<in> F. body x \<longrightarrow> h x = h0 x)
     \<and> idp = ob_get_obj_id (Ob E) h cur \<and> len = unat (ob_get_obj_id_len (Ob E) h cur))"

definition slave_at :: "('q, 'd) gc_ext \<Rightarrow> ('q, 'd) ext \<Rightarrow> addr set \<Rightarrow> heap \<Rightarrow> slave_pc \<Rightarrow> addr list \<Rightarrow> bool" where
  "slave_at G E F h0 pc as = (case pc of
     S_Next \<Rightarrow> as = []
   | S_Walk cur right \<Rightarrow> object_chain G E h0 right cur as
   | S_Lock cur right idp len \<Rightarrow> object_chain G E h0 right cur as \<and> as \<noteq> [] \<and> at_object E F h0 cur idp len
   | S_Act cur right idp len k \<Rightarrow> object_chain G E h0 right cur as \<and> as \<noteq> [] \<and> at_object E F h0 cur idp len
       \<and> k = obj_id_bytes (Ob E) h0 cur
   | S_Unlock cur right idp len k \<Rightarrow> object_chain G E h0 right cur (cur # as) \<and> at_object E F h0 cur idp len
       \<and> k = obj_id_bytes (Ob E) h0 cur
   | S_Step cur right \<Rightarrow> object_chain G E h0 right cur (cur # as) \<and> whole_object E F h0 cur)"

definition slave_ok :: "('q, 'd) gc_ext \<Rightarrow> ('q, 'd) ext \<Rightarrow> addr set \<Rightarrow> heap \<Rightarrow> ((addr \<times> addr) \<Rightarrow> addr list) \<Rightarrow>
   slave_pc \<Rightarrow> (addr \<times> addr) list \<Rightarrow> addr list \<Rightarrow> bool" where
  "slave_ok G E F h0 ch pc queue rem \<longleftrightarrow> distinct rem \<and> (\<forall>a \<in> set rem. whole_object E F h0 a)
     \<and> (\<forall>t \<in> set queue. object_chain G E h0 (snd t) (fst t) (ch t))
     \<and> (\<exists>as. rem = as @ concat (map ch queue) \<and> slave_at G E F h0 pc as)"

text \<open>Which fields the notions of the store read.\<close>

lemma store_fields [simp]:
  "present E (f\<lparr>obj_locks := l\<rparr>) q = present E f q" "obj_at E (f\<lparr>obj_locks := l\<rparr>) q = obj_at E f q"
  "obj_bytes E (f\<lparr>obj_locks := l\<rparr>) q = obj_bytes E f q" "live_bytes E Q (f\<lparr>obj_locks := l\<rparr>) = live_bytes E Q f"
  "to_come E Q F h0 R (f\<lparr>obj_locks := l\<rparr>) = to_come E Q F h0 R f" "cache_ok E items capacity N (f\<lparr>obj_locks := l\<rparr>) = cache_ok E items capacity N f"
  "present E (f\<lparr>cur_slot := cs\<rparr>) q = present E f q" "obj_at E (f\<lparr>cur_slot := cs\<rparr>) q = obj_at E f q"
  "obj_bytes E (f\<lparr>cur_slot := cs\<rparr>) q = obj_bytes E f q" "live_bytes E Q (f\<lparr>cur_slot := cs\<rparr>) = live_bytes E Q f"
  "to_come E Q F h0 R (f\<lparr>cur_slot := cs\<rparr>) = to_come E Q F h0 R f"
  by (simp_all add: present_def obj_at_def obj_bytes_def live_bytes_def to_come_def cache_ok_def)

lemma in_use_slot [simp]: "in_use E contents V Q X (f\<lparr>cur_slot := cs, obj_locks := l\<rparr>) = in_use E contents V Q X (f\<lparr>obj_locks := l\<rparr>)"
proof -
  have "stored E contents V Q (f\<lparr>cur_slot := cs, obj_locks := l\<rparr>) = stored E contents V Q (f\<lparr>obj_locks := l\<rparr>)"
    by (simp add: stored_def ptr_ok_def obj_backed_def value_of_def Let_def)
  moreover have "live_bytes E Q (f\<lparr>cur_slot := cs, obj_locks := l\<rparr>) = live_bytes E Q f"
    by (simp add: live_bytes_def present_def obj_bytes_def obj_at_def)
  ultimately show ?thesis by (simp add: in_use_def apart_def calm_def present_def obj_bytes_def obj_at_def)
qed

lemma in_use_mono: "in_use E contents V Q X f \<Longrightarrow> X \<subseteq> Y \<Longrightarrow> in_use E contents V Q Y f"
  by (auto simp: in_use_def)

text \<open>
  The memory the threads share: the bytes of live objects, of the picked regions and of the
  fetches under way are apart from all free space; every object to come is still in place.
\<close>

definition spoken_for :: "('q, 'd) ext \<Rightarrow> addr set \<Rightarrow> addr set \<Rightarrow> ('q, 'd) threads \<Rightarrow> addr set" where
  "spoken_for E Q F s = live_bytes E Q (fm s) \<union> F \<union> (\<Union>i. reserved (fetchers s i))"

definition spaces_apart :: "('q, 'd) ext \<Rightarrow> addr set \<Rightarrow> addr set \<Rightarrow> ('q, 'd) threads \<Rightarrow> bool" where
  "spaces_apart E Q F s \<longleftrightarrow> (\<forall>i. reserved (fetchers s i) \<inter> (live_bytes E Q (fm s) \<union> F) = {})
     \<and> (\<forall>i j. i \<noteq> j \<longrightarrow> reserved (fetchers s i) \<inter> reserved (fetchers s j) = {})"

context object_store
begin

definition memory_ok :: "(addr \<Rightarrow> u8 \<times> u8 list \<times> u8 list) \<Rightarrow> addr set \<Rightarrow> nat \<Rightarrow> addr set \<Rightarrow> heap \<Rightarrow> addr set \<Rightarrow> ('q, 'd) threads \<Rightarrow> bool" where
  "memory_ok V Q N F h0 R s \<longleftrightarrow>
     cache_ok E items capacity N (fm s) \<and> in_use E contents V Q (live_bytes E Q (fm s)) ((fm s)\<lparr>obj_locks := {}\<rparr>)
   \<and> space (spoken_for E Q F s) (fm s) \<and> to_come E Q F h0 R (fm s) \<and> spaces_apart E Q F s
   \<and> (\<forall>i. fetcher_ok E V Q (fm s) (fetchers s i))"

definition slaves_ok :: "addr set \<Rightarrow> heap \<Rightarrow> ((addr \<times> addr) \<Rightarrow> addr list) \<Rightarrow> (nat \<Rightarrow> addr list) \<Rightarrow> ('q, 'd) threads \<Rightarrow> bool" where
  "slaves_ok F h0 ch rem s \<longleftrightarrow> (\<forall>j. slave_ok G E F h0 ch (slaves s j) (queues s j) (rem j))
     \<and> (\<forall>i j. i \<noteq> j \<longrightarrow> set (rem i) \<inter> set (rem j) = {})"

definition threads_inv :: "(addr \<Rightarrow> u8 \<times> u8 list \<times> u8 list) \<Rightarrow> addr set \<Rightarrow> nat \<Rightarrow> addr set \<Rightarrow> heap \<Rightarrow> ((addr \<times> addr) \<Rightarrow> addr list) \<Rightarrow>
   ('q, 'd) threads \<Rightarrow> bool" where
  "threads_inv V Q N F h0 ch s \<longleftrightarrow> locks_ok (obj_locks (fm s)) (held s)
     \<and> (\<exists>rem. memory_ok V Q N F h0 (\<Union>j. set (rem j)) s \<and> slaves_ok F h0 ch rem s)"

text \<open>A step that leaves the memory alone, but for the locks.\<close>

lemma memory_ok_frame:
  assumes mem: "memory_ok V Q N F h0 R s" and fm: "fm s' = (fm s)\<lparr>obj_locks := l\<rparr>"
    and r: "\<And>k. reserved (fetchers s' k) \<subseteq> reserved (fetchers s k)" and ok: "\<And>k. fetcher_ok E V Q (fm s) (fetchers s' k)"
  shows "memory_ok V Q N F h0 R s'"
proof -
  have "spoken_for E Q F s' \<subseteq> spoken_for E Q F s" unfolding spoken_for_def fm using r by fastforce
  moreover have "space (spoken_for E Q F s) (fm s')" using mem by (simp add: memory_ok_def fm)
  ultimately have "space (spoken_for E Q F s') (fm s')" by (rule space_ok_mono [rotated])
  moreover have "spaces_apart E Q F s'" using mem r unfolding memory_ok_def spaces_apart_def fm store_fields by blast
  moreover have "fetcher_ok E V Q (fm s') x = fetcher_ok E V Q (fm s) x" for x by (simp add: fetcher_ok_def fm split: fetch_pc.splits)
  ultimately show ?thesis using mem ok by (simp add: memory_ok_def fm)
qed

lemma memory_ok_pc:
  assumes mem: "memory_ok V Q N F h0 R s" and s': "fm s' = (fm s)\<lparr>obj_locks := l\<rparr>" "fetchers s' = (fetchers s)(i := pc)"
    and pc: "reserved pc = {}" "fetcher_ok E V Q (fm s) pc"
  shows "memory_ok V Q N F h0 R s'"
  by (rule memory_ok_frame [OF mem s'(1)]) (use mem pc in \<open>simp_all add: s'(2) memory_ok_def\<close>)

lemma memory_ok_slave:
  assumes mem: "memory_ok V Q N F h0 R s" and s': "fm s' = (fm s)\<lparr>obj_locks := l\<rparr>" "fetchers s' = fetchers s"
  shows "memory_ok V Q N F h0 R s'"
  by (rule memory_ok_frame [OF mem s'(1)]) (use mem in \<open>simp_all add: s'(2) memory_ok_def\<close>)

text \<open>Objects to come are not touched by what leaves their pointers and bytes alone.\<close>

lemma to_come_kept:
  assumes tc: "to_come E Q F h0 R f" and h: "\<forall>x \<in> F. body x \<longrightarrow> heap f' x = heap f x"
    and m: "\<And>q. q \<in> Q \<Longrightarrow> present E f q \<Longrightarrow> metas f' q = metas f q"
    and b: "\<And>q. q \<in> Q \<Longrightarrow> present E f' q \<Longrightarrow> obj_bytes E f' q \<inter> F = {}
      \<or> present E f q \<and> obj_at E f' q = obj_at E f q \<and> obj_bytes E f' q = obj_bytes E f q"
  shows "to_come E Q F h0 R f'"
proof -
  note t = to_comeD [OF tc]
  have "present E f' q \<and> obj_at E f' q = obj_at E f q" if "q \<in> Q" "present E f q" for q
    using m [OF that] that(2) by (simp add: present_def obj_at_def)
  then have "ob_get_ptr_addr (Ob E) h0 a \<in> Q \<and> present E f' (ob_get_ptr_addr (Ob E) h0 a)
      \<and> obj_at E f' (ob_get_ptr_addr (Ob E) h0 a) = a \<and> pt_is_evacuation (Pt E) (metas f' (ob_get_ptr_addr (Ob E) h0 a))"
    if "a \<in> R" "\<not> ob_is_freed (Ob E) h0 a" for a
    using t(2) [OF that] m by simp
  moreover have "obj_bytes E f' q \<inter> F = {} \<or> obj_at E f' q \<in> R \<and> \<not> ob_is_freed (Ob E) h0 (obj_at E f' q)"
    if "q \<in> Q" "present E f' q" for q
    using b [OF that] t(3) [OF that(1)] by auto
  ultimately show ?thesis using t(1) h unfolding to_come_def by simp
qed

lemma reserve_apart:
  assumes ap: "spaces_apart E Q F s" and Y: "Y \<inter> spoken_for E Q F s = {}" and r: "\<And>k. r k = (if k = i then Y else reserved (fetchers s k))"
  shows "(\<forall>k. r k \<inter> (live_bytes E Q (fm s) \<union> F) = {}) \<and> (\<forall>j k. j \<noteq> k \<longrightarrow> r j \<inter> r k = {})"
proof -
  have "Y \<inter> reserved (fetchers s k) = {}" for k using Y by (auto simp: spoken_for_def)
  moreover have "Y \<inter> (live_bytes E Q (fm s) \<union> F) = {}" using Y by (auto simp: spoken_for_def)
  ultimately show ?thesis using ap by (simp add: r spaces_apart_def Int_commute)
qed

text \<open>One attempt at an allocation.\<close>

lemma memory_ok_alloc:
  assumes mem: "memory_ok V Q N F h0 R s" and pc: "fetchers s i = F_Alloc nt p oid sz" and cs: "\<forall>b. slot_core (cs b) < kNumCPUs"
    and al: "allocate_local_object_nb E nt sz (on_core cs (fm s)) = Some (Inr (res, f))"
    and s': "fm s' = f" "fetchers s' = (fetchers s)(i := (case res of None \<Rightarrow> F_Alloc nt p oid sz | Some a \<Rightarrow> F_Fetch p oid a sz))"
  shows "memory_ok V Q N F h0 R s'" and "obj_locks f = obj_locks (fm s)" and "only_headers (heap (fm s)) (heap f)"
proof -
  let ?f = "on_core cs (fm s)" and ?X = "spoken_for E Q F s"
  let ?Y = "case res of None \<Rightarrow> {} | Some a \<Rightarrow> addr_range a (unat sz)"
  have cok: "cache_ok E items capacity N ?f" and sp: "space ?X ?f" using mem cs by (simp_all add: memory_ok_def cache_ok_def on_core_def)
  have use: "in_use E contents V Q (live_bytes E Q (fm s)) ((fm s)\<lparr>obj_locks := {}\<rparr>)" and tc: "to_come E Q F h0 R (fm s)"
    and ap: "spaces_apart E Q F s" and fok: "\<And>k. fetcher_ok E V Q (fm s) (fetchers s k)"
    using mem by (simp_all add: memory_ok_def)
  have fr: "alloc_frame E items capacity N ?f f" and res: "\<And>a. res = Some a \<Longrightarrow> placed a (unat sz) \<and> addressable (Ob E) a"
    using allocate_nb_spec [OF cok, of nt sz] al by auto
  note fl = alloc_frame_fields [OF fr, simplified on_core_def, simplified]
  show "obj_locks f = obj_locks (fm s)" "only_headers (heap (fm s)) (heap f)" using fl by simp_all
  have tk: "taken ?X (region_ids (Rg E) items (cache_region_manager ?f)) sz res (cache_region_manager f)" by (rule allocate_nb_space [OF al cok sp])
  have sp': "space (?X \<union> ?Y) f" and YX: "?Y \<inter> ?X = {}" using tk by (auto simp: taken_def split: option.splits)
  note u = in_use_headers [OF use, of "f\<lparr>obj_locks := {}\<rparr>", simplified, OF fl(1,2) fl(11,12) fl(8)]
  have use': "in_use E contents V Q (live_bytes E Q f) (f\<lparr>obj_locks := {}\<rparr>)" using u(1,5) by simp
  have rY: "reserved (fetchers s' k) = (if k = i then ?Y else reserved (fetchers s k))" for k
    by (simp add: s'(2) reserved_def split: option.splits)
  then have "(\<Union>k. reserved (fetchers s' k)) \<subseteq> (\<Union>k. reserved (fetchers s k)) \<union> ?Y" by (auto split: if_splits)
  then have spk: "spoken_for E Q F s' \<subseteq> ?X \<union> ?Y" unfolding spoken_for_def s'(1) u(5) by blast
  have "spaces_apart E Q F s'" unfolding spaces_apart_def s'(1) u(5) by (rule reserve_apart [OF ap YX]) (rule rY)
  moreover have "to_come E Q F h0 R f"
    by (rule to_come_kept [OF tc]) (use fl u(2,3,4) in \<open>simp_all add: only_headers_def\<close>)
  moreover have "fetcher_ok E V Q f x = fetcher_ok E V Q (fm s) x" for x
    by (simp add: fetcher_ok_def fl(1) u(2) split: fetch_pc.splits)
  moreover have "fetcher_ok E V Q (fm s) (fetchers s' k)" for k
    using fok [of k] fok [of i] res by (simp add: s'(2) pc fetcher_ok_def split: option.splits)
  moreover have "space (spoken_for E Q F s') f" by (rule space_ok_mono [OF sp' spk])
  ultimately show "memory_ok V Q N F h0 R s'" using use' alloc_frame_ok [OF fr cok] by (simp add: memory_ok_def s'(1))
qed

text \<open>Giving one pointer its object elsewhere.\<close>

lemma moved_live:
  assumes use: "in_use E contents V Q (live_bytes E Q f0) (f0\<lparr>obj_locks := {}\<rparr>)" and inj: "inj_on (key V) Q" and p: "p \<in> Q"
    and mv: "moved E contents p (V p) Y f0 f" and Y: "Y \<inter> live_bytes E Q f0 = {}"
  shows "in_use E contents V Q (live_bytes E Q f) (f\<lparr>obj_locks := {}\<rparr>)" and "live_bytes E Q f \<subseteq> live_bytes E Q f0 \<union> Y"
    and "q \<in> Q \<Longrightarrow> q \<noteq> p \<Longrightarrow> present E f q = present E f0 q \<and> obj_at E f q = obj_at E f0 q
      \<and> (present E f0 q \<longrightarrow> obj_bytes E f q = obj_bytes E f0 q)"
proof -
  have ins: "insert p Q = Q" using p by blast
  have mv': "moved E contents p (V p) Y ((f0\<lparr>obj_locks := {}\<rparr>)\<lparr>obj_locks := obj_locks f0\<rparr>) f" using mv by simp
  have inj': "inj_on (key V) (insert p Q)" using inj by (simp add: ins)
  note m = moved_in_use [OF use inj' _ mv' Y, unfolded ins, simplified]
  show "in_use E contents V Q (live_bytes E Q f) (f\<lparr>obj_locks := {}\<rparr>)" "live_bytes E Q f \<subseteq> live_bytes E Q f0 \<union> Y"
    using m(1) by (simp_all add: in_use_def)
  show "q \<in> Q \<Longrightarrow> q \<noteq> p \<Longrightarrow> present E f q = present E f0 q \<and> obj_at E f q = obj_at E f0 q
      \<and> (present E f0 q \<longrightarrow> obj_bytes E f q = obj_bytes E f0 q)"
    using m(2) by blast
qed

lemma memory_ok_moved:
  assumes mem: "memory_ok V Q N F h0 R s" and inj: "inj_on (key V) Q" and p: "p \<in> Q"
    and mv: "moved E contents p (V p) Y (on_core cs (fm s)) (fm s')" and Y: "Y \<inter> live_bytes E Q (fm s) = {}"
    and sp: "space (spoken_for E Q F s \<union> Y) (fm s')" and cok: "cache_ok E items capacity N (fm s')" and tc: "to_come E Q F h0 R' (fm s')"
    and r: "\<And>k. reserved (fetchers s' k) \<subseteq> reserved (fetchers s k)" "\<And>k. reserved (fetchers s' k) \<inter> Y = {}"
    and ok: "\<And>k. fetcher_ok E V Q (fm s') (fetchers s' k)"
  shows "memory_ok V Q N F h0 R' s'"
proof -
  have use: "in_use E contents V Q (live_bytes E Q (on_core cs (fm s))) ((on_core cs (fm s))\<lparr>obj_locks := {}\<rparr>)"
      and ap: "spaces_apart E Q F s"
    using mem by (simp_all add: memory_ok_def on_core_def)
  note ml = moved_live(1,2) [OF use inj p mv, unfolded on_core_def, simplified, OF Y]
  have "spoken_for E Q F s' \<subseteq> spoken_for E Q F s \<union> Y" using ml(2) r(1) unfolding spoken_for_def by fastforce
  with sp have "space (spoken_for E Q F s') (fm s')" by (rule space_ok_mono)
  moreover have "spaces_apart E Q F s'" using ap r ml(2) unfolding spaces_apart_def by blast
  ultimately show ?thesis using ml(1) cok tc ok by (simp add: memory_ok_def)
qed

lemma fetcher_ok_frame:
  assumes "fetcher_ok E V Q f pc" and "\<And>q. q \<noteq> p \<Longrightarrow> metas f' q = metas f q"
    and "critical pc \<noteq> Some p" and "looking pc p \<Longrightarrow> present E f' p"
  shows "fetcher_ok E V Q f' pc"
proof -
  have same: "present E f' q = present E f q" if "q \<noteq> p" for q using assms(2) [OF that] by (simp add: present_def)
  show ?thesis
  proof (cases pc)
    case (F_Check nt q oid)
    then show ?thesis using assms(1,4) same [of q] by (cases "q = p") (simp_all add: fetcher_ok_def looking_def)
  qed (use assms(1,2,3) same in \<open>auto simp: fetcher_ok_def critical_def\<close>)
qed

lemma memory_ok_fetch:
  assumes mem: "memory_ok V Q N F h0 R s" and inj: "inj_on (key V) Q" and pc: "fetchers s i = F_Fetch p oid a sz"
    and alone: "\<And>k. k \<noteq> i \<Longrightarrow> critical (fetchers s k) \<noteq> Some p"
    and s': "fm s' = fetch_object E oid p a (fm s)" "fetchers s' = (fetchers s)(i := F_Unlock oid)"
  shows "memory_ok V Q N F h0 R s'" and "obj_locks (fm s') = obj_locks (fm s)"
proof -
  let ?f = "fm s" and ?Y = "addr_range a (unat sz)"
  have use: "in_use E contents V Q (live_bytes E Q ?f) (?f\<lparr>obj_locks := {}\<rparr>)" and tc: "to_come E Q F h0 R ?f"
    and ap: "spaces_apart E Q F s" and fok: "\<And>k. fetcher_ok E V Q ?f (fetchers s k)"
    using mem by (simp_all add: memory_ok_def)
  have p: "p \<in> Q" "own_id V p oid" "\<not> present E ?f p" "sz = pt_get_object_size (Pt E) (metas ?f p)" and a: "placed a (unat sz)" "addressable (Ob E) a"
    using fok [of i] unfolding fetcher_ok_def pc fetch_pc.simps by blast+
  have "ptr_ok E contents (?f\<lparr>obj_locks := {}\<rparr>) p \<and> value_of E contents (?f\<lparr>obj_locks := {}\<rparr>) p = Some (V p)"
    using use p(1) by (simp add: in_use_def stored_def)
  then have st: "ptr_ok E contents ?f p" "value_of E contents ?f p = Some (V p)"
    by (simp_all add: ptr_ok_cong [of "?f\<lparr>obj_locks := {}\<rparr>" p ?f])
  then have "u64_bytes (pt_get_object_id (Pt E) (metas ?f p)) = u64_bytes oid"
    using p(2,3) by (cases "V p") (auto simp: value_of_def own_id_def present_def Let_def)
  then have oid: "oid = pt_get_object_id (Pt E) (metas ?f p)" by (metis u64_of_bytes_inverse)
  have mv: "moved E contents p (V p) ?Y ?f (fm s')" and crm: "cache_region_manager (fm s') = cache_region_manager ?f" and there: "present E (fm s') p"
    using fetch_moved [OF st(1) p(3) st(2), of a] a unfolding s'(1) oid p(4) by simp_all
  note f = moved_fields [OF mv]
  show "obj_locks (fm s') = obj_locks ?f" by (rule f(1))
  have res: "reserved (fetchers s i) = ?Y" using pc by (simp add: reserved_def)
  have Y: "?Y \<inter> (live_bytes E Q ?f \<union> F) = {}" and YX: "?Y \<subseteq> spoken_for E Q F s"
    using ap res unfolding spaces_apart_def spoken_for_def by blast+
  then have Yl: "?Y \<inter> live_bytes E Q ?f = {}" by blast
  note ml = moved_live(3) [OF use inj p(1) mv Yl]
  show "memory_ok V Q N F h0 R s'"
  proof (rule memory_ok_moved [OF mem inj p(1) _ Yl, where cs = "cur_slot ?f"])
    show "moved E contents p (V p) ?Y (on_core (cur_slot ?f) ?f) (fm s')" using mv by (simp add: on_core_def)
    show "space (spoken_for E Q F s \<union> ?Y) (fm s')" using mem YX crm by (simp add: memory_ok_def Un_absorb2)
    show "cache_ok E items capacity N (fm s')" using mem crm f(5) by (simp add: memory_ok_def cache_ok_def)
    show "to_come E Q F h0 R (fm s')"
    proof (rule to_come_kept [OF tc])
      show "\<forall>x \<in> F. body x \<longrightarrow> heap (fm s') x = heap ?f x" using mv Y by (auto simp: moved_def)
      show "metas (fm s') q = metas ?f q" if "q \<in> Q" "present E ?f q" for q using f(6) that p(3) by metis
      show "obj_bytes E (fm s') q \<inter> F = {}
          \<or> present E ?f q \<and> obj_at E (fm s') q = obj_at E ?f q \<and> obj_bytes E (fm s') q = obj_bytes E ?f q"
        if "q \<in> Q" "present E (fm s') q" for q
      proof (cases "q = p")
        case True
        then have "obj_bytes E (fm s') q \<subseteq> ?Y" using mv that(2) by (simp add: moved_def)
        then show ?thesis using Y by blast
      next
        case False
        then show ?thesis using ml [OF that(1)] that(2) by simp
      qed
    qed
    show "reserved (fetchers s' k) \<subseteq> reserved (fetchers s k)" for k by (simp add: s'(2) reserved_def)
    show "reserved (fetchers s' k) \<inter> ?Y = {}" for k
    proof (cases "k = i")
      case False
      then show ?thesis using ap res unfolding spaces_apart_def s'(2) by (simp add: Int_commute) (metis inf_commute)
    qed (simp add: s'(2) reserved_def)
    show "fetcher_ok E V Q (fm s') (fetchers s' k)" for k
    proof (cases "k = i")
      case False
      have "fetcher_ok E V Q (fm s') (fetchers s k)" by (rule fetcher_ok_frame [OF fok f(6) alone [OF False]]) (simp_all add: there)
      then show ?thesis using False by (simp add: s'(2))
    qed (simp add: s'(2) fetcher_ok_def)
  qed
qed

text \<open>Swapping out the next object of a slave.\<close>

lemma memory_ok_out:
  assumes mem: "memory_ok V Q N F h0 (insert a R) s" and inj: "inj_on (key V) Q" and d: "a \<notin> R" and whole: "whole_object E F h0 a"
    and live: "\<not> ob_is_freed (Ob E) h0 a" and cs: "\<forall>b. slot_core (cs b) < kNumCPUs"
  defines "p \<equiv> ob_get_ptr_addr (Ob E) h0 a"
  shows "\<exists>f. swap_out E p a (on_core cs (fm s)) = Some (Inr f) \<and> obj_locks f = obj_locks (fm s)
    \<and> ((\<forall>i. \<not> looking (fetchers s i) p) \<longrightarrow> (\<forall>s'. fm s' = f \<longrightarrow> fetchers s' = fetchers s \<longrightarrow> memory_ok V Q N F h0 R s'))"
proof -
  let ?f = "fm s" and ?g = "(on_core cs (fm s))\<lparr>obj_locks := {}\<rparr>" and ?X = "spoken_for E Q F s"
  have use: "in_use E contents V Q (live_bytes E Q ?f) (?f\<lparr>obj_locks := {}\<rparr>)" and tc: "to_come E Q F h0 (insert a R) ?f"
    and ap: "spaces_apart E Q F s" and fok: "\<And>k. fetcher_ok E V Q ?f (fetchers s k)"
    using mem by (simp_all add: memory_ok_def)
  have X: "live_bytes E Q ?f \<subseteq> ?X" "F \<subseteq> ?X" "\<And>k. reserved (fetchers s k) \<subseteq> ?X" by (auto simp: spoken_for_def)
  have pre: "cache_ok E items capacity N ?g" "in_use E contents V Q ?X ?g" "space ?X ?g" "to_come E Q F h0 (insert a R) ?g"
    using mem cs in_use_mono [OF use X(1)] by (simp_all add: memory_ok_def cache_ok_def on_core_def)
  have there: "p \<in> Q" "present E ?f p" using to_comeD(2) [OF tc, of a] live by (simp_all add: p_def)
  have again: "?g\<lparr>obj_locks := obj_locks ?f\<rparr> = on_core cs ?f" by (simp add: on_core_def)
  obtain f Y where run: "swap_out E p a (on_core cs ?f) = Some (Inr f)" and mv: "moved E contents p (V p) Y (on_core cs ?f) f"
      and f: "cache_ok E items capacity N f" "region_ids (Rg E) items (cache_region_manager f) = region_ids (Rg E) items (cache_region_manager ?g)"
      "far_mem_region_manager f = far_mem_region_manager ?g" "space (?X \<union> Y) f" and Y: "Y \<inter> ?X = {}" and rest: "to_come E Q F h0 R f"
    using evict_step [OF pre(1,2) X(2) pre(3,4) inj d live, of "obj_locks ?f", folded p_def, unfolded again] by (elim exE conjE) (rule that)
  note m = moved_fields [OF mv, unfolded on_core_def, simplified]
  have "memory_ok V Q N F h0 R s'"
    if nl: "\<forall>i. \<not> looking (fetchers s i) p" and s': "fm s' = f" "fetchers s' = fetchers s" for s'
  proof (rule memory_ok_moved [OF mem inj there(1), where cs = cs and Y = Y])
    show "moved E contents p (V p) Y (on_core cs (fm s)) (fm s')" using mv by (simp add: s')
    show "Y \<inter> live_bytes E Q (fm s) = {}" using Y X(1) by blast
    show "reserved (fetchers s' k) \<inter> Y = {}" for k using Y X(3) [of k] by (auto simp: s'(2))
    show "fetcher_ok E V Q (fm s') (fetchers s' k)" for k
      unfolding s'
    proof (rule fetcher_ok_frame [OF fok])
      show "critical (fetchers s k) \<noteq> Some p"
        using fok [of k] there(2) by (auto simp: fetcher_ok_def critical_def split: fetch_pc.splits)
    qed (use m(6) nl in simp_all)
  qed (use f rest in \<open>simp_all add: s'\<close>)
  then show ?thesis using run m(1) by blast
qed

section \<open>Every step keeps it\<close>

lemma critical_held: "fetcher_ok E V Q f pc \<Longrightarrow> critical pc = Some p \<Longrightarrow> f_held pc = Some (fst (snd (V p)))"
  by (auto simp: fetcher_ok_def critical_def own_id_def split: fetch_pc.splits)

lemma fetch_keeps_inv:
  assumes step: "fetch_step E i s s'" and inv: "threads_inv V Q N F h0 ch s" and inj: "inj_on (key V) Q"
  shows "threads_inv V Q N F h0 ch s'"
proof -
  obtain rem where l: "locks_ok (obj_locks (fm s)) (held s)" and mem: "memory_ok V Q N F h0 (\<Union>j. set (rem j)) s" and sl: "slaves_ok F h0 ch rem s"
    using inv by (auto simp: threads_inv_def)
  have fok: "fetcher_ok E V Q (fm s) (fetchers s k)" for k using mem by (simp add: memory_ok_def)
  note fi = fok [of i]
  have fin: "threads_inv V Q N F h0 ch s'"
    if "memory_ok V Q N F h0 (\<Union>j. set (rem j)) s'" "fetchers s' = (fetchers s)(i := pc)" "slaves s' = slaves s" "queues s' = queues s"
      "locks_ok (obj_locks (fm s')) ((held s)(Fetcher i := f_held pc))" for pc
    unfolding threads_inv_def held_fetcher [OF that(2,3)] using that sl by (intro conjI exI [of _ rem]) (simp_all add: slaves_ok_def)
  have hi: "held s (Fetcher i) = f_held (fetchers s i)" by (simp add: held_def)
  have quiet: "threads_inv V Q N F h0 ch s'"
    if s': "s' = s\<lparr>fm := (fm s)\<lparr>obj_locks := ls\<rparr>, fetchers := (fetchers s)(i := pc)\<rparr>" and pc: "reserved pc = {}" "fetcher_ok E V Q (fm s) pc"
      and ls: "locks_ok ls ((held s)(Fetcher i := f_held pc))" for ls pc
    by (rule fin [where pc = pc, OF memory_ok_pc [OF mem _ _ pc]]) (use ls in \<open>simp_all add: s'\<close>)
  have same: "s\<lparr>fetchers := (fetchers s)(i := pc)\<rparr> = s\<lparr>fm := (fm s)\<lparr>obj_locks := obj_locks (fm s)\<rparr>, fetchers := (fetchers s)(i := pc)\<rparr>" for pc
    by simp
  show ?thesis
    using step
  proof (cases rule: fetch_step.cases)
    case (F_read nt p)
    show ?thesis
    proof (rule quiet [OF F_read(1) [unfolded same]])
      have "value_of E contents ((fm s)\<lparr>obj_locks := {}\<rparr>) p = Some (V p)"
        using mem fi F_read by (simp add: memory_ok_def in_use_def stored_def fetcher_ok_def)
      then show "fetcher_ok E V Q (fm s) (F_Check nt p (pt_get_object_id (Pt E) (metas (fm s) p)))"
        using fi F_read(2) by (cases "V p") (auto simp: fetcher_ok_def value_of_def own_id_def present_def Let_def)
    qed (use l hi F_read in \<open>simp_all add: reserved_def locks_same\<close>)
  next
    case (F_present nt p oid)
    show ?thesis by (rule quiet [OF F_present(1) [unfolded same]]) (use l hi F_present in \<open>simp_all add: reserved_def locks_same fetcher_ok_def\<close>)
  next
    case (F_absent nt p oid)
    show ?thesis by (rule quiet [OF F_absent(1) [unfolded same]])
      (use l hi F_absent fi in \<open>simp_all add: reserved_def locks_same fetcher_ok_def present_def\<close>)
  next
    case (F_lock nt p oid)
    show ?thesis by (rule quiet [OF F_lock(1) [unfolded lock_now_def]])
      (use l hi F_lock fi in \<open>simp_all add: reserved_def locks_acquire fetcher_ok_def\<close>)
  next
    case (F_raced nt p oid)
    show ?thesis by (rule quiet [OF F_raced(1) [unfolded same]])
      (use l hi F_raced in \<open>simp_all add: reserved_def locks_same fetcher_ok_def\<close>)
  next
    case (F_miss nt p oid)
    show ?thesis by (rule quiet [OF F_miss(1) [unfolded same]])
      (use l hi F_miss fi in \<open>simp_all add: reserved_def locks_same fetcher_ok_def present_def\<close>)
  next
    case (F_found nt p oid sz cs a f)
    note m = memory_ok_alloc [OF mem F_found(2,3,4), of s']
    show ?thesis by (rule fin [where pc = "F_Fetch p oid a sz", OF m(1)]) (use l hi F_found m(2) in \<open>simp_all add: locks_same\<close>)
  next
    case (F_wait nt p oid sz cs f)
    note m = memory_ok_alloc [OF mem F_wait(2,3,4), of s']
    show ?thesis by (rule fin [where pc = "F_Alloc nt p oid sz", OF m(1)]) (use l hi F_wait m(2) in \<open>simp_all add: locks_same fun_upd_idem\<close>)
  next
    case (F_fetch p oid a sz)
    have alone: "critical (fetchers s k) \<noteq> Some p" if "k \<noteq> i" for k
    proof
      assume "critical (fetchers s k) = Some p"
      then have "held s (Fetcher k) = Some (fst (snd (V p)))" using critical_held [OF fok] by (simp add: held_def)
      moreover have "held s (Fetcher i) = Some (fst (snd (V p)))"
        using critical_held [OF fi, of p] F_fetch(2) by (simp add: held_def critical_def)
      ultimately show False using locks_unique [OF l] that by blast
    qed
    note m = memory_ok_fetch [OF mem inj F_fetch(2) alone, of s']
    show ?thesis by (rule fin [where pc = "F_Unlock oid", OF m(1)]) (use l hi F_fetch m(2) in \<open>simp_all add: locks_same\<close>)
  next
    case (F_unlock oid)
    show ?thesis by (rule quiet [OF F_unlock(1) [unfolded unlock_object_def]])
      (use l hi F_unlock in \<open>simp_all add: reserved_def locks_release fetcher_ok_def\<close>)
  qed
qed

text \<open>The bytes of the picked regions stay, so a slave reads the same of an object at any time.\<close>

lemma at_object_id:
  assumes at: "at_object E F h0 cur idp len" and h: "\<forall>x \<in> F. body x \<longrightarrow> h x = h0 x"
  shows "rd_bytes h idp len = obj_id_bytes (Ob E) h0 cur"
proof -
  obtain h' where whole: "whole_object E F h0 cur" and h': "\<forall>x \<in> F. body x \<longrightarrow> h' x = h0 x"
      and idp: "idp = ob_get_obj_id (Ob E) h' cur" "len = unat (ob_get_obj_id_len (Ob E) h' cur)"
    using at by (auto simp: at_object_def)
  note same = same_object [OF whole h']
  have whole': "whole_object E F h' cur" using whole same by (simp add: whole_object_def bytes_of_def)
  have "\<forall>x \<in> F. body x \<longrightarrow> h x = h' x" using h h' by simp
  from same_object(5) [OF whole' this] have "rd_bytes h idp len = obj_id_bytes (Ob E) h' cur" by (simp add: idp)
  moreover have "obj_view (Ob E) h' cur = obj_view (Ob E) h0 cur"
    using view_bytes [OF _ whole_object_same [OF whole h']] whole by (simp add: whole_object_def)
  ultimately show ?thesis by (simp add: obj_view_def)
qed

lemma slaves_ok_upd:
  assumes sl: "slaves_ok F h0 ch rem s" and s': "slaves s' = (slaves s)(j := pc)" "queues s' = (queues s)(j := q)"
    and ok: "slave_ok G E F h0 ch pc q r" and r: "set r \<subseteq> set (rem j)"
  shows "slaves_ok F h0 ch (rem(j := r)) s'"
proof -
  have "set ((rem(j := r)) k) \<subseteq> set (rem k)" for k using r by simp
  then have "set ((rem(j := r)) i) \<inter> set ((rem(j := r)) k) = {}" if "i \<noteq> k" for i k
    using sl that unfolding slaves_ok_def by blast
  moreover have "slave_ok G E F h0 ch (slaves s' k) (queues s' k) ((rem(j := r)) k)" for k
    using sl ok by (simp add: slaves_ok_def s')
  ultimately show ?thesis by (simp add: slaves_ok_def)
qed

lemma rem_cons:
  assumes sl: "slaves_ok F h0 ch rem s" and r: "rem j = a # r"
  shows "(\<Union>k. set (rem k)) = insert a (\<Union>k. set ((rem(j := r)) k))" and "a \<notin> (\<Union>k. set ((rem(j := r)) k))"
proof -
  have split: "(\<Union>k. A k) = A j \<union> (\<Union>k \<in> - {j}. A k)" for A :: "nat \<Rightarrow> addr set" by auto
  let ?rest = "\<Union>k \<in> - {j}. set (rem k)"
  have all: "(\<Union>k. set (rem k)) = insert a (set r) \<union> ?rest" "(\<Union>k. set ((rem(j := r)) k)) = set r \<union> ?rest"
    unfolding split [of "\<lambda>k. set (rem k)"] split [of "\<lambda>k. set ((rem(j := r)) k)"] by (simp_all add: r)
  then show "(\<Union>k. set (rem k)) = insert a (\<Union>k. set ((rem(j := r)) k))" by simp
  have "distinct (rem j)" "\<And>k. k \<noteq> j \<Longrightarrow> set (rem j) \<inter> set (rem k) = {}" using sl by (auto simp: slaves_ok_def slave_ok_def)
  then have "a \<notin> set r" "a \<notin> ?rest" using r by auto
  then show "a \<notin> (\<Union>k. set ((rem(j := r)) k))" using all(2) by blast
qed

lemma memory_ok_freed: "memory_ok V Q N F h0 (insert a R) s \<Longrightarrow> ob_is_freed (Ob E) h0 a \<Longrightarrow> memory_ok V Q N F h0 R s"
  by (auto simp: memory_ok_def to_come_def)

lemma slave_keeps_inv:
  assumes step: "slave_step G E (\<lambda>_. True) j s s'" and inv: "threads_inv V Q N F h0 ch s" and inj: "inj_on (key V) Q"
  shows "threads_inv V Q N F h0 ch s'"
proof -
  obtain rem where l: "locks_ok (obj_locks (fm s)) (held s)" and mem: "memory_ok V Q N F h0 (\<Union>j. set (rem j)) s" and sl: "slaves_ok F h0 ch rem s"
    using inv by (auto simp: threads_inv_def)
  have hj: "held s (Slave j) = s_held (slaves s j)" by (simp add: held_def)
  have h0: "\<forall>x \<in> F. body x \<longrightarrow> heap (fm s) x = h0 x" using mem to_comeD(1) by (simp add: memory_ok_def) blast
  have so: "slave_ok G E F h0 ch (slaves s j) (queues s j) (rem j)" using sl by (simp add: slaves_ok_def)
  then obtain as where as: "rem j = as @ concat (map ch (queues s j))" "slave_at G E F h0 (slaves s j) as"
    by (auto simp: slave_ok_def)
  have fin: "threads_inv V Q N F h0 ch s'"
    if s': "fetchers s' = fetchers s" "slaves s' = (slaves s)(j := pc)" "queues s' = (queues s)(j := q)"
      and m: "memory_ok V Q N F h0 (\<Union>k. set ((rem(j := r)) k)) s'" and ok: "slave_ok G E F h0 ch pc q r" "set r \<subseteq> set (rem j)"
      and ls: "locks_ok (obj_locks (fm s')) ((held s)(Slave j := s_held pc))" for pc q r
    unfolding threads_inv_def held_slave [OF s'(2,1)] using ls m slaves_ok_upd [OF sl s'(2,3) ok] by blast
  have quiet: "threads_inv V Q N F h0 ch s'"
    if s': "s' = s\<lparr>fm := (fm s)\<lparr>obj_locks := ls\<rparr>, slaves := (slaves s)(j := pc), queues := (queues s)(j := q)\<rparr>"
      and ok: "slave_ok G E F h0 ch pc q (rem j)" and ls: "locks_ok ls ((held s)(Slave j := s_held pc))" for ls pc q
    by (rule fin [where pc = pc and q = q and r = "rem j"])
       (use memory_ok_slave [OF mem] ls ok in \<open>simp_all add: s' fun_upd_idem\<close>)
  have next_object: "\<exists>bs. as = cur # bs \<and> rem j = cur # bs @ concat (map ch (queues s j)) \<and> whole_object E F h0 cur
      \<and> slave_ok G E F h0 ch (S_Step cur right) (queues s j) (bs @ concat (map ch (queues s j)))"
    if c: "object_chain G E h0 right cur as" "as \<noteq> []" for cur right
  proof -
    obtain bs where bs: "as = cur # bs" using c by (cases as) auto
    then show ?thesis using so as(1) c(1) by (simp add: slave_ok_def slave_at_def)
  qed
  have skip: "threads_inv V Q N F h0 ch s'"
    if c: "object_chain G E h0 right cur as" "as \<noteq> []" and freed: "ob_is_freed (Ob E) h0 cur" and s': "s' = s\<lparr>slaves := (slaves s)(j := pc)\<rparr>"
      and pc: "s_held pc = s_held (slaves s j)"
      and at: "\<And>bs. slave_at G E F h0 (S_Step cur right) bs \<Longrightarrow> slave_at G E F h0 pc bs" for cur right pc
  proof -
    let ?q = "concat (map ch (queues s j))"
    obtain bs where bs: "rem j = cur # bs @ ?q" "slave_ok G E F h0 ch (S_Step cur right) (queues s j) (bs @ ?q)"
      using next_object [OF c] by blast
    note rc = rem_cons [OF sl bs(1)]
    show ?thesis
    proof (rule fin [where pc = pc and q = "queues s j" and r = "bs @ ?q"])
      have "memory_ok V Q N F h0 (\<Union>k. set ((rem(j := bs @ ?q)) k)) s" using memory_ok_freed [OF mem [unfolded rc(1)] freed] .
      then show "memory_ok V Q N F h0 (\<Union>k. set ((rem(j := bs @ ?q)) k)) s'"
        by (rule memory_ok_slave [where l = "obj_locks (fm s)"]) (simp_all add: s')
      show "slave_ok G E F h0 ch pc (queues s j) (bs @ ?q)" using bs(2) at by (auto simp: slave_ok_def)
      show "set (bs @ ?q) \<subseteq> set (rem j)" unfolding bs(1) by auto
    qed (use l hj s' pc in \<open>simp_all add: locks_same\<close>)
  qed
  show ?thesis
    using step
  proof (cases rule: slave_step.cases)
    case (S_task left right ts)
    have "slave_ok G E F h0 ch (S_Walk left right) ts (rem j)"
      unfolding slave_ok_def using so as S_task(2,3)
      by (intro conjI exI [of _ "ch (left, right)"]) (simp_all add: slave_ok_def slave_at_def)
    then show ?thesis using S_task l hj
      by (intro quiet [where ls = "obj_locks (fm s)" and pc = "S_Walk left right" and q = ts]) (simp_all add: locks_same)
  next
    case (S_end cur right)
    then have "as = []" using as(2) by (cases as) (simp_all add: slave_at_def)
    then show ?thesis using S_end so as l hj
      by (intro quiet [where ls = "obj_locks (fm s)" and pc = S_Next and q = "queues s j"]) (simp_all add: slave_ok_def slave_at_def locks_same)
  next
    case (S_skip cur right)
    have c: "object_chain G E h0 right cur as" "as \<noteq> []" using as(2) S_skip(2,3) by (auto simp: slave_at_def)
    have "whole_object E F h0 cur" using next_object [OF c] by blast
    then have "ob_is_freed (Ob E) h0 cur" using same_object(1) [OF _ h0] S_skip(4) by simp
    then show ?thesis by (rule skip [OF c _ S_skip(1)]) (simp_all add: S_skip(2))
  next
    case (S_live cur right)
    have c: "object_chain G E h0 right cur as" "as \<noteq> []" using as(2) S_live(2,3) by (auto simp: slave_at_def)
    then have "at_object E F h0 cur (ob_get_obj_id (Ob E) (heap (fm s)) cur) (unat (ob_get_obj_id_len (Ob E) (heap (fm s)) cur))"
      using next_object [OF c] h0 unfolding at_object_def by blast
    then show ?thesis using c S_live so as l hj
      by (intro quiet [where ls = "obj_locks (fm s)" and q = "queues s j" and pc = "S_Lock cur right
            (ob_get_obj_id (Ob E) (heap (fm s)) cur) (unat (ob_get_obj_id_len (Ob E) (heap (fm s)) cur))"]) (simp_all add: slave_ok_def slave_at_def locks_same)
  next
    case (S_lock cur right idp len)
    have a: "object_chain G E h0 right cur as" "as \<noteq> []" "at_object E F h0 cur idp len" using as(2) S_lock(2) by (simp_all add: slave_at_def)
    note k = at_object_id [OF a(3) h0]
    show ?thesis using a S_lock so as l hj k
      by (intro quiet [where ls = "insert (obj_id_bytes (Ob E) h0 cur) (obj_locks (fm s))" and pc = "S_Act cur right idp len (obj_id_bytes (Ob E) h0 cur)" and q = "queues s j"])
         (simp_all add: slave_ok_def slave_at_def locks_acquire lock_now_def)
  next
    case (S_freed cur right idp len k)
    have c: "object_chain G E h0 right cur as" "as \<noteq> []" and a: "at_object E F h0 cur idp len" "k = obj_id_bytes (Ob E) h0 cur"
      using as(2) S_freed(2) by (simp_all add: slave_at_def)
    have "ob_is_freed (Ob E) h0 cur" using same_object(1) [OF _ h0] a(1) S_freed(3) by (simp add: at_object_def)
    then show ?thesis by (rule skip [OF c _ S_freed(1)]) (use a in \<open>simp_all add: S_freed(2) slave_at_def\<close>)
  next
    case (S_out cur right idp len k cs f)
    let ?q = "concat (map ch (queues s j))"
    have c: "object_chain G E h0 right cur as" "as \<noteq> []" and a: "at_object E F h0 cur idp len" "k = obj_id_bytes (Ob E) h0 cur"
      using as(2) S_out(2) by (simp_all add: slave_at_def)
    obtain bs where bs: "rem j = cur # bs @ ?q" "whole_object E F h0 cur" "slave_ok G E F h0 ch (S_Step cur right) (queues s j) (bs @ ?q)"
      using next_object [OF c] by blast
    note rc = rem_cons [OF sl bs(1)] and ob = same_object [OF bs(2) h0]
    have live: "\<not> ob_is_freed (Ob E) h0 cur" using S_out(3) ob(1) by simp
    have look: "\<forall>i. \<not> looking (fetchers s i) (ob_get_ptr_addr (Ob E) h0 cur)" using S_out(4) ob(3) by simp
    have run: "swap_out E (ob_get_ptr_addr (Ob E) h0 cur) cur (on_core cs (fm s)) = Some (Inr f)" using S_out(6) ob(3) by simp
    have m: "obj_locks f = obj_locks (fm s)" "fm s' = f \<Longrightarrow> fetchers s' = fetchers s \<Longrightarrow> memory_ok V Q N F h0 (\<Union>k. set ((rem(j := bs @ ?q)) k)) s'"
      using memory_ok_out [OF mem [unfolded rc(1)] inj rc(2) bs(2) live S_out(5)] look unfolding run by auto
    show ?thesis
    proof (rule fin [where pc = "S_Unlock cur right idp len k" and q = "queues s j" and r = "bs @ ?q"])
      show "slave_ok G E F h0 ch (S_Unlock cur right idp len k) (queues s j) (bs @ ?q)"
        using bs(3) a by (auto simp: slave_ok_def slave_at_def)
      show "set (bs @ ?q) \<subseteq> set (rem j)" unfolding bs(1) by auto
    qed (use m l hj S_out(1,2) in \<open>simp_all add: locks_same\<close>)
  next
    case (S_unlock cur right idp len k)
    have a: "object_chain G E h0 right cur (cur # as)" "at_object E F h0 cur idp len" "k = obj_id_bytes (Ob E) h0 cur"
      using as(2) S_unlock(2) by (simp_all add: slave_at_def)
    note k = at_object_id [OF a(2) h0]
    show ?thesis using a S_unlock so as l hj k
      by (intro quiet [where ls = "obj_locks (fm s) - {k}" and pc = "S_Step cur right" and q = "queues s j"])
         (simp_all add: slave_ok_def slave_at_def locks_release unlock_object_def at_object_def)
  next
    case (S_advance cur right)
    have a: "object_chain G E h0 right cur (cur # as)" "whole_object E F h0 cur" using as(2) S_advance(2) by (simp_all add: slave_at_def)
    have "ob_size (Ob E) (heap (fm s)) cur = ob_size (Ob E) h0 cur" by (rule same_object(2) [OF a(2) h0])
    then show ?thesis using a S_advance so as l hj
      by (intro quiet [where ls = "obj_locks (fm s)" and pc = "S_Walk (cur + align_to G (ucast (ob_size (Ob E) h0 cur)) (of_nat 8)) right" and q = "queues s j"])
         (simp_all add: slave_ok_def slave_at_def locks_same)
  qed
qed

lemma reach_keeps_inv:
  assumes "threads_reach G E Q (\<lambda>_. True) s t" and inv: "threads_inv V Q N F h0 ch s" and inj: "inj_on (key V) Q"
  shows "threads_inv V Q N F h0 ch t"
  using assms(1) unfolding threads_reach_def
proof (induction rule: rtranclp_induct)
  case (step t t')
  from step(2) show ?case
  proof (cases rule: threads_step.cases)
    case (T_call i p nt)
    obtain rem where t: "locks_ok (obj_locks (fm t)) (held t)" "memory_ok V Q N F h0 (\<Union>j. set (rem j)) t" "slaves_ok F h0 ch rem t"
      using step(3) by (auto simp: threads_inv_def)
    have "held t (Fetcher i) = None" using T_call(2) by (simp add: held_def)
    then have "locks_ok (obj_locks (fm t)) ((held t)(Fetcher i := f_held (F_Read nt p)))" using t(1) by (simp add: locks_same)
    moreover have "held t' = (held t)(Fetcher i := f_held (F_Read nt p))" by (rule held_fetcher) (simp_all add: T_call(1))
    moreover have "memory_ok V Q N F h0 (\<Union>j. set (rem j)) t'"
      by (rule memory_ok_pc [OF t(2), where l = "obj_locks (fm t)" and i = i and pc = "F_Read nt p"])
         (use T_call in \<open>simp_all add: reserved_def fetcher_ok_def\<close>)
    moreover have "slaves_ok F h0 ch rem t'" using t(3) by (simp add: slaves_ok_def T_call(1))
    ultimately show ?thesis unfolding threads_inv_def using T_call(1) by auto
  next
    case (T_fetch i)
    then show ?thesis using fetch_keeps_inv [OF _ step(3) inj] by simp
  next
    case (T_slave j)
    then show ?thesis using slave_keeps_inv [OF _ step(3) inj] by simp
  qed
qed (rule inv)

end

section \<open>The start of the write-back\<close>

text \<open>
  The store is in order, the picked regions hold whole objects, the pointers of the live ones
  are marked, and the tasks of the master have been handed out to \<open>n\<close> slaves.
\<close>

definition write_back_ready :: "('q, 'd) gc_ext \<Rightarrow> ('q, 'd) ext \<Rightarrow> ('q \<Rightarrow> Region list) \<Rightarrow> ('q \<Rightarrow> nat) \<Rightarrow>
   ('d \<Rightarrow> u8 \<times> u8 list \<Rightarrow> u8 list option) \<Rightarrow> (Region \<Rightarrow> addr set) \<Rightarrow> (Region \<Rightarrow> addr set) \<Rightarrow> (u32 \<Rightarrow> addr set) \<Rightarrow>
   (addr \<Rightarrow> u8 \<times> u8 list \<times> u8 list) \<Rightarrow> addr set \<Rightarrow> nat \<Rightarrow> ((addr \<times> addr) \<Rightarrow> addr list) \<Rightarrow> nat \<Rightarrow> (nat \<Rightarrow> (addr \<times> addr) list) \<Rightarrow>
   ('q, 'd) fm_state \<Rightarrow> bool" where
  "write_back_ready G E items capacity contents area room T V Q N ch n qs s \<longleftrightarrow>
     store_inv E items capacity contents area room T V Q N s \<and> picked_ok E items area T N s \<and> parsed G E area Q ch s
   \<and> (\<forall>a \<in> set (picked_objects E ch s). \<not> ob_is_freed (Ob E) (heap s) a \<longrightarrow>
        pt_is_evacuation (Pt E) (metas s (ob_get_ptr_addr (Ob E) (heap s) a)))
   \<and> mset (concat (map qs [0..<n])) = mset (master_fn (Rg E) (from_regions s)) \<and> (\<forall>j \<ge> n. qs j = [])"

lemma concat_apart:
  assumes "distinct (concat (map g [0..<n]))" and "i < n" and "j < n" and "i \<noteq> j"
  shows "set (g i) \<inter> set (g j) = {}"
  using assms
proof (induction n)
  case (Suc n)
  have "set (g k) \<inter> set (g n) = {}" if "k < n" for k
  proof -
    have "set (g k) \<subseteq> set (concat (map g [0..<n]))" using that by auto
    moreover have "set (concat (map g [0..<n])) \<inter> set (g n) = {}" using Suc.prems(1) by simp
    ultimately show ?thesis by blast
  qed
  then show ?case using Suc.IH Suc.prems by (cases "i = n"; cases "j = n") (auto simp: less_Suc_eq)
qed simp

lemma concat_distinct: "distinct (concat (map g [0..<n])) \<Longrightarrow> i < n \<Longrightarrow> distinct (g i)"
  by (induction n) (auto simp: less_Suc_eq)

lemma concat_all:
  assumes "\<forall>j \<ge> n. g j = []"
  shows "(\<Union>j. set (g j)) = set (concat (map g [0..<n]))"
proof -
  have "set (g j) \<subseteq> set (concat (map g [0..<n]))" for j using assms by (cases "j < n") auto
  then show ?thesis by auto
qed

context object_store
begin

lemma start_inv:
  assumes ready: "write_back_ready G E items capacity contents area room T V Q N ch n qs s"
  shows "threads_inv V Q N (picked_bytes area s) (heap s) ch (threads_start s qs)" and "inj_on (key V) Q"
proof -
  let ?F = "picked_bytes area s" and ?t = "threads_start s qs" and ?rem = "\<lambda>j. concat (map ch (qs j))"
  have inv: "store_inv E items capacity contents area room T V Q N s" and po: "picked_ok E items area T N s" and pa: "parsed G E area Q ch s"
    and ms: "\<forall>a \<in> set (picked_objects E ch s). \<not> ob_is_freed (Ob E) (heap s) a \<longrightarrow>
        pt_is_evacuation (Pt E) (metas s (ob_get_ptr_addr (Ob E) (heap s) a))"
    and perm: "mset (concat (map qs [0..<n])) = mset (master_fn (Rg E) (from_regions s))" and none: "\<forall>j \<ge> n. qs j = []"
    using ready by (simp_all add: write_back_ready_def)
  show "inj_on (key V) Q" using inv by (simp add: store_inv_def)
  have w: "writing (\<lambda>_. True) V Q N ?F (heap s) (region_ids (Rg E) items (cache_region_manager s)) (from_regions s)
      (far_mem_region_manager s) (picked_objects E ch s) (live_bytes E Q s \<union> ?F) s"
    using marked_store(1) [OF inv po pa _ ms, where I = "\<lambda>_. True"] by simp
  have l: "obj_locks s = {}" and use: "in_use E contents V Q (live_bytes E Q s) s" using inv by (simp_all add: store_inv_def in_use_def)
  have sl: "s\<lparr>obj_locks := {}\<rparr> = s" using l by (metis fm_state.surjective fm_state.update_convs(7))
  have cc: "concat (map ?rem [0..<n]) = concat (map ch (concat (map qs [0..<n])))" by (induction n) simp_all
  have objs: "mset (concat (map ?rem [0..<n])) = mset (picked_objects E ch s)"
    unfolding cc picked_objects_def by (rule tasks_perm [OF perm])
  have dist: "distinct (concat (map ?rem [0..<n]))"
    using pa mset_eq_imp_distinct_iff [OF objs] by (simp add: parsed_def)
  have out: "?rem j = []" if "\<not> j < n" for j using none that by simp
  have all: "(\<Union>j. set (?rem j)) = set (picked_objects E ch s)"
    using concat_all [of n ?rem] none unfolding mset_eq_setD [OF objs] by simp
  have "memory_ok V Q N ?F (heap s) (\<Union>j. set (?rem j)) ?t"
    using w use unfolding all
    by (simp add: memory_ok_def threads_start_def writing_def spoken_for_def spaces_apart_def reserved_def fetcher_ok_def sl)
  moreover have "slaves_ok ?F (heap s) ch ?rem ?t"
  proof -
    have "distinct (?rem j)" for j
    proof (cases "j < n")
      case True
      then show ?thesis using concat_distinct [OF dist] by simp
    qed (simp add: out)
    moreover have apart: "set (?rem i) \<inter> set (?rem j) = {}" if "i \<noteq> j" for i j
    proof (cases "i < n \<and> j < n")
      case True
      then show ?thesis using concat_apart [OF dist] that by blast
    next
      case False
      then show ?thesis using out [of i] out [of j] by auto
    qed
    moreover have "set (qs j) \<subseteq> set (master_fn (Rg E) (from_regions s))" for j
    proof (cases "j < n")
      case True
      then show ?thesis unfolding mset_eq_setD [OF perm, symmetric] by auto
    qed (use none in simp)
    moreover have "set (?rem j) \<subseteq> set (picked_objects E ch s)" for j using all by blast
    moreover have "\<forall>t \<in> set (master_fn (Rg E) (from_regions s)). object_chain G E (heap s) (snd t) (fst t) (ch t)"
        "\<forall>a \<in> set (picked_objects E ch s). whole_object E ?F (heap s) a"
      using pa by (simp_all add: parsed_def)
    ultimately have "distinct (?rem j)" "\<forall>a \<in> set (?rem j). whole_object E ?F (heap s) a"
        "\<forall>t \<in> set (qs j). object_chain G E (heap s) (snd t) (fst t) (ch t)" for j by blast+
    then have "slave_ok G E ?F (heap s) ch S_Next (qs j) (?rem j)" for j
      unfolding slave_ok_def slave_at_def by (intro conjI exI [of _ "[]"]) simp_all
    then show ?thesis using apart by (simp add: slaves_ok_def threads_start_def)
  qed
  moreover have "locks_ok (obj_locks (fm ?t)) (held ?t)"
    by (auto simp: locks_ok_def held_def threads_start_def l split: thread.splits)
  ultimately show "threads_inv V Q N ?F (heap s) ch ?t" unfolding threads_inv_def by (intro conjI exI [of _ ?rem])
qed

lemma reachable_store:
  assumes inv: "threads_inv V Q N F h0 ch t" and inj: "inj_on (key V) Q"
  shows "\<forall>q \<in> Q. value_of E contents (fm t) q = Some (V q)" and "apart E Q (fm t)"
    and "fetchers t i = F_Fetch p oid a sz \<Longrightarrow>
      u64_bytes oid = fst (snd (V p)) \<and> \<not> present E (fm t) p \<and> addr_range a (unat sz) \<inter> live_bytes E Q (fm t) = {}"
    and "(\<forall>i. fetchers t i = F_Idle) \<Longrightarrow> (\<forall>j. slaves t j = S_Next \<and> queues t j = []) \<Longrightarrow>
      store_inv E items capacity contents area room T V Q N (fm t) \<and> live_bytes E Q (fm t) \<inter> F = {}"
proof -
  obtain rem where l: "locks_ok (obj_locks (fm t)) (held t)" and mem: "memory_ok V Q N F h0 (\<Union>j. set (rem j)) t" and sl: "slaves_ok F h0 ch rem t"
    using inv by (auto simp: threads_inv_def)
  have use: "in_use E contents V Q (live_bytes E Q (fm t)) ((fm t)\<lparr>obj_locks := {}\<rparr>)" using mem by (simp add: memory_ok_def)
  then show "\<forall>q \<in> Q. value_of E contents (fm t) q = Some (V q)"
    by (simp add: in_use_def stored_def ptr_ok_cong [of "(fm t)\<lparr>obj_locks := {}\<rparr>" _ "fm t"])
  show "apart E Q (fm t)" using use by (simp add: in_use_def apart_def)
  show "u64_bytes oid = fst (snd (V p)) \<and> \<not> present E (fm t) p \<and> addr_range a (unat sz) \<inter> live_bytes E Q (fm t) = {}"
    if pc: "fetchers t i = F_Fetch p oid a sz"
  proof -
    have "fetcher_ok E V Q (fm t) (fetchers t i)" "reserved (fetchers t i) \<inter> (live_bytes E Q (fm t) \<union> F) = {}"
      using mem by (simp_all add: memory_ok_def spaces_apart_def)
    then show ?thesis unfolding pc fetcher_ok_def reserved_def fetch_pc.simps own_id_def by blast
  qed
  assume idle: "\<forall>i. fetchers t i = F_Idle" and over: "\<forall>j. slaves t j = S_Next \<and> queues t j = []"
  have "held t x = None" for x using idle over by (cases x) (simp_all add: held_def)
  then have locks: "obj_locks (fm t) = {}" using l by (auto simp: locks_ok_def)
  then have "(fm t)\<lparr>obj_locks := {}\<rparr> = fm t" by (metis fm_state.surjective fm_state.update_convs(7))
  with use have use': "in_use E contents V Q (live_bytes E Q (fm t)) (fm t)" by simp
  have "live_bytes E Q (fm t) \<subseteq> spoken_for E Q F t" by (auto simp: spoken_for_def)
  then have "space (live_bytes E Q (fm t)) (fm t)" using mem space_ok_mono by (simp add: memory_ok_def) blast
  moreover have "rem j = []" for j
  proof -
    have "slave_ok G E F h0 ch (slaves t j) (queues t j) (rem j)" using sl by (simp add: slaves_ok_def)
    then show ?thesis using over by (simp add: slave_ok_def slave_at_def)
  qed
  then have "to_come E Q F h0 {} (fm t)" using mem by (simp add: memory_ok_def)
  then have "live_bytes E Q (fm t) \<inter> F = {}" using to_comeD(3) by (fastforce simp: live_bytes_def)
  ultimately show "store_inv E items capacity contents area room T V Q N (fm t) \<and> live_bytes E Q (fm t) \<inter> F = {}"
    using use' inj mem by (simp add: store_inv_def memory_ok_def)
qed

lemma unlocks_same:
  assumes inv: "threads_inv V Q N F h0 ch t" and pc: "slaves t j = S_Unlock cur right idp len k"
  shows "rd_bytes (heap (fm t)) idp len = k"
proof -
  obtain rem where mem: "memory_ok V Q N F h0 (\<Union>j. set (rem j)) t" and sl: "slaves_ok F h0 ch rem t"
    using inv by (auto simp: threads_inv_def)
  have h0: "\<forall>x \<in> F. body x \<longrightarrow> heap (fm t) x = h0 x" using mem to_comeD(1) by (simp add: memory_ok_def) blast
  have "slave_ok G E F h0 ch (slaves t j) (queues t j) (rem j)" using sl by (simp add: slaves_ok_def)
  then have "at_object E F h0 cur idp len" "k = obj_id_bytes (Ob E) h0 cur"
    unfolding pc slave_ok_def slave_at_def slave_pc.simps by blast+
  then show ?thesis using at_object_id h0 by simp
qed

text \<open>Nobody waits for ever: whoever is neither idle nor waiting for a lock can go on.\<close>

lemma fetcher_goes_on:
  assumes mem: "memory_ok V Q N F h0 R t" and pc: "fetchers t i \<noteq> F_Idle" "\<And>nt p oid. fetchers t i \<noteq> F_Lock nt p oid"
  shows "\<exists>t'. fetch_step E i t t'"
proof (cases "fetchers t i")
  case (F_Read nt p)
  then show ?thesis by (blast intro: fetch_step.F_read)
next
  case (F_Check nt p oid)
  then show ?thesis by (blast intro: fetch_step.F_present fetch_step.F_absent)
next
  case (F_Recheck nt p oid)
  then show ?thesis by (blast intro: fetch_step.F_raced fetch_step.F_miss)
next
  case (F_Alloc nt p oid sz)
  have cok: "cache_ok E items capacity N (fm t)" using mem by (simp add: memory_ok_def)
  then have cs: "\<forall>b. slot_core (cur_slot (fm t) b) < kNumCPUs" by (simp add: cache_ok_def)
  have "on_core (cur_slot (fm t)) (fm t) = fm t" by (simp add: on_core_def)
  then obtain res f where "allocate_local_object_nb E nt sz (on_core (cur_slot (fm t)) (fm t)) = Some (Inr (res, f))"
    using allocate_nb_spec [OF cok, of nt sz] by auto
  then show ?thesis using fetch_step.F_wait [OF F_Alloc cs] fetch_step.F_found [OF F_Alloc cs] by (cases res) blast+
next
  case (F_Fetch p oid a sz)
  then show ?thesis by (blast intro: fetch_step.F_fetch)
next
  case (F_Unlock oid)
  then show ?thesis by (blast intro: fetch_step.F_unlock)
qed (use pc in auto)

lemma slave_goes_on:
  assumes mem: "memory_ok V Q N F h0 (\<Union>j. set (rem j)) t" and sl: "slaves_ok F h0 ch rem t" and inj: "inj_on (key V) Q"
    and pc: "slaves t j \<noteq> S_Next \<or> queues t j \<noteq> []" "\<And>cur right idp len. slaves t j \<noteq> S_Lock cur right idp len"
    and look: "\<And>i p. \<not> looking (fetchers t i) p"
  shows "\<exists>t'. slave_step G E (\<lambda>_. True) j t t'"
proof (cases "slaves t j")
  case S_Next
  then obtain left right ts where "queues t j = (left, right) # ts" using pc(1) by (metis list.exhaust surj_pair)
  then show ?thesis using S_Next by (blast intro: slave_step.S_task)
next
  case (S_Walk cur right)
  then show ?thesis by (blast intro: slave_step.S_end slave_step.S_skip slave_step.S_live)
next
  case (S_Act cur right idp len k)
  have h0: "\<forall>x \<in> F. body x \<longrightarrow> heap (fm t) x = h0 x" using mem to_comeD(1) by (simp add: memory_ok_def) blast
  have cs: "\<forall>b. slot_core (cur_slot (fm t) b) < kNumCPUs" using mem by (simp add: memory_ok_def cache_ok_def)
  have "slave_ok G E F h0 ch (slaves t j) (queues t j) (rem j)" using sl by (simp add: slaves_ok_def)
  then obtain as where as: "rem j = as @ concat (map ch (queues t j))" "object_chain G E h0 right cur as" "as \<noteq> []" "at_object E F h0 cur idp len"
    unfolding S_Act slave_ok_def slave_at_def slave_pc.simps by blast
  then obtain bs where "as = cur # bs" by (cases as) auto
  then have r: "rem j = cur # (bs @ concat (map ch (queues t j)))" using as(1) by simp
  have whole: "whole_object E F h0 cur" using as(4) by (simp add: at_object_def)
  note rc = rem_cons [OF sl r] and ob = same_object [OF whole h0]
  show ?thesis
  proof (cases "ob_is_freed (Ob E) h0 cur")
    case True
    then show ?thesis using slave_step.S_freed [OF S_Act] ob(1) by blast
  next
    case False
    obtain f where "swap_out E (ob_get_ptr_addr (Ob E) h0 cur) cur (on_core (cur_slot (fm t)) (fm t)) = Some (Inr f)"
      using memory_ok_out [OF mem [unfolded rc(1)] inj rc(2) whole False cs] by blast
    then have "slave_step G E (\<lambda>_. True) j t (t\<lparr>fm := f, slaves := (slaves t)(j := S_Unlock cur right idp len k)\<rparr>)"
      by (intro slave_step.S_out [OF S_Act _ _ cs]) (use False ob look in simp_all)
    then show ?thesis by blast
  qed
next
  case (S_Unlock cur right idp len k)
  then show ?thesis by (blast intro: slave_step.S_unlock)
next
  case (S_Step cur right)
  then show ?thesis by (blast intro: slave_step.S_advance)
qed (use pc in auto)

lemma threads_go_on:
  assumes inv: "threads_inv V Q N F h0 ch t" and inj: "inj_on (key V) Q"
    and busy: "(\<exists>i. fetchers t i \<noteq> F_Idle) \<or> (\<exists>j. slaves t j \<noteq> S_Next \<or> queues t j \<noteq> [])"
  shows "\<exists>t'. (\<exists>i. fetch_step E i t t') \<or> (\<exists>j. slave_step G E (\<lambda>_. True) j t t')"
proof (rule ccontr)
  assume stuck: "\<not> ?thesis"
  obtain rem where l: "locks_ok (obj_locks (fm t)) (held t)" and mem: "memory_ok V Q N F h0 (\<Union>j. set (rem j)) t" and sl: "slaves_ok F h0 ch rem t"
    using inv by (auto simp: threads_inv_def)
  have f: "fetchers t i = F_Idle \<or> (\<exists>nt p oid. fetchers t i = F_Lock nt p oid)" for i
    using fetcher_goes_on [OF mem, of i] stuck by blast
  have look: "\<not> looking (fetchers t i) p" for i p using f [of i] by (auto simp: looking_def)
  have s: "slaves t j = S_Next \<and> queues t j = [] \<or> (\<exists>cur right idp len. slaves t j = S_Lock cur right idp len)" for j
    using slave_goes_on [OF mem sl inj, of j] look stuck by blast
  have "held t x = None" for x
  proof (cases x)
    case (Fetcher i)
    then show ?thesis using f [of i] by (auto simp: held_def)
  next
    case (Slave j)
    then show ?thesis using s [of j] by (auto simp: held_def)
  qed
  then have no: "k \<notin> obj_locks (fm t)" for k using l by (simp add: locks_ok_def)
  from busy show False
  proof
    assume "\<exists>i. fetchers t i \<noteq> F_Idle"
    then obtain i nt p oid where "fetchers t i = F_Lock nt p oid" using f by blast
    then show False using fetch_step.F_lock [where s = t and i = i, OF _ no] stuck by blast
  next
    assume "\<exists>j. slaves t j \<noteq> S_Next \<or> queues t j \<noteq> []"
    then obtain j cur right idp len where "slaves t j = S_Lock cur right idp len" using s by blast
    then show False using slave_step.S_lock [where s = t and j = j, OF _ no] stuck by blast
  qed
qed

end

section \<open>What the threads keep\<close>


text \<open>
  C12 (the object locks exclude): no two of the threads hold the lock of the same id, and the
  ids locked are exactly the ones they hold; a slave unlocks the id it has locked, although
  it reads it again from the object.
\<close>

theorem object_locks_exclude:
  assumes "object_store E items capacity contents area room T G"
    and "write_back_ready G E items capacity contents area room T V Q N ch n qs s"
    and "threads_reach G E Q (\<lambda>_. True) (threads_start s qs) t"
  shows "(\<forall>x y k. held t x = Some k \<and> held t y = Some k \<longrightarrow> x = y)
    \<and> obj_locks (fm t) = {k. \<exists>x. held t x = Some k}
    \<and> (\<forall>j cur right idp len k. slaves t j = S_Unlock cur right idp len k \<longrightarrow> rd_bytes (heap (fm t)) idp len = k)"
proof -
  note start = object_store.start_inv [OF assms(1,2)]
  note inv = object_store.reach_keeps_inv [OF assms(1,3) start]
  have "locks_ok (obj_locks (fm t)) (held t)" using inv by (simp add: object_store.threads_inv_def [OF assms(1)])
  moreover have "rd_bytes (heap (fm t)) idp len = k" if "slaves t j = S_Unlock cur right idp len k" for j cur right idp len k
    by (rule object_store.unlocks_same [OF assms(1) inv that])
  ultimately show ?thesis by (auto simp: locks_ok_def)
qed


section \<open>The sequential operations are runs\<close>

lemma reach_fetch: "threads_reach G E Q scoped s t \<Longrightarrow> fetch_step E i t t' \<Longrightarrow> threads_reach G E Q scoped s t'"
  unfolding threads_reach_def by (blast intro: rtranclp.rtrancl_into_rtrancl threads_step.T_fetch)

lemma reach_slave: "threads_reach G E Q scoped s t \<Longrightarrow> slave_step G E scoped j t t' \<Longrightarrow> threads_reach G E Q scoped s t'"
  unfolding threads_reach_def by (blast intro: rtranclp.rtrancl_into_rtrancl threads_step.T_slave)

lemma reach_call: "fetchers s i = F_Idle \<Longrightarrow> p \<in> Q \<Longrightarrow> threads_reach G E Q scoped s (s\<lparr>fetchers := (fetchers s)(i := F_Read nt p)\<rparr>)"
  unfolding threads_reach_def by (blast intro: threads_step.T_call)

text \<open>A fetch that finds the lock free and space at the first attempt, step by step.\<close>

lemma fetch_run:
  assumes pc: "fetchers s i = F_Lock nt p oid" and free: "u64_bytes oid \<notin> obj_locks (fm s)" and ab: "\<not> pt_is_present (Pt E) (metas (fm s) p)"
    and cs: "\<forall>b. slot_core (cur_slot (fm s) b) < kNumCPUs"
    and al: "allocate_local_object_nb E nt (pt_get_object_size (Pt E) (metas (fm s) p)) (lock_now (u64_bytes oid) (fm s)) = Some (Inr (Some a, f))"
  shows "threads_reach G E Q scoped s (s\<lparr>fm := fetch_object E oid p a f, fetchers := (fetchers s)(i := F_Unlock oid)\<rparr>)"
proof -
  let ?sz = "pt_get_object_size (Pt E) (metas (fm s) p)" and ?k = "u64_bytes oid"
  let ?s1 = "s\<lparr>fm := lock_now ?k (fm s), fetchers := (fetchers s)(i := F_Recheck nt p oid)\<rparr>"
  let ?s2 = "?s1\<lparr>fetchers := (fetchers s)(i := F_Alloc nt p oid ?sz)\<rparr>"
  let ?s3 = "?s2\<lparr>fm := f, fetchers := (fetchers s)(i := F_Fetch p oid a ?sz)\<rparr>"
  have core: "on_core (cur_slot (fm s)) (lock_now ?k (fm s)) = lock_now ?k (fm s)" by (simp add: on_core_def lock_now_def)
  have one: "fetch_step E i s ?s1" by (rule fetch_step.F_lock [OF pc free])
  have two: "fetch_step E i ?s1 ?s2" using fetch_step.F_miss [of ?s1 i nt p oid E] ab by (simp add: lock_now_def)
  have three: "fetch_step E i ?s2 ?s3" using fetch_step.F_found [of ?s2 i nt p oid ?sz "cur_slot (fm s)" E a f] cs al core by simp
  have four: "fetch_step E i ?s3 (s\<lparr>fm := fetch_object E oid p a f, fetchers := (fetchers s)(i := F_Unlock oid)\<rparr>)"
    using fetch_step.F_fetch [of ?s3 i p oid a ?sz E] by simp
  have "threads_reach G E Q scoped s s" by (simp add: threads_reach_def)
  then show ?thesis using one two three four by (blast intro: reach_fetch)
qed

text \<open>
  The sequential \<^verbatim>\<open>swap_in\<close> is a run: where the pointer is present, or the lock of its id
  is free and there is space, \<^verbatim>\<open>swap_in\<close> returns, and the threads can reach the state it
  returns with the thread idle again.
\<close>

theorem swap_in_is_a_run:
  assumes "fetchers s i = F_Idle" and "p \<in> Q" and "\<forall>b. slot_core (cur_slot (fm s) b) < kNumCPUs"
    and "present E (fm s) p \<or> (let k = u64_bytes (pt_get_object_id (Pt E) (metas (fm s) p)) in
      k \<notin> obj_locks (fm s) \<and> lock_wait E k (fm s) = Some (fm s)
      \<and> (\<exists>a f. allocate_local_object_nb E nt (pt_get_object_size (Pt E) (metas (fm s) p)) (lock_now k (fm s)) = Some (Inr (Some a, f))))"
  shows "\<exists>f. swap_in E nt p (fm s) = Some (Inr f) \<and> threads_reach G E Q scoped s (s\<lparr>fm := f\<rparr>)"
proof -
  let ?oid = "pt_get_object_id (Pt E) (metas (fm s) p)"
  let ?k = "u64_bytes ?oid" and ?sz = "pt_get_object_size (Pt E) (metas (fm s) p)"
  let ?s1 = "s\<lparr>fetchers := (fetchers s)(i := F_Read nt p)\<rparr>" and ?s2 = "s\<lparr>fetchers := (fetchers s)(i := F_Check nt p ?oid)\<rparr>"
  have idle: "s\<lparr>fm := f, fetchers := (fetchers s)(i := F_Idle)\<rparr> = s\<lparr>fm := f\<rparr>" for f
    using assms(1) by (simp add: fun_upd_idem)
  have "threads_reach G E Q scoped s ?s1" by (rule reach_call [OF assms(1,2)])
  moreover have "fetch_step E i ?s1 ?s2" using fetch_step.F_read [of ?s1 i nt p E] by simp
  ultimately have called: "threads_reach G E Q scoped s ?s2" by (rule reach_fetch)
  show ?thesis
  proof (cases "present E (fm s) p")
    case True
    then have "fetch_step E i ?s2 (s\<lparr>fetchers := (fetchers s)(i := F_Idle)\<rparr>)"
      using fetch_step.F_present [of ?s2 i nt p ?oid E] by (simp add: present_def)
    then have "threads_reach G E Q scoped s (s\<lparr>fm := fm s\<rparr>)" using reach_fetch [OF called] idle [of "fm s"] by simp
    then show ?thesis using True by (intro exI [of _ "fm s"]) (simp add: swap_in_def present_def)
  next
    case False
    then obtain a f where k: "?k \<notin> obj_locks (fm s)" "lock_wait E ?k (fm s) = Some (fm s)"
        and al: "allocate_local_object_nb E nt ?sz (lock_now ?k (fm s)) = Some (Inr (Some a, f))"
      using assms(4) by (auto simp: Let_def)
    let ?s3 = "s\<lparr>fetchers := (fetchers s)(i := F_Lock nt p ?oid)\<rparr>"
    let ?s4 = "s\<lparr>fm := fetch_object E ?oid p a f, fetchers := (fetchers s)(i := F_Unlock ?oid)\<rparr>"
    let ?f = "unlock_object ?k (fetch_object E ?oid p a f)"
    have ab: "\<not> pt_is_present (Pt E) (metas (fm s) p)" using False by (simp add: present_def)
    have "fetch_step E i ?s2 ?s3" using fetch_step.F_absent [of ?s2 i nt p ?oid E] ab by simp
    with called have "threads_reach G E Q scoped s ?s3" by (rule reach_fetch)
    moreover have "threads_reach G E Q scoped ?s3 ?s4" using fetch_run [of ?s3 i nt p ?oid E a f] k(1) ab assms(3) al by simp
    ultimately have "threads_reach G E Q scoped s ?s4" unfolding threads_reach_def by (rule rtranclp_trans)
    moreover have "fetch_step E i ?s4 (s\<lparr>fm := ?f, fetchers := (fetchers s)(i := F_Idle)\<rparr>)"
      using fetch_step.F_unlock [of ?s4 i ?oid E] by simp
    ultimately have run: "threads_reach G E Q scoped s (s\<lparr>fm := ?f\<rparr>)" using reach_fetch idle by metis
    have "lock_object E ?k (fm s) = Some (Inr (lock_now ?k (fm s)))" using k(2) by (simp add: lock_object_def lock_now_def)
    moreover have "allocate_local_object E nt ?sz (lock_now ?k (fm s)) = Some (Inr (a, f))" using al by (rule blocking_agrees)
    ultimately have "swap_in E nt p (fm s) = Some (Inr ?f)"
      using ab by (simp add: swap_in_def lock_now_def Let_def)
    then show ?thesis using run by blast
  qed
qed

text \<open>
  So is the visit of a slave: where the object is freed, or the lock of its id is free and
  nobody in a scope is looking at its pointer, the slave can go from the object to the step
  beyond it, and the state is the one \<^verbatim>\<open>visit_object\<close> returns.
\<close>

theorem visit_is_a_run:
  assumes "slaves s j = S_Walk cur right" and "cur + of_nat (ob_kHeaderSize (Ob E)) < right"
    and "\<forall>b. slot_core (cur_slot (fm s) b) < kNumCPUs" and "visit_object E (swap_out E) cur (fm s) = Some (Inr f)"
    and "ob_is_freed (Ob E) (heap (fm s)) cur \<or> (let k = rd_bytes (heap (fm s)) (ob_get_obj_id (Ob E) (heap (fm s)) cur)
        (unat (ob_get_obj_id_len (Ob E) (heap (fm s)) cur)) in
      k \<notin> obj_locks (fm s) \<and> lock_wait E k (fm s) = Some (fm s)
      \<and> (\<forall>i. scoped i \<longrightarrow> \<not> looking (fetchers s i) (ob_get_ptr_addr (Ob E) (heap (fm s)) cur)))"
  shows "threads_reach G E Q scoped s (s\<lparr>fm := f, slaves := (slaves s)(j := S_Step cur right)\<rparr>)"
proof -
  let ?h = "heap (fm s)"
  let ?idp = "ob_get_obj_id (Ob E) ?h cur" and ?len = "unat (ob_get_obj_id_len (Ob E) ?h cur)" and ?p = "ob_get_ptr_addr (Ob E) ?h cur"
  let ?k = "rd_bytes ?h ?idp ?len"
  have refl: "threads_reach G E Q scoped s s" by (simp add: threads_reach_def)
  show ?thesis
  proof (cases "ob_is_freed (Ob E) ?h cur")
    case True
    then have "f = fm s" using assms(4) by (simp add: visit_object_def)
    then show ?thesis using reach_slave [OF refl slave_step.S_skip [OF assms(1,2) True]] by simp
  next
    case False
    then have k: "?k \<notin> obj_locks (fm s)" "lock_wait E ?k (fm s) = Some (fm s)" and look: "\<forall>i. scoped i \<longrightarrow> \<not> looking (fetchers s i) ?p"
      using assms(5) by (simp_all add: Let_def)
    have "lock_object E ?k (fm s) = Some (Inr (lock_now ?k (fm s)))" using k(2) by (simp add: lock_object_def lock_now_def)
    then obtain g where out: "swap_out E ?p cur (lock_now ?k (fm s)) = Some (Inr g)" and f: "f = unlock_object (rd_bytes (heap g) ?idp ?len) g"
      using assms(4) False by (auto simp: visit_object_def Let_def and_then_Some_Inr lock_now_def)
    let ?s1 = "s\<lparr>slaves := (slaves s)(j := S_Lock cur right ?idp ?len)\<rparr>"
    let ?s2 = "s\<lparr>fm := lock_now ?k (fm s), slaves := (slaves s)(j := S_Act cur right ?idp ?len ?k)\<rparr>"
    let ?s3 = "s\<lparr>fm := g, slaves := (slaves s)(j := S_Unlock cur right ?idp ?len ?k)\<rparr>"
    have core: "on_core (cur_slot (fm s)) (lock_now ?k (fm s)) = lock_now ?k (fm s)" by (simp add: on_core_def lock_now_def)
    have one: "slave_step G E scoped j s ?s1" by (rule slave_step.S_live [OF assms(1,2) False])
    have two: "slave_step G E scoped j ?s1 ?s2" using slave_step.S_lock [of ?s1 j cur right ?idp ?len G E scoped] k(1) by simp
    have "heap (fm ?s2) = ?h" by (simp add: lock_now_def)
    then have three: "slave_step G E scoped j ?s2 ?s3"
      using slave_step.S_out [of ?s2 j cur right ?idp ?len ?k E scoped "cur_slot (fm s)" g G] False look assms(3) out core by simp
    have four: "slave_step G E scoped j ?s3 (s\<lparr>fm := f, slaves := (slaves s)(j := S_Step cur right)\<rparr>)"
      using slave_step.S_unlock [of ?s3 j cur right ?idp ?len ?k G E scoped] by (simp add: f)
    show ?thesis using refl one two three four by (blast intro: reach_slave)
  qed
qed

section \<open>An instance\<close>

text \<open>The picked region of \<open>demo_full\<close>, its one task with the slave 0.\<close>

definition demo_picked :: "(ring, u8 \<times> u8 list \<Rightarrow> u8 list option) fm_state" where
  "demo_picked = pick_from_regions demo_gc demo_ext demo_full"

definition demo_queues :: "nat \<Rightarrow> (addr \<times> addr) list" where
  "demo_queues j = (if j = 0 then [(2054, 2078)] else [])"

lemma demo_ready:
  "write_back_ready demo_gc demo_ext ring_items ring_cap (\<lambda>d. d) layout_area layout_room demo_territory
     (\<lambda>_. (5, u64_bytes 9, [1, 2, 3])) {64} 50 (\<lambda>t. [2054]) 1 demo_queues demo_picked"
proof -
  obtain m where t: "demo_picked = demo_full\<lparr>cache_region_manager := m, from_regions := [demo_used]\<rparr>"
    unfolding demo_picked_def using demo_full_picks by blast
  have "size (region_ids (Rg demo_ext) ring_items (cache_region_manager demo_full)) \<le> 50" by (simp add: demo_full_ids)
  note ps = demo_store.pick_store(1,2) [OF demo_full_inv this, folded demo_picked_def]
  have tasks: "master_fn (Rg demo_ext) (from_regions demo_picked) = [(2054, 2078)]"
    by (simp add: t master_fn_def) (simp add: layout_regions_def kObjectPos_def kHeaderSize_def)
  have objs: "picked_objects demo_ext (\<lambda>t. [2054]) demo_picked = [2054]" unfolding picked_objects_def tasks by simp
  have "pt_is_evacuation (Pt demo_ext) (metas demo_picked 64)"
    using demo_present_meta(2) [of True] by (simp add: t del: demo_present_simps)
  then show ?thesis
    using ps demo_full_parsed [folded demo_picked_def] demo_owned_object(1) unfolding write_back_ready_def objs tasks
    by (simp add: t demo_queues_def)
qed

lemma demo_picked_fields:
  "heap demo_picked = heap demo_owned" "obj_locks demo_picked = {}" "metas demo_picked = metas (demo_present True)"
  "cur_slot demo_picked = (\<lambda>nt. if nt then Nt_Slot 3 else Slot 3)"
  using demo_full_picks unfolding demo_picked_def by auto

text \<open>Thread 3 has called \<^verbatim>\<open>swap_in\<close>, slave 0 has locked the object of the pointer.\<close>

lemma demo_locked:
  "\<exists>t. threads_reach demo_gc demo_ext {64} (\<lambda>_. True) (threads_start demo_picked demo_queues) t
    \<and> fetchers t 3 = F_Read False 64 \<and> held t (Slave 0) \<noteq> None"
proof -
  define s1 where "s1 = (threads_start demo_picked demo_queues)\<lparr>fetchers := (\<lambda>_. F_Idle)(3 := F_Read False 64)\<rparr>"
  define s2 where "s2 = s1\<lparr>slaves := (\<lambda>_. S_Next)(0 := S_Walk 2054 2078), queues := demo_queues(0 := [])\<rparr>"
  let ?idp = "ob_get_obj_id (Ob demo_ext) (heap demo_picked) 2054" and ?len = "unat (ob_get_obj_id_len (Ob demo_ext) (heap demo_picked) 2054)"
  define s3 where "s3 = s2\<lparr>slaves := (\<lambda>_. S_Next)(0 := S_Lock 2054 2078 ?idp ?len)\<rparr>"
  let ?k = "rd_bytes (heap demo_picked) ?idp ?len"
  let ?t = "s3\<lparr>fm := lock_now ?k demo_picked, slaves := (\<lambda>_. S_Next)(0 := S_Act 2054 2078 ?idp ?len ?k)\<rparr>"
  note defs = s1_def s2_def s3_def threads_start_def demo_queues_def
  have live: "\<not> ob_is_freed byte_objects (heap demo_picked) 2054" using demo_owned_object(2) by (simp add: demo_picked_fields)
  have "threads_reach demo_gc demo_ext {64} (\<lambda>_. True) (threads_start demo_picked demo_queues) s1"
    using reach_call [of "threads_start demo_picked demo_queues" 3 64 "{64}"] by (simp add: defs)
  moreover have "slave_step demo_gc demo_ext (\<lambda>_. True) 0 s1 s2"
    using slave_step.S_task [of s1 0 2054 2078 "[]"] by (simp add: defs)
  moreover have "slave_step demo_gc demo_ext (\<lambda>_. True) 0 s2 s3"
    using slave_step.S_live [of s2 0 2054 2078 demo_ext] live by (simp add: defs)
  moreover have "slave_step demo_gc demo_ext (\<lambda>_. True) 0 s3 ?t"
    using slave_step.S_lock [of s3 0 2054 2078 ?idp ?len] by (simp add: defs demo_picked_fields(2))
  ultimately have "threads_reach demo_gc demo_ext {64} (\<lambda>_. True) (threads_start demo_picked demo_queues) ?t"
    by (blast intro: reach_slave)
  then show ?thesis by (intro exI [of _ ?t]) (simp add: defs held_def)
qed


theorem object_locks_exclude_witness:
  "\<exists>t k. threads_reach demo_gc demo_ext {64} (\<lambda>_. True) (threads_start demo_picked demo_queues) t
    \<and> held t (Slave 0) = Some k \<and> k \<in> obj_locks (fm t) \<and> held t (Fetcher 3) \<noteq> Some k"
proof -
  obtain t k where t: "threads_reach demo_gc demo_ext {64} (\<lambda>_. True) (threads_start demo_picked demo_queues) t" "held t (Slave 0) = Some k"
    using demo_locked by blast
  from object_locks_exclude [OF demo_store.object_store_axioms demo_ready t(1)] show ?thesis using t by blast
qed


theorem swap_in_is_a_run_witness:
  "\<exists>f. swap_in demo_ext False 64 demo_absent = Some (Inr f)
    \<and> threads_reach demo_gc demo_ext {64} (\<lambda>_. True) (threads_start demo_absent (\<lambda>_. [])) ((threads_start demo_absent (\<lambda>_. []))\<lparr>fm := f\<rparr>)"
proof -
  let ?k = "u64_bytes (pt_get_object_id format_ptrs (metas demo_absent 64))"
  have ok: "cache_ok demo_ext ring_items ring_cap 50 (lock_now ?k demo_absent)" using demo_absent_ok(1) by (simp add: cache_ok_def lock_now_def)
  have "\<exists>a f. allocate_local_object_nb demo_ext False 23 (lock_now ?k demo_absent) = Some (Inr (Some a, f))"
    by (rule demo.nb_returns_address [OF ok]) (use demo_room [of 23] in \<open>simp add: lock_now_def\<close>)
  then show ?thesis
    using swap_in_is_a_run [of "threads_start demo_absent (\<lambda>_. [])" 7 64 "{64}" demo_ext False]
    by (simp add: threads_start_def demo_absent_meta kNumCPUs_def Let_def)
qed

end
