(* ===== verification/Fm_Races.thy ===== *)
theory Fm_Races
  imports Fm_Threads
begin

text \<open>
  Why the threads that fetch must be inside a scope: a run of \<open>Fm_Threads\<close> in which a thread
  outside one, such as the pager of \<^verbatim>\<open>src/dswap.cpp\<close>, gives a pointer the data of another
  object.
\<close>

section \<open>The state before\<close>

text \<open>
  A state where the collector has picked and marked the object of the pointer at 64, and the
  device holds object 4 of the same data structure. The bits of the id in the word of the
  present pointer read 4.
\<close>

definition demo_racy :: "(ring, u8 \<times> u8 list \<Rightarrow> u8 list option) fm_state" where
  "demo_racy = demo_full\<lparr>metas := metas (demo_present False), device := [(5, u64_bytes 4) \<mapsto> [7]],
     cache_region_manager := demo_rm [demo_region 0] [] [], from_regions := [demo_used]\<rparr>"

lemma demo_racy_id: "pt_get_object_id format_ptrs (metas (demo_present False) 64) = 4"
proof -
  have "to_word 2054 OR (flag 16 OR flag 7) = 270860416"
    by (simp add: to_word_def flag_def meta_constants bo_header_def)
  then show ?thesis by (simp add: format_fields)
qed

lemma demo_racy_fields [simp]:
  "heap demo_racy = heap demo_owned" "metas demo_racy = metas (demo_present False)" "device demo_racy = [(5, u64_bytes 4) \<mapsto> [7]]"
  "cache_region_manager demo_racy = demo_rm [demo_region 0] [] []" "obj_locks demo_racy = {}"
  "cur_slot demo_racy = (\<lambda>nt. if nt then Nt_Slot 3 else Slot 3)" "evac_notifiers demo_racy = (\<lambda>_. 0)" "copy_notifiers demo_racy = (\<lambda>_. 0)"
  by (simp_all add: demo_racy_def)

lemma demo_racy_ok: "cache_ok demo_ext ring_items ring_cap 50 demo_racy"
proof -
  have "region_ids layout_regions ring_items (demo_rm [demo_region 0] [] []) = {#0#}"
    by (simp add: region_ids_split valid_ids_default) (simp add: demo_rm_def demo_queue_items kInvalidIdx_def)
  then have "rm_wf layout_regions ring_items ring_cap 50 (demo_rm [demo_region 0] [] [])"
    by (simp add: rm_wf_def rm_ok_def) (simp add: demo_rm_def demo_queue_items kInvalidIdx_def)
  then show ?thesis by (simp add: cache_ok_def kNumCPUs_def)
qed

lemma demo_racy_object:
  "present demo_ext demo_racy 64" "value_of demo_ext (\<lambda>d. d) demo_racy 64 = Some (5, u64_bytes 9, [1, 2, 3])"
proof -
  note m = demo_present_meta [of False]
  show "present demo_ext demo_racy 64" using m(1) by (simp add: present_def del: demo_present_simps)
  show "value_of demo_ext (\<lambda>d. d) demo_racy 64 = Some (5, u64_bytes 9, [1, 2, 3])"
    using m(1,6) demo_owned_object(3) by (simp add: value_of_def Let_def del: demo_present_simps)
qed

text \<open>The eviction.\<close>

lemma demo_racy_out:
  assumes "f = demo_racy\<lparr>obj_locks := l\<rparr>"
  shows "\<exists>d. swap_out demo_ext 64 2054 f = Some (Inr (f\<lparr>device := d, metas := (metas f)(64 := pt_gc_wb format_ptrs 5 23 9 (metas f 64))\<rparr>))
    \<and> d (5, u64_bytes 4) = Some [7]"
proof -
  note m = demo_present_meta [of False] and o = demo_owned_object
  have f: "heap f = heap demo_owned" "metas f = metas (demo_present False)" "device f = [(5, u64_bytes 4) \<mapsto> [7]]" "evac_notifiers f = (\<lambda>_. 0)"
    by (simp_all add: assms)
  have v: "obj_id_bytes byte_objects (heap demo_owned) 2054 = u64_bytes 9" "ob_get_ds_id byte_objects (heap demo_owned) 2054 = 5"
    using o(3) by (simp_all add: obj_view_def)
  have un: "\<not> pt_is_shared (Pt demo_ext) (metas f 64)" using m(5) by (simp add: f del: demo_present_simps)
  obtain d where e: "evict_object demo_ext 64 2054 True f = f\<lparr>device := d, metas := (metas f)(64 := pt_gc_wb format_ptrs 5 23 9 (metas f 64))\<rparr>"
      "d = (device f)((5, u64_bytes 9) \<mapsto> obj_data byte_objects (heap demo_owned) 2054)"
    using demo.evict_spec [OF un, of 2054 9 True] o(4,5) v by (simp add: f)
  have "u64_bytes 4 \<noteq> u64_bytes 9" by simp
  then have "d (5, u64_bytes 4) = Some [7]" using e(2) f(3) by simp
  moreover have "swap_out demo_ext 64 2054 f = Some (Inr (evict_object demo_ext 64 2054 True f))"
    using m(2,3,4,5) by (simp add: swap_out_def evacuation_flags_def f del: demo_present_simps)
  ultimately show ?thesis using e(1) by auto
qed

lemma demo_racy_visit:
  "\<exists>d. visit_object demo_ext (swap_out demo_ext) 2054 demo_racy
      = Some (Inr (demo_racy\<lparr>device := d, metas := (metas demo_racy)(64 := pt_gc_wb format_ptrs 5 23 9 (metas demo_racy 64))\<rparr>))
    \<and> d (5, u64_bytes 4) = Some [7]"
proof -
  note o = demo_owned_object
  let ?h = "heap demo_racy"
  let ?idp = "ob_get_obj_id (Ob demo_ext) ?h 2054" and ?len = "unat (ob_get_obj_id_len (Ob demo_ext) ?h 2054)"
  let ?k = "rd_bytes ?h ?idp ?len"
  let ?f = "demo_racy\<lparr>obj_locks := {?k}\<rparr>"
  obtain d where d: "swap_out demo_ext 64 2054 ?f = Some (Inr (?f\<lparr>device := d, metas := (metas ?f)(64 := pt_gc_wb format_ptrs 5 23 9 (metas ?f 64))\<rparr>))"
      "d (5, u64_bytes 4) = Some [7]"
    using demo_racy_out [OF refl] by blast
  have "demo_racy\<lparr>device := d, metas := m, obj_locks := {}\<rparr> = demo_racy\<lparr>device := d, metas := m\<rparr>" for m
    by (rule fm_state.equality) simp_all
  then show ?thesis using d o(1,2)
    by (intro exI [of _ d]) (simp add: visit_object_def lock_object_def unlock_object_def Let_def)
qed

text \<open>The rest of the fetch, with the lock of id 4 and no other thread in the way.\<close>

lemma demo_racy_fetch:
  assumes pc: "fetchers s 0 = F_Lock False 64 4" and f: "obj_locks (fm s) = {}" "cache_ok demo_ext ring_items ring_cap 50 (fm s)"
      "cache_region_manager (fm s) = demo_rm [demo_region 0] [] []" "device (fm s) (5, u64_bytes 4) = Some [7]"
    and ab: "\<not> pt_is_present format_ptrs (metas (fm s) 64)" "pt_get_object_size format_ptrs (metas (fm s) 64) = 23"
      "pt_get_ds_id format_ptrs (metas (fm s) 64) = 5" "\<not> pt_is_shared format_ptrs (metas (fm s) 64)"
  shows "\<exists>t. threads_reach demo_gc demo_ext Q scoped s t \<and> value_of demo_ext (\<lambda>d. d) (fm t) 64 = Some (5, u64_bytes 4, [7])"
proof -
  let ?g = "lock_now (u64_bytes 4) (fm s)"
  have gok: "cache_ok demo_ext ring_items ring_cap 50 ?g" using f(2) by (simp add: cache_ok_def lock_now_def)
  obtain a g where al: "allocate_local_object_nb demo_ext False 23 ?g = Some (Inr (Some a, g))"
    using demo.nb_returns_address [OF gok, of 23] demo_room [of 23] f(3) by (auto simp: lock_now_def)
  have fr: "alloc_frame demo_ext ring_items ring_cap 50 ?g g" and pl: "placed a 23" "addressable byte_objects a"
    using demo.allocate_nb_spec [OF gok, of False 23] al by auto
  note g = alloc_frame_fields(1,2) [OF fr, unfolded lock_now_def, simplified]
  have "threads_reach demo_gc demo_ext Q scoped s (s\<lparr>fm := fetch_object demo_ext 4 64 a g, fetchers := (fetchers s)(0 := F_Unlock 4)\<rparr>)"
    by (rule fetch_run [OF pc, where f = g]) (use f ab al in \<open>simp_all add: cache_ok_def\<close>)
  moreover have "value_of demo_ext (\<lambda>d. d) (fetch_object demo_ext 4 64 a g) 64 = Some (5, u64_bytes 4, [7])"
    using demo.fetch_spec [of g 64 4 "[7]" 23 a] pl ab g f(4) by (auto simp: value_of_def Let_def)
  ultimately show ?thesis
    by (intro exI [of _ "s\<lparr>fm := fetch_object demo_ext 4 64 a g, fetchers := (fetchers s)(0 := F_Unlock 4)\<rparr>"]) simp
qed

text \<open>
  C10 (a fetch outside a scope): a thread outside a scope that calls \<^verbatim>\<open>swap_in\<close> on a
  pointer whose object is in the cache reads an id that is none. When the object is written
  back before the thread looks at the pointer again, the thread locks and fetches what that
  id happens to name: here the pointer of object 9 gets the data of object 4.
\<close>

theorem unscoped_fetch_takes_wrong_object:
  "\<exists>t. threads_reach demo_gc demo_ext {64} (\<lambda>i. i \<noteq> 0) (threads_start demo_racy demo_queues) t
    \<and> value_of demo_ext (\<lambda>d. d) demo_racy 64 = Some (5, u64_bytes 9, [1, 2, 3])
    \<and> value_of demo_ext (\<lambda>d. d) (fm t) 64 = Some (5, u64_bytes 4, [7])"
proof -
  let ?reach = "threads_reach demo_gc demo_ext {64} (\<lambda>i. i \<noteq> 0) (threads_start demo_racy demo_queues)"
  obtain d where visit: "visit_object demo_ext (swap_out demo_ext) 2054 demo_racy
        = Some (Inr (demo_racy\<lparr>device := d, metas := (metas demo_racy)(64 := pt_gc_wb format_ptrs 5 23 9 (metas demo_racy 64))\<rparr>))"
      and d: "d (5, u64_bytes 4) = Some [7]"
    using demo_racy_visit by blast
  define f where "f = demo_racy\<lparr>device := d, metas := (metas demo_racy)(64 := pt_gc_wb format_ptrs 5 23 9 (metas demo_racy 64))\<rparr>"
  define s1 :: "(ring, u8 \<times> u8 list \<Rightarrow> u8 list option) threads" where
    "s1 = \<lparr>fm = demo_racy, fetchers = (\<lambda>_. F_Idle)(0 := F_Read False 64), slaves = (\<lambda>_. S_Next), queues = demo_queues\<rparr>"
  define s2 where "s2 = s1\<lparr>fetchers := (\<lambda>_. F_Idle)(0 := F_Check False 64 4)\<rparr>"
  define s3 where "s3 = s2\<lparr>slaves := (\<lambda>_. S_Next)(0 := S_Walk 2054 2078), queues := demo_queues(0 := [])\<rparr>"
  define s4 where "s4 = s3\<lparr>fm := f, slaves := (\<lambda>_. S_Next)(0 := S_Step 2054 2078)\<rparr>"
  define s5 where "s5 = s4\<lparr>fetchers := (\<lambda>_. F_Idle)(0 := F_Lock False 64 4)\<rparr>"
  have "?reach s1" using reach_call [of "threads_start demo_racy demo_queues" 0 64 "{64}"] by (simp add: threads_start_def s1_def)
  moreover have "fetch_step demo_ext 0 s1 s2"
    using fetch_step.F_read [of s1 0 False 64 demo_ext] demo_racy_id by (simp add: s1_def s2_def)
  moreover have "slave_step demo_gc demo_ext (\<lambda>i. i \<noteq> 0) 0 s2 s3"
    using slave_step.S_task [of s2 0 2054 2078 "[]"] by (simp add: s1_def s2_def s3_def demo_queues_def)
  ultimately have r3: "?reach s3" by (blast intro: reach_fetch reach_slave)
  have "threads_reach demo_gc demo_ext {64} (\<lambda>i. i \<noteq> 0) s3 s4"
  proof -
    have "threads_reach demo_gc demo_ext {64} (\<lambda>i. i \<noteq> 0) s3 (s3\<lparr>fm := f, slaves := (slaves s3)(0 := S_Step 2054 2078)\<rparr>)"
      by (rule visit_is_a_run) (use visit in \<open>simp_all add: s1_def s2_def s3_def f_def looking_def kNumCPUs_def Let_def\<close>)
    then show ?thesis by (simp add: s4_def s3_def)
  qed
  with r3 have r4: "?reach s4" unfolding threads_reach_def by (rule rtranclp_trans)
  have wb: "metas f 64 = pt_gc_wb format_ptrs 5 23 9 (metas (demo_present False) 64)" by (simp add: f_def)
  have ab: "\<not> pt_is_present format_ptrs (metas f 64)" "pt_get_object_size format_ptrs (metas f 64) = 23" "pt_get_ds_id format_ptrs (metas f 64) = 5"
      "\<not> pt_is_shared format_ptrs (metas f 64)"
    using format_ptr.gc_wb [of 9 5 23 "metas (demo_present False) 64"] demo_present_meta(5) [of False] unfolding wb
    by (simp_all del: demo_present_simps)
  have s4: "fm s4 = f" "fetchers s4 = (\<lambda>_. F_Idle)(0 := F_Check False 64 4)" by (simp_all add: s4_def s3_def s2_def)
  have "fetch_step demo_ext 0 s4 s5" using fetch_step.F_absent [of s4 0 False 64 4 demo_ext] ab(1) by (simp add: s4 s5_def)
  with r4 have r5: "?reach s5" by (rule reach_fetch)
  have s5: "fm s5 = f" "fetchers s5 0 = F_Lock False 64 4" by (simp_all add: s5_def s4)
  obtain t where "threads_reach demo_gc demo_ext {64} (\<lambda>i. i \<noteq> 0) s5 t" "value_of demo_ext (\<lambda>d. d) (fm t) 64 = Some (5, u64_bytes 4, [7])"
    using demo_racy_fetch [OF s5(2), of "{64}" "\<lambda>i. i \<noteq> 0"] ab d demo_racy_ok unfolding s5(1) by (auto simp: f_def cache_ok_def)
  with r5 show ?thesis using demo_racy_object(2) unfolding threads_reach_def by (blast intro: rtranclp_trans)
qed

end
