(* ===== verification/Fm_Array.thy ===== *)
theory Fm_Array
  imports Fm_Manager
begin

text \<open>
  Arrays of far objects (\<^verbatim>\<open>aifm_changes/array.cpp\<close> and the sizes in \<^verbatim>\<open>array.hpp\<close>): the
  constructor allocates one unique pointer for each item and registers it with the pager.
  The accessors of the templates are in files outside the repository.
\<close>

section \<open>Sizes\<close>

text \<open>\<^verbatim>\<open>_size\<close> of the dimensions; a parameter pack is never empty.\<close>

fun array_size :: "u64 list \<Rightarrow> u64" where
  "array_size [] = 1"
| "array_size [N] = N"
| "array_size (N # rest_dims) = N * array_size rest_dims"

section \<open>The generic array\<close>

text \<open>
  \<open>new_ptrs\<close> is \<^verbatim>\<open>new GenericUniquePtr[n]\<close>, which may throw, and \<open>move_assign\<close> the move assignment of
  \<^verbatim>\<open>GenericUniquePtr\<close>; the pointer that the manager returns is a temporary at
  \<open>temp_ptr\<close>. The prefetcher is outside the repository.
\<close>

record ('q, 'd) arr_ext =
  new_ptrs :: "u64 \<Rightarrow> ('q, 'd) fm_state \<Rightarrow> (addr \<times> ('q, 'd) fm_state) option"
  move_assign :: "addr \<Rightarrow> addr \<Rightarrow> ('q, 'd) fm_state \<Rightarrow> ('q, 'd) fm_state"
  temp_ptr :: addr
  prefetcher_static_prefetch :: "u64 \<Rightarrow> u64 \<Rightarrow> u32 \<Rightarrow> ('q, 'd) fm_state \<Rightarrow> ('q, 'd) fm_state"

record GenericArray =
  kItemSize :: u32
  dynamic_prefetch_enabled :: bool
  kNumItems :: u64
  item_ptrs :: addr

definition array_elem :: "addr \<Rightarrow> nat \<Rightarrow> addr" where
  "array_elem ptrs i = ptrs + of_nat (kMetaSize * i)"

text \<open>
  One round of the loop: \<open>item_size\<close> is cut to the 16 bits of the manager's parameter, the
  registry gets all of it. \<open>t\<close> is the thread that runs the constructor.
\<close>

definition array_item :: "('q, 'd) arr_ext \<Rightarrow> ('q, 'd) ext \<Rightarrow> owner \<Rightarrow> addr \<Rightarrow> u32 \<Rightarrow> nat \<Rightarrow>
   ('q, 'd) fm_state \<times> dswap \<Rightarrow> (fm_error + (('q, 'd) fm_state \<times> dswap)) option" where
  "array_item A E t ptrs item_size i w =
     and_then (allocate_generic_unique_ptr E (temp_ptr A) (kVanillaPtrDSID E) (ucast item_size) None (fst w))
       (\<lambda>s. let s = move_assign A (array_elem ptrs i) (temp_ptr A) s
            in (case register_object t (array_elem ptrs i) (ucast item_size) (snd w) of
                  None \<Rightarrow> None
                | Some (_, st) \<Rightarrow> Some (Inr (s, st))))"

fun array_items :: "('q, 'd) arr_ext \<Rightarrow> ('q, 'd) ext \<Rightarrow> owner \<Rightarrow> addr \<Rightarrow> u32 \<Rightarrow> nat list \<Rightarrow>
   ('q, 'd) fm_state \<times> dswap \<Rightarrow> (fm_error + (('q, 'd) fm_state \<times> dswap)) option" where
  "array_items A E t ptrs item_size [] w = Some (Inr w)"
| "array_items A E t ptrs item_size (i # is) w =
     and_then (array_item A E t ptrs item_size i w) (array_items A E t ptrs item_size is)"

definition GenericArray_ctor :: "('q, 'd) arr_ext \<Rightarrow> ('q, 'd) ext \<Rightarrow> owner \<Rightarrow> u32 \<Rightarrow> u64 \<Rightarrow> ('q, 'd) fm_state \<Rightarrow> dswap \<Rightarrow>
   (fm_error + (GenericArray \<times> ('q, 'd) fm_state \<times> dswap)) option" where
  "GenericArray_ctor A E t item_size num_items s st =
     (case new_ptrs A num_items (preempt_disable s) of
        None \<Rightarrow> Some (Inl Bad_Alloc)
      | Some (ptrs, s) \<Rightarrow>
          and_then (array_items A E t ptrs item_size [0..<unat num_items] (preempt_enable s, st))
            (\<lambda>(s, st). Some (Inr (\<lparr>kItemSize = item_size, dynamic_prefetch_enabled = True, kNumItems = num_items, item_ptrs = ptrs\<rparr>, s, st))))"

definition disable_prefetch :: "GenericArray \<Rightarrow> GenericArray" where
  "disable_prefetch arr = arr\<lparr>dynamic_prefetch_enabled := False\<rparr>"

definition enable_prefetch :: "GenericArray \<Rightarrow> GenericArray" where
  "enable_prefetch arr = arr\<lparr>dynamic_prefetch_enabled := True\<rparr>"

definition static_prefetch :: "('q, 'd) arr_ext \<Rightarrow> u64 \<Rightarrow> u64 \<Rightarrow> u32 \<Rightarrow> GenericArray \<Rightarrow> ('q, 'd) fm_state \<Rightarrow>
   GenericArray \<times> ('q, 'd) fm_state" where
  "static_prefetch A start step num arr s =
     (arr\<lparr>dynamic_prefetch_enabled := False\<rparr>, prefetcher_static_prefetch A start step num s)"

section \<open>The contract of pointers in an array\<close>

text \<open>
  The new pointers are null, apart from each other and from the temporary. Moving a pointer
  to a null one takes its word over, leaves null behind, and changes the header of the
  object at most. Waiting leaves null pointers alone: nobody knows them yet.
\<close>

locale array_env = quiet_manager E items capacity contents
  for E :: "('q, 'd) ext" and items capacity contents +
  fixes A :: "('q, 'd) arr_ext"
  assumes new_apart: "new_ptrs A n s = Some (p, s') \<Longrightarrow> inj_on (array_elem p) {0..<unat n} \<and> temp_ptr A \<notin> array_elem p ` {0..<unat n}"
    and new_null: "new_ptrs A n s = Some (p, s') \<Longrightarrow> \<exists>ms. s' = s\<lparr>metas := ms\<rparr> \<and> (\<forall>i<unat n. ms (array_elem p i) = kNull)"
    and move: "dst \<noteq> src \<Longrightarrow> metas s dst = kNull \<Longrightarrow> pt_is_present (Pt E) (metas s src) \<Longrightarrow>
      \<exists>h. move_assign A dst src s = s\<lparr>metas := (metas s)(dst := metas s src, src := kNull), heap := h\<rparr>
        \<and> obj_view (Ob E) h (pt_get_object_addr (Pt E) (metas s src)) = obj_view (Ob E) (heap s) (pt_get_object_addr (Pt E) (metas s src))"
    and null_kept: "waits_keep E (\<lambda>m. m q = kNull)"
begin

lemma presence_kept: "waits_keep E (\<lambda>m. pt_is_present (Pt E) (m q))"
  using condvar_keeps by (simp add: waits_keep_def)

end

context manager_env
begin

lemma try_remote_metas: "try_remote E nt sz s = (res, s') \<Longrightarrow> metas s' = metas s"
  by (auto simp: try_remote_def Let_def split: prod.splits)

lemma refill_remote_metas: "refill_remote E nt s = Inr (ok, s') \<Longrightarrow> metas s' = metas s"
  by (auto simp: refill_remote_def split: sum.splits prod.splits)

lemma retry_far_metas:
  assumes "retry_allocate_far_mem E nt sz s = Some (Inr (a, s'))"
  shows "metas s' = metas s"
proof -
  have "E' = E \<longrightarrow> (\<forall>a s'. y = Inr (a, s') \<longrightarrow> metas s' = metas s)"
    if "retry_allocate_far_mem E' nt sz s = Some y" for E' y
  proof (rule retry_allocate_far_mem.raw_induct [OF _ that], goal_cases)
    case (1 f E' nt sz s y)
    show ?case
    proof (intro impI)
      assume E: "E' = E"
      obtain res s1 where one: "try_remote E nt sz s = (res, s1)" by fastforce
      note m1 = try_remote_metas [OF one]
      show "\<forall>a s'. y = Inr (a, s') \<longrightarrow> metas s' = metas s"
      proof (cases res)
        case (Some a)
        then show ?thesis using 1(2) one m1 E by auto
      next
        case None
        show ?thesis
        proof (cases "refill_remote E nt s1")
          case (Inl e)
          then show ?thesis using 1(2) one None E by auto
        next
          case (Inr b)
          obtain ok s2 where two: "refill_remote E nt s1 = Inr (ok, s2)" using Inr by (cases b) auto
          let ?s3 = "if \<not> ok then preempt_disable (mutator_wait_for_gc_far_mem (preempt_enable s2)) else s2"
          have "f E nt sz ?s3 = Some y" using 1(2) one None two E by simp
          moreover have "metas ?s3 = metas s"
            using refill_remote_metas [OF two] m1 by (simp add: mutator_wait_for_gc_far_mem_def preempt_disable_def preempt_enable_def)
          ultimately show ?thesis using 1(1) [of E nt sz ?s3 y] by simp
        qed
      qed
    qed
  qed
  then show ?thesis using assms by blast
qed

lemma remote_metas:
  assumes "allocate_remote_object E nt sz s = Some (Inr (a, s'))"
  shows "metas s' = metas s"
  using assms retry_far_metas [of nt sz "preempt_disable s"]
  by (auto simp: allocate_remote_object_def and_then_Some_Inr preempt_disable_def preempt_enable_def)

text \<open>Creating a pointer makes it present and keeps what waiting keeps about the others.\<close>

lemma create_keeps:
  assumes run: "allocate_generic_unique_ptr E p ds item oid s = Some (Inr s')"
  shows "pt_is_present (Pt E) (metas s' p)"
    and "\<And>q Q. q \<noteq> p \<Longrightarrow> waits_keep E (\<lambda>m. Q (m q)) \<Longrightarrow> Q (metas s q) \<Longrightarrow> Q (metas s' q)"
proof -
  let ?sz = "total_size E item (id_len_of E oid)"
  obtain a s1 s2 where al: "allocate_local_object E False ?sz s = Some (Inr (a, s1))"
      and i: "init_object E ds item oid ?sz a (upd_ptr (pt_init (Pt E) False p a) p s1) = Some (Inr s2)"
      and s': "s' = inc_ref_cnt E a (-1) s2"
    using run by (auto simp: allocate_generic_unique_ptr_def and_then_Some_Inr Let_def)
  obtain m h where up: "pt_init (Pt E) False p a (metas s1 p, heap s1) = (m, h)" by fastforce
  have "metas s2 = metas (upd_ptr (pt_init (Pt E) False p a) p s1)"
    using i remote_metas by (auto simp: init_object_def and_then_Some_Inr split: option.splits)
  then have m2: "metas s' = (metas s1)(p := m)" by (simp add: s' inc_ref_cnt_def upd_ptr_def up)
  have "waits_keep E (\<lambda>m. True)" by (simp add: waits_keep_def)
  from allocate_local_keeps(1) [OF this al] have "addressable (Ob E) a" .
  then have "pt_is_present (Pt E) m" using init up by blast
  then show "pt_is_present (Pt E) (metas s' p)" by (simp add: m2)
  show "Q (metas s' q)" if "q \<noteq> p" "waits_keep E (\<lambda>m. Q (m q))" "Q (metas s q)" for q Q
    using allocate_local_keeps(2) [OF that(2) al that(3)] that(1) by (simp add: m2)
qed

end

section \<open>What the constructor leaves behind\<close>

definition registered :: "addr \<Rightarrow> u32 \<Rightarrow> nat list \<Rightarrow> dswap \<Rightarrow> dswap" where
  "registered ptrs item_size is st =
     st\<lparr>object_refs := object_refs st @ map (\<lambda>i. ObjRef_new (array_elem ptrs i) (ucast item_size)) is,
        object_addrs := object_addrs st @ map (array_elem ptrs) is\<rparr>"

lemma registered_Nil [simp]: "registered ptrs item_size [] st = st"
  by (simp add: registered_def)

lemma registered_Cons: "registered ptrs item_size (i # is) st = registered ptrs item_size is (registered ptrs item_size [i] st)"
  by (simp add: registered_def)

lemma registered_mutex [simp]: "object_addrs_mut (registered ptrs item_size is st) = object_addrs_mut st"
  by (simp add: registered_def)

lemma register_free:
  "object_addrs_mut st = None \<Longrightarrow>
   register_object t (array_elem ptrs i) (ucast item_size) st = Some (0, registered ptrs item_size [i] st)"
  by (cases st) (simp add: register_object_def dswap_defs registered_def)

context array_env
begin

lemma item_step:
  assumes run: "array_item A E t ptrs item_size i (s, st) = Some (Inr (s', st'))"
    and null: "metas s (array_elem ptrs i) = kNull" and apart: "array_elem ptrs i \<noteq> temp_ptr A" and free: "object_addrs_mut st = None"
  shows "st' = registered ptrs item_size [i] st" and "pt_is_present (Pt E) (metas s' (array_elem ptrs i))"
    and "\<And>q. q \<noteq> temp_ptr A \<Longrightarrow> q \<noteq> array_elem ptrs i \<Longrightarrow> pt_is_present (Pt E) (metas s q) \<Longrightarrow> pt_is_present (Pt E) (metas s' q)"
    and "\<And>q. q \<noteq> temp_ptr A \<Longrightarrow> q \<noteq> array_elem ptrs i \<Longrightarrow> metas s q = kNull \<Longrightarrow> metas s' q = kNull"
proof -
  obtain s1 where c: "allocate_generic_unique_ptr E (temp_ptr A) (kVanillaPtrDSID E) (ucast item_size) None s = Some (Inr s1)"
      and s': "s' = move_assign A (array_elem ptrs i) (temp_ptr A) s1" and st': "st' = registered ptrs item_size [i] st"
    using run by (auto simp: array_item_def and_then_Some_Inr register_free [OF free])
  have n: "metas s1 (array_elem ptrs i) = kNull" using create_keeps(2) [OF c apart null_kept] null by simp
  obtain h where mv: "s' = s1\<lparr>metas := (metas s1)(array_elem ptrs i := metas s1 (temp_ptr A), temp_ptr A := kNull), heap := h\<rparr>"
    unfolding s' using move [OF apart n create_keeps(1) [OF c]] by blast
  show "st' = registered ptrs item_size [i] st" by (rule st')
  show "pt_is_present (Pt E) (metas s' (array_elem ptrs i))" using create_keeps(1) [OF c] apart by (simp add: mv)
  show "pt_is_present (Pt E) (metas s' q)" if "q \<noteq> temp_ptr A" "q \<noteq> array_elem ptrs i" "pt_is_present (Pt E) (metas s q)" for q
    using create_keeps(2) [OF c that(1) presence_kept that(3)] that by (simp add: mv)
  show "metas s' q = kNull" if "q \<noteq> temp_ptr A" "q \<noteq> array_elem ptrs i" "metas s q = kNull" for q
    using create_keeps(2) [OF c that(1) null_kept that(3)] that by (simp add: mv)
qed

lemma items_run:
  assumes "array_items A E t ptrs item_size is (s, st) = Some (Inr (s', st'))"
    and "distinct (map (array_elem ptrs) is)" and "temp_ptr A \<notin> array_elem ptrs ` set is"
    and "\<forall>i \<in> set is. metas s (array_elem ptrs i) = kNull" and "object_addrs_mut st = None"
  shows "st' = registered ptrs item_size is st"
    and "\<forall>i \<in> set is. pt_is_present (Pt E) (metas s' (array_elem ptrs i))"
    and "\<forall>q. q \<noteq> temp_ptr A \<longrightarrow> q \<notin> array_elem ptrs ` set is \<longrightarrow> pt_is_present (Pt E) (metas s q) \<longrightarrow> pt_is_present (Pt E) (metas s' q)"
proof -
  have "st' = registered ptrs item_size is st \<and> (\<forall>i \<in> set is. pt_is_present (Pt E) (metas s' (array_elem ptrs i)))
    \<and> (\<forall>q. q \<noteq> temp_ptr A \<longrightarrow> q \<notin> array_elem ptrs ` set is \<longrightarrow> pt_is_present (Pt E) (metas s q) \<longrightarrow> pt_is_present (Pt E) (metas s' q))"
    using assms
  proof (induction "is" arbitrary: s st)
    case (Cons i "is")
    obtain s1 st1 where one: "array_item A E t ptrs item_size i (s, st) = Some (Inr (s1, st1))"
        and rest: "array_items A E t ptrs item_size is (s1, st1) = Some (Inr (s', st'))"
      using Cons.prems(1) by (auto simp: and_then_Some_Inr)
    have i: "metas s (array_elem ptrs i) = kNull" "array_elem ptrs i \<noteq> temp_ptr A" using Cons.prems by auto
    note step = item_step [OF one i Cons.prems(5)]
    have null: "\<forall>j \<in> set is. metas s1 (array_elem ptrs j) = kNull"
    proof
      fix j
      assume "j \<in> set is"
      moreover have "temp_ptr A \<notin> array_elem ptrs ` set is" "array_elem ptrs i \<notin> array_elem ptrs ` set is"
        using Cons.prems(2,3) by simp_all
      ultimately have "array_elem ptrs j \<noteq> temp_ptr A" "array_elem ptrs j \<noteq> array_elem ptrs i" "metas s (array_elem ptrs j) = kNull"
        using Cons.prems(4) by (metis imageI, metis imageI, simp)
      then show "metas s1 (array_elem ptrs j) = kNull" by (rule step(4))
    qed
    have "st' = registered ptrs item_size is st1 \<and> (\<forall>j \<in> set is. pt_is_present (Pt E) (metas s' (array_elem ptrs j)))
      \<and> (\<forall>q. q \<noteq> temp_ptr A \<longrightarrow> q \<notin> array_elem ptrs ` set is \<longrightarrow> pt_is_present (Pt E) (metas s1 q) \<longrightarrow> pt_is_present (Pt E) (metas s' q))"
      using Cons.prems null by (intro Cons.IH [OF rest]) (simp_all add: step(1))
    then show ?case using step Cons.prems(2) i(2) registered_Cons [of ptrs item_size i "is" st] by auto
  qed simp
  then show "st' = registered ptrs item_size is st" "\<forall>i \<in> set is. pt_is_present (Pt E) (metas s' (array_elem ptrs i))"
    "\<forall>q. q \<noteq> temp_ptr A \<longrightarrow> q \<notin> array_elem ptrs ` set is \<longrightarrow> pt_is_present (Pt E) (metas s q) \<longrightarrow> pt_is_present (Pt E) (metas s' q)"
    by blast+
qed

end


context array_env
begin

lemma item_runs:
  assumes "cache_ok E items capacity N s" and "far_ok E items capacity M s"
    and "object_addrs_mut st = None" and "metas s (array_elem ptrs i) = kNull" and "array_elem ptrs i \<noteq> temp_ptr A"
    and "kVanillaPtrObjectIDSize E = 8" and "ob_kHeaderSize (Ob E) + unat item_size mod 2 ^ 16 + 8 < 2 ^ 16"
    and "\<exists>x xs. items (free_regions (cache_region_manager s)) = x # xs
      \<and> (\<forall>h. fst (rg_allocate_object (Rg E) (total_size E (ucast item_size) 8) x h) \<noteq> None)"
    and "\<exists>x xs. items (free_regions (far_mem_region_manager s)) = x # xs
      \<and> (\<forall>h. fst (rg_allocate_object (Rg E) (total_size E (ucast item_size) 8) x h) \<noteq> None)"
  shows "\<exists>s' oid bs. array_item A E t ptrs item_size i (s, st) = Some (Inr (s', registered ptrs item_size [i] st))
    \<and> value_of E contents s' (array_elem ptrs i) = Some (kVanillaPtrDSID E, oid, bs) \<and> length bs = unat item_size mod 2 ^ 16
    \<and> obj_size (last (object_refs (registered ptrs item_size [i] st))) = ucast item_size"
proof -
  have v: "id_len_of E None = 8" using assms(6) by (simp add: id_len_of_def)
  let ?sz = "total_size E (ucast item_size) (id_len_of E None)" and ?p = "temp_ptr A" and ?q = "array_elem ptrs i"
  have len: "unat (ucast item_size :: u16) = unat item_size mod 2 ^ 16"
    by (simp add: unsigned_ucast_eq take_bit_eq_mod)
  obtain a s1 where al: "allocate_local_object E False ?sz s = Some (Inr (a, s1))" "alloc_frame E items capacity N s s1"
      "placed a (unat ?sz)" "addressable (Ob E) a"
    using local_returns [OF assms(1), of ?sz] assms(8) unfolding v by blast
  note fr = alloc_frame_fields [OF al(2)]
  let ?s2 = "upd_ptr (pt_init (Pt E) False ?p a) ?p s1"
  have ok: "cache_ok E items capacity N s1" "far_ok E items capacity M s1" "far_ok E items capacity M ?s2"
    using alloc_frame_ok [OF al(2) assms(1)] assms(2) fr by (simp_all add: far_ok_def upd_ptr_def split_def Let_def)
  have "far_mem_region_manager ?s2 = far_mem_region_manager s" using fr by (simp add: upd_ptr_def split_def Let_def)
  then have "\<exists>x xs. items (free_regions (far_mem_region_manager ?s2)) = x # xs \<and> (\<forall>h. fst (rg_allocate_object (Rg E) ?sz x h) \<noteq> None)"
    using assms(9) by (simp add: v)
  then obtain z where z: "allocate_remote_object E False ?sz ?s2 = Some z"
    using remote_returns [OF ok(3)] by blast
  then obtain y where y: "init_object E (kVanillaPtrDSID E) (ucast item_size) None ?sz a ?s2 = Some y"
    using remote_spec [OF ok(3) z] by (auto simp: init_object_def)
  obtain s3 oid bs where c: "y = Inr s3" "pt_is_present (Pt E) (metas (inc_ref_cnt E a (-1) s3) ?p)"
      "pt_get_object_addr (Pt E) (metas (inc_ref_cnt E a (-1) s3) ?p) = a"
      "obj_view (Ob E) (heap (inc_ref_cnt E a (-1) s3)) a = (kVanillaPtrDSID E, oid, bs)" "length bs = unat item_size mod 2 ^ 16"
      "\<forall>q. q \<noteq> ?p \<longrightarrow> metas (inc_ref_cnt E a (-1) s3) q = metas s1 q"
    using create_spec [OF ok(2,1) _ _ assms(6) al(3,4) y] assms(7) by (auto simp: len v Let_def)
  let ?s4 = "inc_ref_cnt E a (-1) s3"
  have new: "allocate_generic_unique_ptr E ?p (kVanillaPtrDSID E) (ucast item_size) None s = Some (Inr ?s4)"
    using al(1) y c(1) by (simp add: allocate_generic_unique_ptr_def Let_def)
  have "metas ?s4 ?q = kNull" using c(6) assms(4,5) fr by simp
  then obtain h where mv: "move_assign A ?q ?p ?s4 = ?s4\<lparr>metas := (metas ?s4)(?q := metas ?s4 ?p, ?p := kNull), heap := h\<rparr>"
      "obj_view (Ob E) h a = (kVanillaPtrDSID E, oid, bs)"
    using move [OF assms(5) _ c(2)] c(3,4) by auto
  have "array_item A E t ptrs item_size i (s, st) = Some (Inr (move_assign A ?q ?p ?s4, registered ptrs item_size [i] st))"
    using new by (simp add: array_item_def register_free [OF assms(3)])
  moreover have "value_of E contents (move_assign A ?q ?p ?s4) ?q = Some (kVanillaPtrDSID E, oid, bs)"
    using c(2,3) mv assms(5) by (simp add: value_of_def Let_def)
  ultimately show ?thesis using c(5) by (auto simp: registered_def ObjRef_new_def)
qed

end

text \<open>
  Truncation: when there is room, one round of the loop gives the item an object whose
  data has the low 16 bits of the item size as its length, and registers the pointer with
  the whole size.
\<close>

theorem array_item_truncated:
  assumes "array_env E items capacity contents A" and "cache_ok E items capacity N s" and "far_ok E items capacity M s"
    and "object_addrs_mut st = None" and "metas s (array_elem ptrs i) = kNull" and "array_elem ptrs i \<noteq> temp_ptr A"
    and "kVanillaPtrObjectIDSize E = 8" and "ob_kHeaderSize (Ob E) + unat item_size mod 2 ^ 16 + 8 < 2 ^ 16"
    and "\<exists>x xs. items (free_regions (cache_region_manager s)) = x # xs
      \<and> (\<forall>h. fst (rg_allocate_object (Rg E) (total_size E (ucast item_size) 8) x h) \<noteq> None)"
    and "\<exists>x xs. items (free_regions (far_mem_region_manager s)) = x # xs
      \<and> (\<forall>h. fst (rg_allocate_object (Rg E) (total_size E (ucast item_size) 8) x h) \<noteq> None)"
  shows "\<exists>s' oid bs. array_item A E t ptrs item_size i (s, st) = Some (Inr (s', registered ptrs item_size [i] st))
    \<and> value_of E contents s' (array_elem ptrs i) = Some (kVanillaPtrDSID E, oid, bs) \<and> length bs = unat item_size mod 2 ^ 16
    \<and> obj_size (last (object_refs (registered ptrs item_size [i] st))) = ucast item_size"
  using array_env.item_runs [OF assms] .

text \<open>
  Array size: the number of items of an array is the product of its dimensions, cut to
  64 bits.
\<close>

theorem array_size_product:
  "array_size dims = of_nat (prod_list (map unat dims))"
  by (induction dims rule: array_size.induct) simp_all

section \<open>Instances\<close>

text \<open>
  Arrays start at 4096 and the temporary is at 512; moving a pointer writes the new address
  into the object's header.
\<close>

definition demo_arr :: "(ring, u8 \<times> u8 list \<Rightarrow> u8 list option) arr_ext" where
  "demo_arr = \<lparr>new_ptrs = (\<lambda>n s. if 2 ^ 32 \<le> n then None else Some (4096, s\<lparr>metas := (\<lambda>q. if 4096 \<le> q then kNull else metas s q)\<rparr>)),
     move_assign = (\<lambda>dst src s. s\<lparr>metas := (metas s)(dst := metas s src, src := kNull),
        heap := link_object dst (pt_get_object_addr format_ptrs (metas s src)) (heap s)\<rparr>),
     temp_ptr = 512, prefetcher_static_prefetch = (\<lambda>start step num s. s)\<rparr>"

lemma demo_elems: "i < 2 ^ 32 \<Longrightarrow> unat (array_elem 4096 i) = 4096 + 8 * i"
  by (simp add: array_elem_def kMetaSize_def unat_word_ariths unat_of_nat_u64)

lemma demo_new:
  assumes "new_ptrs demo_arr n s = Some (p, s')"
  shows "p = 4096" "s' = s\<lparr>metas := (\<lambda>q. if 4096 \<le> q then kNull else metas s q)\<rparr>" "unat n < 2 ^ 32"
proof -
  have n: "\<not> 2 ^ 32 \<le> n" using assms by (cases "2 ^ 32 \<le> n") (simp_all add: demo_arr_def)
  then have "unat n < unat (2 ^ 32 :: u64)" by (simp only: not_le word_less_nat_alt)
  then show "unat n < 2 ^ 32" by simp
  show "p = 4096" "s' = s\<lparr>metas := (\<lambda>q. if 4096 \<le> q then kNull else metas s q)\<rparr>"
    using assms n by (simp_all add: demo_arr_def)
qed

interpretation demo_array: array_env demo_ext ring_items ring_cap "\<lambda>d. d" demo_arr
proof
  show "inj_on (array_elem p) {0..<unat n} \<and> temp_ptr demo_arr \<notin> array_elem p ` {0..<unat n}"
    if "new_ptrs demo_arr n s = Some (p, s')" for n s p s'
  proof -
    note p = demo_new(1) [OF that] and n = demo_new(3) [OF that]
    have "i = j" if "i < unat n" "j < unat n" "array_elem 4096 i = array_elem 4096 j" for i j
    proof -
      have "i < 2 ^ 32" "j < 2 ^ 32" using that(1,2) n by linarith+
      from demo_elems [OF this(1)] demo_elems [OF this(2)] arg_cong [OF that(3), of unat] show ?thesis by linarith
    qed
    moreover have "temp_ptr demo_arr \<noteq> array_elem 4096 i" if "i < unat n" for i
    proof
      assume "temp_ptr demo_arr = array_elem 4096 i"
      then have e: "unat (array_elem 4096 i) = unat (512 :: u64)" by (simp add: demo_arr_def)
      have "i < 2 ^ 32" using that n by linarith
      from demo_elems [OF this] e show False by simp
    qed
    ultimately show ?thesis unfolding p inj_on_def image_iff by (metis atLeastLessThan_iff)
  qed
  show "\<exists>ms. s' = s\<lparr>metas := ms\<rparr> \<and> (\<forall>i<unat n. ms (array_elem p i) = kNull)"
    if "new_ptrs demo_arr n s = Some (p, s')" for n s p s'
  proof -
    note p = demo_new(1,2) [OF that] and n = demo_new(3) [OF that]
    have "4096 \<le> array_elem 4096 i" if "i < unat n" for i
    proof -
      have "i < 2 ^ 32" using that n by linarith
      from demo_elems [OF this] show ?thesis by (simp add: word_le_nat_alt)
    qed
    then show ?thesis using p by auto
  qed
  show "\<exists>h. move_assign demo_arr dst src s = s\<lparr>metas := (metas s)(dst := metas s src, src := kNull), heap := h\<rparr>
      \<and> obj_view (Ob demo_ext) h (pt_get_object_addr (Pt demo_ext) (metas s src))
        = obj_view (Ob demo_ext) (heap s) (pt_get_object_addr (Pt demo_ext) (metas s src))" for dst src s
    using link_view by (auto simp: demo_arr_def)
qed (auto simp: waits_keep_def)

lemma demo_total: "total_size demo_ext (ucast (65539 :: u32)) 8 = 23"
proof -
  have "unat (ucast (65539 :: u32) :: u16) = 3" by simp
  then show ?thesis by (simp add: total_size_def)
qed

lemma demo_rooms:
  "\<exists>x xs. ring_items (free_regions (cache_region_manager (demo_fm [demo_region 0] [far_region 0]))) = x # xs
     \<and> (\<forall>h. fst (rg_allocate_object (Rg demo_ext) (total_size demo_ext (ucast (65539 :: u32)) 8) x h) \<noteq> None)"
  "\<exists>x xs. ring_items (free_regions (far_mem_region_manager (demo_fm [demo_region 0] [far_region 0]))) = x # xs
     \<and> (\<forall>h. fst (rg_allocate_object (Rg demo_ext) (total_size demo_ext (ucast (65539 :: u32)) 8) x h) \<noteq> None)"
proof -
  have "fst (rg_allocate_object layout_regions 23 (far_region 0) h) \<noteq> None" for h
    by (simp add: far_region_def layout_regions_def kObjectPos_def kHeaderSize_def kSize_val bump_size_def kInvalidIdx_def)
  then show "\<exists>x xs. ring_items (free_regions (far_mem_region_manager (demo_fm [demo_region 0] [far_region 0]))) = x # xs
     \<and> (\<forall>h. fst (rg_allocate_object (Rg demo_ext) (total_size demo_ext (ucast (65539 :: u32)) 8) x h) \<noteq> None)"
    unfolding demo_total by simp
  show "\<exists>x xs. ring_items (free_regions (cache_region_manager (demo_fm [demo_region 0] [far_region 0]))) = x # xs
     \<and> (\<forall>h. fst (rg_allocate_object (Rg demo_ext) (total_size demo_ext (ucast (65539 :: u32)) 8) x h) \<noteq> None)"
    unfolding demo_total using demo_room [of 23] by simp
qed

lemma demo_word: "unat (65539 :: u32) mod 2 ^ 16 = 3"
  by simp

theorem array_item_truncated_witness:
  "\<exists>s' oid bs. array_item demo_arr demo_ext Pager 4096 65539 0 (demo_fm [demo_region 0] [far_region 0], dswap_static)
      = Some (Inr (s', registered 4096 65539 [0] dswap_static))
    \<and> value_of demo_ext (\<lambda>d. d) s' (array_elem 4096 0) = Some (255, oid, bs) \<and> length bs = 3
    \<and> obj_size (last (object_refs (registered 4096 65539 [0] dswap_static))) = 65539"
proof -
  have e: "array_elem 4096 0 \<noteq> temp_ptr demo_arr" by (simp add: array_elem_def demo_arr_def)
  have m: "object_addrs_mut dswap_static = None" "metas (demo_fm [demo_region 0] [far_region 0]) (array_elem 4096 0) = kNull"
    by (simp_all add: dswap_static_def)
  have sz: "ob_kHeaderSize (Ob demo_ext) + unat (65539 :: u32) mod 2 ^ 16 + 8 < 2 ^ 16" "kVanillaPtrObjectIDSize demo_ext = 8"
    by (simp_all del: unsigned_numeral)
  from array_item_truncated [OF demo_array.array_env_axioms demo_cache_ok demo_far_ok(1) m e sz(2,1) demo_rooms, of Pager]
  show ?thesis by (simp only: demo_ext_simps demo_word) simp
qed


end
