(* ===== verification/Test_Programs.thy ===== *)
theory Test_Programs
  imports Fm_Array
begin

text \<open>
  The program \<^verbatim>\<open>unit_tests/src/test_tcp_01.cpp\<close>, which builds a manager on a TCP device,
  allocates three arrays and looks at the registry, and the array helpers it shares with the
  other two.
\<close>

section \<open>Helpers on arrays\<close>

text \<open>
  The accessors of \<^verbatim>\<open>Array\<close> and \<^verbatim>\<open>DerefScope\<close> are outside the repository: \<open>at_read\<close> is a
  read through \<^verbatim>\<open>at\<close>, \<open>at_assign\<close> an assignment through \<^verbatim>\<open>at_mut\<close>; they may not return.
\<close>

record ('a, 'w) access =
  enter_scope :: "'w \<Rightarrow> 'w"
  leave_scope :: "'w \<Rightarrow> 'w"
  at_read :: "'a \<Rightarrow> nat \<Rightarrow> 'w \<Rightarrow> (u64 \<times> 'w) option"
  at_assign :: "'a \<Rightarrow> nat \<Rightarrow> u64 \<Rightarrow> 'w \<Rightarrow> 'w option"

fun copy_items :: "('a, 'w) access \<Rightarrow> 'a \<Rightarrow> u64 list \<Rightarrow> nat list \<Rightarrow> 'w \<Rightarrow> 'w option" where
  "copy_items X arr raw_array [] w = Some w"
| "copy_items X arr raw_array (i # is) w =
     (let w = enter_scope X w
      in case at_assign X arr i (raw_array ! i) w of
           None \<Rightarrow> None
         | Some w \<Rightarrow> copy_items X arr raw_array is (leave_scope X w))"

definition copy_array :: "('a, 'w) access \<Rightarrow> nat \<Rightarrow> 'a \<Rightarrow> u64 list \<Rightarrow> 'w \<Rightarrow> 'w option" where
  "copy_array X N arr raw_array = copy_items X arr raw_array [0..<N]"

fun add_items :: "('a, 'w) access \<Rightarrow> 'a \<Rightarrow> 'a \<Rightarrow> 'a \<Rightarrow> nat list \<Rightarrow> 'w \<Rightarrow> 'w option" where
  "add_items X array_C array_A array_B [] w = Some w"
| "add_items X array_C array_A array_B (i # is) w =
     (let w = enter_scope X w
      in case at_read X array_A i w of
           None \<Rightarrow> None
         | Some (a, w) \<Rightarrow>
             (case at_read X array_B i w of
                None \<Rightarrow> None
              | Some (b, w) \<Rightarrow>
                  (case at_assign X array_C i (a + b) w of
                     None \<Rightarrow> None
                   | Some w \<Rightarrow> add_items X array_C array_A array_B is (leave_scope X w))))"

definition add_array :: "('a, 'w) access \<Rightarrow> nat \<Rightarrow> 'a \<Rightarrow> 'a \<Rightarrow> 'a \<Rightarrow> 'w \<Rightarrow> 'w option" where
  "add_array X N array_C array_A array_B = add_items X array_C array_A array_B [0..<N]"

text \<open>
  The random engine and distribution of the standard library are a parameter: \<open>draw\<close> gives a number and the next
  state. Writing behind the end of the array has no defined behaviour.
\<close>

fun gen_items :: "('g \<Rightarrow> u64 \<times> 'g) \<Rightarrow> nat list \<Rightarrow> u64 list \<Rightarrow> 'g \<Rightarrow> u64 list option" where
  "gen_items draw [] raw_array g = Some raw_array"
| "gen_items draw (i # is) raw_array g =
     (let (v, g) = draw g
      in if i < length raw_array then gen_items draw is (raw_array[i := v]) g else None)"

definition gen_random_array :: "('g \<Rightarrow> u64 \<times> 'g) \<Rightarrow> (u32 \<Rightarrow> 'g) \<Rightarrow> u32 \<Rightarrow> u64 \<Rightarrow> u64 list \<Rightarrow> u64 list option" where
  "gen_random_array draw eng rd num_entries raw_array = gen_items draw [0..<unat num_entries] raw_array (eng rd)"

lemma gen_items_length: "gen_items draw is raw g = Some raw' \<Longrightarrow> length raw' = length raw"
  by (induction "is" arbitrary: raw g) (auto simp: Let_def split: prod.splits if_splits)

lemma gen_items_defined: "gen_items draw is raw g \<noteq> None \<longleftrightarrow> (\<forall>i\<in>set is. i < length raw)"
  by (induction "is" arbitrary: raw g) (simp_all add: split_def Let_def)

lemma gen_random_array_defined:
  "gen_random_array draw eng rd n raw \<noteq> None \<longleftrightarrow> unat n \<le> length raw"
  unfolding gen_random_array_def gen_items_defined by (auto simp: not_le [symmetric] dest: leD)

text \<open>An access that returns reads or writes the item it names and no other.\<close>

definition access_law :: "('a, 'w) access \<Rightarrow> ('w \<Rightarrow> 'a \<Rightarrow> nat \<Rightarrow> u64) \<Rightarrow> bool" where
  "access_law X item \<longleftrightarrow>
     (\<forall>w. item (enter_scope X w) = item w \<and> item (leave_scope X w) = item w)
   \<and> (\<forall>arr i w v w'. at_read X arr i w = Some (v, w') \<longrightarrow> v = item w arr i \<and> item w' = item w)
   \<and> (\<forall>arr i v w w'. at_assign X arr i v w = Some w' \<longrightarrow> item w' = (item w)(arr := (item w arr)(i := v)))"

lemma access_lawD:
  assumes "access_law X item"
  shows "item (enter_scope X w) = item w" and "item (leave_scope X w) = item w"
    and "at_read X arr i w = Some (v, w') \<Longrightarrow> v = item w arr i \<and> item w' = item w"
    and "at_assign X arr i v w = Some w' \<Longrightarrow> item w' = (item w)(arr := (item w arr)(i := v))"
  using assms unfolding access_law_def by blast+

lemma copy_items_spec:
  assumes law: "access_law X item"
  shows "copy_items X arr raw is w = Some w' \<Longrightarrow>
    item w' = (item w)(arr := (\<lambda>i. if i \<in> set is then raw ! i else item w arr i))"
proof (induction "is" arbitrary: w)
  case (Cons i "is")
  obtain w1 where one: "at_assign X arr i (raw ! i) (enter_scope X w) = Some w1"
      and rest: "copy_items X arr raw is (leave_scope X w1) = Some w'"
    using Cons.prems by (auto simp: Let_def split: option.splits)
  show ?case
    unfolding Cons.IH [OF rest] access_lawD(2) [OF law] access_lawD(4) [OF law one] access_lawD(1) [OF law]
    by (auto simp: fun_eq_iff)
qed simp

lemma add_items_spec:
  assumes law: "access_law X item"
  shows "add_items X c a b is w = Some w' \<Longrightarrow> distinct is \<Longrightarrow>
    item w' = (item w)(c := (\<lambda>i. if i \<in> set is then item w a i + item w b i else item w c i))"
proof (induction "is" arbitrary: w)
  case (Cons i "is")
  obtain x w1 y w2 w3 where steps: "at_read X a i (enter_scope X w) = Some (x, w1)" "at_read X b i w1 = Some (y, w2)"
      "at_assign X c i (x + y) w2 = Some w3" and rest: "add_items X c a b is (leave_scope X w3) = Some w'"
    using Cons.prems(1) by (auto simp: Let_def split: option.splits)
  have it: "item w3 = (item w)(c := (item w c)(i := item w a i + item w b i))"
    using access_lawD(3) [OF law steps(1)] access_lawD(3) [OF law steps(2)] access_lawD(4) [OF law steps(3)]
    by (simp add: access_lawD(1) [OF law])
  have d: "i \<notin> set is" "distinct is" using Cons.prems(2) by simp_all
  show ?case
    unfolding Cons.IH [OF rest d(2)] access_lawD(2) [OF law] it using d(1) by (auto simp: fun_eq_iff)
qed simp

text \<open>
  Sum: when filling \<open>a\<close> and \<open>b\<close> and adding them into \<open>c\<close> returns, every item of \<open>c\<close> is the
  sum modulo \<open>2\<^sup>6\<^sup>4\<close> of the values \<open>a\<close> and \<open>b\<close> were filled with, and no item beyond the first
  \<open>N\<close> and no other array has changed. The array \<open>c\<close> may be \<open>a\<close> or \<open>b\<close>.
\<close>

theorem filled_arrays_added:
  assumes "access_law X item" and "a \<noteq> b" and "copy_array X N a raw_A w = Some w1" and "copy_array X N b raw_B w1 = Some w2"
    and "add_array X N c a b w2 = Some w3"
  shows "(\<forall>i < N. item w3 c i = raw_A ! i + raw_B ! i) \<and> (\<forall>i \<ge> N. item w3 c i = item w c i)
    \<and> (\<forall>d. d \<notin> {a, b, c} \<longrightarrow> item w3 d = item w d)"
proof -
  note one = copy_items_spec [OF assms(1) assms(3) [unfolded copy_array_def]]
    and two = copy_items_spec [OF assms(1) assms(4) [unfolded copy_array_def]]
    and three = add_items_spec [OF assms(1) assms(5) [unfolded add_array_def]]
  show ?thesis using assms(2) by (simp add: one two three)
qed

section \<open>test_tcp_01\<close>

definition kCacheSize :: u64 where "kCacheSize = 16384"
definition kFarMemSize :: u64 where "kFarMemSize = push_bit 12 4"
definition kNumGCThreads :: u32 where "kNumGCThreads = 12"
definition kNumEntries :: u32 where "kNumEntries = 128"
definition kNumConnections :: u32 where "kNumConnections = 300"

text \<open>What the program prints and the status it exits with.\<close>

definition fail_test :: "string \<times> nat" where "fail_test = (''Failed'', 1)"
definition pass_test :: "string \<times> nat" where "pass_test = (''Passed'', 1)"

text \<open>
  From outside: parsing an address, the size a TCP device reports, \<^verbatim>\<open>allocate_array\<close>, and what
  the other threads do while the program sleeps for some seconds.
\<close>

record ('n, 'q, 'd) program_ext =
  str_to_netaddr :: "string \<Rightarrow> 'n"
  tcp_far_mem_size :: "'n \<Rightarrow> u32 \<Rightarrow> u64 \<Rightarrow> u64"
  allocate_array :: "('q, 'd) fm_state \<times> dswap \<Rightarrow> (fm_error + (GenericArray \<times> ('q, 'd) fm_state \<times> dswap)) option"
  sleep_for :: "nat \<Rightarrow> ('q, 'd) fm_state \<times> dswap \<Rightarrow> ('q, 'd) fm_state \<times> dswap"

definition do_work :: "('n, 'q, 'd) program_ext \<Rightarrow> ('q, 'd) fm_state \<times> dswap \<Rightarrow> (fm_error + (string \<times> nat)) option" where
  "do_work P w =
     and_then (allocate_array P w) (\<lambda>(array_A, w).
     and_then (allocate_array P w) (\<lambda>(array_B, w).
     and_then (allocate_array P w) (\<lambda>(array_C, w).
       let w = sleep_for P 500 w
       in if length (object_addrs (snd w)) \<noteq> unat (3 * kNumEntries) then Some (Inr fail_test)
          else Some (Inr pass_test))))"

text \<open>\<^verbatim>\<open>_main\<close>. A null manager has no defined behaviour.\<close>

definition test_main :: "('n, 'q, 'd) program_ext \<Rightarrow> ('q, 'd) ext \<Rightarrow> build_ext \<Rightarrow> string list \<Rightarrow>
   ('q, 'd) fm_state \<Rightarrow> ('q, 'd) factory \<Rightarrow> (fm_error + (string \<times> nat)) option" where
  "test_main P E B argv s w =
     (let (s, st) = sleep_for P 10 (s, pager_state w);
          raddr = str_to_netaddr P (argv ! 1);
          B = B\<lparr>get_far_mem_size := tcp_far_mem_size P raddr kNumConnections kFarMemSize\<rparr>
      in case build E B kCacheSize (Some kNumGCThreads) s (w\<lparr>pager_state := st\<rparr>) of
           Inl e \<Rightarrow> Some (Inl e)
         | Inr (None, w) \<Rightarrow> Some (Inl Undefined)
         | Inr (Some mo, w) \<Rightarrow> do_work P (fm mo, pager_state w))"

text \<open>
  \<^verbatim>\<open>main\<close>: the arguments move down by one in place, and the runtime gets the first one and
  the array; \<open>rt\<close> is \<^verbatim>\<open>runtime_init\<close> with \<^verbatim>\<open>_main\<close>. The result goes with the global \<^verbatim>\<open>argc\<close>.
\<close>

definition c_main :: "(string \<Rightarrow> string list \<Rightarrow> int) \<Rightarrow> int \<Rightarrow> string list \<Rightarrow> int \<Rightarrow> int \<times> int" where
  "c_main rt argc argv argc_global =
     (if argc < 3 then (- 22, argc_global)
      else (let conf_path = argv ! 1;
                argv = fold (\<lambda>i argv. argv[i - 1 := argv ! i]) [2..<nat argc] argv;
                argc_global = argc - 1;
                ret = rt conf_path argv
            in if ret \<noteq> 0 then (ret, argc_global) else (0, argc_global)))"

lemma items_registered:
  "array_items A E t ptrs item_size is (s, st) = Some (Inr (s', st')) \<Longrightarrow> object_addrs_mut st = None \<Longrightarrow>
   st' = registered ptrs item_size is st"
proof (induction "is" arbitrary: s st)
  case (Cons i "is")
  obtain s1 where "array_items A E t ptrs item_size is (s1, registered ptrs item_size [i] st) = Some (Inr (s', st'))"
    using Cons.prems by (auto simp: and_then_Some_Inr array_item_def register_free)
  from Cons.IH [OF this] Cons.prems(2) show ?case by (simp add: registered_Cons [of ptrs item_size i "is"])
qed simp

lemma ctor_registers:
  assumes "GenericArray_ctor A E t item_size n s st = Some (Inr (arr, s', st'))" and "object_addrs_mut st = None"
  shows "length (object_addrs st') = length (object_addrs st) + unat n" and "object_addrs_mut st' = None"
proof -
  obtain p where "st' = registered p item_size [0..<unat n] st"
    using assms items_registered [OF _ assms(2)] by (fastforce simp: GenericArray_ctor_def and_then_Some_Inr split: option.splits)
  then show "length (object_addrs st') = length (object_addrs st) + unat n" "object_addrs_mut st' = None"
    using assms(2) by (simp_all add: registered_def)
qed

text \<open>
  C34 (test program): when the arrays are constructed as \<^verbatim>\<open>GenericArray\<close> does for 128 items
  of 8 bytes and no other thread registers objects, a run of the program from an empty
  registry that gets to the end prints that it passed; its exit status is 1 all the same.
\<close>

theorem test_tcp_01_passes:
  assumes arrays: "\<And>v. allocate_array P v = GenericArray_ctor A E t 8 (ucast kNumEntries) (fst v) (snd v)"
    and quiet: "\<And>n v. object_addrs (snd (sleep_for P n v)) = object_addrs (snd v)
      \<and> object_addrs_mut (snd (sleep_for P n v)) = object_addrs_mut (snd v)"
    and "object_addrs (pager_state w) = []" and "object_addrs_mut (pager_state w) = None"
    and run: "test_main P E B argv s w = Some (Inr (msg, status))"
  shows "msg = ''Passed'' \<and> status = 1"
proof -
  obtain s0 st0 where sl: "sleep_for P 10 (s, pager_state w) = (s0, st0)" by fastforce
  let ?B = "B\<lparr>get_far_mem_size := tcp_far_mem_size P (str_to_netaddr P (argv ! 1)) kNumConnections kFarMemSize\<rparr>"
  obtain mo w' where b: "build E ?B kCacheSize (Some kNumGCThreads) s0 (w\<lparr>pager_state := st0\<rparr>) = Inr (Some mo, w')"
      and work: "do_work P (fm mo, pager_state w') = Some (Inr (msg, status))"
    using run by (auto simp: test_main_def sl Let_def split: sum.splits prod.splits option.splits)
  have "object_addrs st0 = []" "object_addrs_mut st0 = None" using quiet [of 10 "(s, pager_state w)"] assms(3,4) sl by auto
  then have empty: "object_addrs (pager_state w') = []" "object_addrs_mut (pager_state w') = None"
    using b by (auto simp: build_def FarMemManager_ctor_def init_dynamic_pager_def Let_def split: sum.splits prod.splits if_splits)
  obtain a1 s1 st1 a2 s2 st2 a3 s3 st3 where ctors: "GenericArray_ctor A E t 8 (ucast kNumEntries) (fm mo) (pager_state w') = Some (Inr (a1, s1, st1))"
      "GenericArray_ctor A E t 8 (ucast kNumEntries) s1 st1 = Some (Inr (a2, s2, st2))"
      "GenericArray_ctor A E t 8 (ucast kNumEntries) s2 st2 = Some (Inr (a3, s3, st3))"
      and res: "(msg, status) = (if length (object_addrs (snd (sleep_for P 500 (s3, st3)))) \<noteq> unat (3 * kNumEntries) then fail_test else pass_test)"
    using work by (auto simp: do_work_def arrays and_then_Some_Inr Let_def split: if_splits)
  note one = ctor_registers [OF ctors(1) empty(2)]
  note two = ctor_registers [OF ctors(2) one(2)]
  note three = ctor_registers [OF ctors(3) two(2)]
  have "length (object_addrs st3) = unat (3 * kNumEntries)"
    using empty(1) one(1) two(1) three(1) by (simp add: kNumEntries_def)
  then show ?thesis using res quiet [of 500 "(s3, st3)"] by (simp add: pass_test_def)
qed

lemma shift_one: "length xs = k \<Longrightarrow> (xs @ a # v # zs)[k := (xs @ a # v # zs) ! Suc k] = xs @ v # v # zs"
  by (simp add: nth_append list_update_append)

lemma shift_down:
  "n \<le> length argv \<Longrightarrow> 2 \<le> n \<Longrightarrow>
   fold (\<lambda>i argv. argv[i - 1 := argv ! i]) [2..<n] argv = argv ! 0 # map ((!) argv) [2..<n] @ drop (n - 1) argv"
proof (induction n)
  case (Suc n)
  show ?case
  proof (cases "n = 1")
    case True
    then show ?thesis using Suc.prems(1) by (cases argv) simp_all
  next
    case False
    then have n: "2 \<le> n" "n < length argv" using Suc.prems by simp_all
    then have d: "drop (n - 1) argv = argv ! (n - 1) # drop n argv"
      using Cons_nth_drop_Suc [of "n - 1" argv] by simp
    have d': "drop n argv = argv ! n # drop (Suc n) argv" using Cons_nth_drop_Suc [OF n(2)] by simp
    have f: "fold (\<lambda>i argv. argv[i - 1 := argv ! i]) [2..<n] argv = (argv ! 0 # map ((!) argv) [2..<n]) @ argv ! (n - 1) # argv ! n # drop (Suc n) argv"
      using Suc.IH n unfolding d d' by simp
    have "fold (\<lambda>i argv. argv[i - 1 := argv ! i]) [2..<Suc n] argv = (argv ! 0 # map ((!) argv) [2..<n]) @ argv ! n # argv ! n # drop (Suc n) argv"
      using n shift_one [of "argv ! 0 # map ((!) argv) [2..<n]" "n - 1" "argv ! (n - 1)" "argv ! n" "drop (Suc n) argv"]
      by (simp only: upt_Suc_append fold_append o_apply f fold.simps id_apply) simp
    then show ?thesis using n d' by simp
  qed
qed simp

lemma shifted_arguments:
  "fold (\<lambda>i argv. argv[i - 1 := argv ! i]) [2..<length rest + 3] (prog # conf # addr # rest)
     = prog # addr # rest @ [last (addr # rest)]"
proof -
  have "map ((!) (prog # conf # addr # rest)) [2..<length rest + 3] = addr # rest"
    by (rule nth_equalityI) (simp_all add: nth_append)
  moreover have "drop (length rest + 2) (prog # conf # addr # rest) = [last (addr # rest)]"
    using drop_Cons' by (cases rest rule: rev_cases) simp_all
  ultimately show ?thesis using shift_down [of "length rest + 3" "prog # conf # addr # rest"] by simp
qed

text \<open>
  Arguments: with a program name, a configuration file and an address the runtime is started
  with the file and the rest of the arguments, the last one twice; \<^verbatim>\<open>_main\<close> finds the
  address as its first argument. With fewer the runtime is not started.
\<close>

theorem main_arguments:
  "c_main rt (int (length rest) + 3) (prog # conf # addr # rest) g
     = (rt conf (prog # addr # rest @ [last (addr # rest)]), int (length rest) + 2)
   \<and> (argc < 3 \<longrightarrow> c_main rt argc argv g = (- 22, g))"
  using shifted_arguments [of rest prog conf addr] by (simp add: c_main_def Let_def nat_add_distrib del: last.simps)

section \<open>Instances\<close>

text \<open>A store of arrays by number.\<close>

definition store_access :: "(nat, nat \<Rightarrow> nat \<Rightarrow> u64) access" where
  "store_access = \<lparr>enter_scope = (\<lambda>w. w), leave_scope = (\<lambda>w. w), at_read = (\<lambda>a i w. Some (w a i, w)),
     at_assign = (\<lambda>a i v w. Some (w(a := (w a)(i := v))))\<rparr>"

lemma store_access_law: "access_law store_access (\<lambda>w. w)"
  by (simp add: access_law_def store_access_def)

theorem filled_arrays_added_witness:
  "\<exists>w1 w2 w3. copy_array store_access 2 0 [5, 2 ^ 63] (\<lambda>_ _. 0) = Some w1 \<and> copy_array store_access 2 1 [6, 2 ^ 63 + 1] w1 = Some w2
    \<and> add_array store_access 2 0 0 1 w2 = Some w3 \<and> w3 0 0 = 11 \<and> w3 0 1 = 1"
proof -
  have copies: "copy_items store_access a raw is w \<noteq> None" for a raw "is" and w
    by (induction "is" arbitrary: w) (simp_all add: store_access_def)
  have adds: "add_items store_access c a b is w \<noteq> None" for a b c "is" and w
    by (induction "is" arbitrary: w) (simp_all add: store_access_def)
  obtain w1 where 1: "copy_array store_access 2 0 [5, 2 ^ 63] (\<lambda>_ _. 0) = Some w1" using copies unfolding copy_array_def by blast
  obtain w2 where 2: "copy_array store_access 2 1 [6, 2 ^ 63 + 1] w1 = Some w2" using copies unfolding copy_array_def by blast
  obtain w3 where 3: "add_array store_access 2 0 0 1 w2 = Some w3" using adds unfolding add_array_def by blast
  have "w3 0 0 = 11 \<and> w3 0 1 = 1"
    using filled_arrays_added [OF store_access_law _ 1 2 3] by (simp add: less_2_cases_iff all_conj_distrib)
  then show ?thesis using 1 2 3 by blast
qed

text \<open>
  Surroundings in which every region has room at 2054, so that the arrays are constructed
  without waiting.
\<close>

definition generous :: region_ops where
  "generous = layout_regions\<lparr>rg_allocate_object := (\<lambda>sz r h. (Some 2054, r, h))\<rparr>"

definition generous_ext :: "(ring, u8 \<times> u8 list \<Rightarrow> u8 list option) ext" where
  "generous_ext = demo_ext\<lparr>Rg := generous\<rparr>"

definition demo_program :: "(string, ring, u8 \<times> u8 list \<Rightarrow> u8 list option) program_ext" where
  "demo_program = \<lparr>str_to_netaddr = (\<lambda>a. a), tcp_far_mem_size = (\<lambda>a n sz. sz),
     allocate_array = (\<lambda>v. GenericArray_ctor demo_arr generous_ext Pager 8 128 (fst v) (snd v)), sleep_for = (\<lambda>n v. v)\<rparr>"

lemma generous_region: "new_region generous = new_region layout_regions" "rg_default generous = rg_default layout_regions"
  by (simp_all add: new_region_def fun_eq_iff generous_def)

lemma generous_core: "init_core_regions generous loc b cs i h m = init_core_regions layout_regions loc b cs i h m"
  by (induction cs arbitrary: i h m) (simp_all add: generous_region split_def Let_def)

lemma generous_free: "init_free_regions generous C loc b n i h m = init_free_regions layout_regions C loc b n i h m"
  by (induction n arbitrary: i h m) (simp_all add: generous_region split_def Let_def)

lemma generous_manager: "RegionManager_ctor generous C hp sz loc h = RegionManager_ctor layout_regions C hp sz loc h"
  unfolding RegionManager_ctor_def generous_core generous_free generous_region by (rule refl)

lemma generous_sel [simp]: "Rg generous_ext = generous" "Cb generous_ext = ring_ops" "kVanillaPtrDSID generous_ext = 255"
  by (simp_all add: generous_ext_def)

lemma generous_ctor: "FarMemManager_ctor generous_ext B c f n s st = FarMemManager_ctor demo_ext B c f n s st"
  unfolding FarMemManager_ctor_def generous_sel demo_ext_simps generous_manager by (rule refl)

lemma demo_program_sel [simp]:
  "tcp_far_mem_size demo_program a n sz = sz" "sleep_for demo_program k v = v"
  "allocate_array demo_program v = GenericArray_ctor demo_arr generous_ext Pager 8 128 (fst v) (snd v)"
  by (simp_all add: demo_program_def)

lemma generous_new: "\<exists>s'. allocate_generic_unique_ptr generous_ext p ds sz None s = Some (Inr s')"
proof -
  have g: "rg_allocate_object generous k r h = (Some 2054, r, h)" for k r h
    by (simp add: generous_def)
  obtain s1 where one: "allocate_local_object generous_ext False (total_size generous_ext sz (id_len_of generous_ext None)) s = Some (Inr (2054, s1))"
    by (simp add: allocate_local_object_def retry_allocate_local.simps try_local_def g Let_def)
  have "\<exists>s'. allocate_remote_object generous_ext False k s = Some (Inr (2054, s'))" for k and s
    by (simp add: allocate_remote_object_def retry_allocate_far_mem.simps try_remote_def g Let_def)
  then obtain s2 where "allocate_remote_object generous_ext False (total_size generous_ext sz (id_len_of generous_ext None))
      (upd_ptr (pt_init (Pt generous_ext) False p 2054) p s1) = Some (Inr (2054, s2))" by blast
  with one show ?thesis by (simp add: allocate_generic_unique_ptr_def init_object_def Let_def)
qed

lemma generous_items:
  "object_addrs_mut st = None \<Longrightarrow> \<exists>w. array_items demo_arr generous_ext t p sz is (s, st) = Some (Inr w)"
proof (induction "is" arbitrary: s st)
  case (Cons i "is")
  obtain s1 where "allocate_generic_unique_ptr generous_ext (temp_ptr demo_arr) (kVanillaPtrDSID generous_ext) (ucast sz) None s = Some (Inr s1)"
    using generous_new by blast
  then show ?case
    using Cons.IH [of "registered p sz [i] st"] Cons.prems by (simp add: array_item_def register_free Let_def)
qed simp

lemma generous_array:
  assumes "object_addrs_mut st = None" and "n < 2 ^ 32"
  shows "\<exists>arr s' st'. GenericArray_ctor demo_arr generous_ext Pager 8 n s st = Some (Inr (arr, s', st')) \<and> object_addrs_mut st' = None"
proof -
  obtain s1 where new: "new_ptrs demo_arr n (preempt_disable s) = Some (4096, s1)"
    using assms(2) by (simp add: demo_arr_def not_le)
  obtain s' st' where "array_items demo_arr generous_ext Pager 4096 8 [0..<unat n] (preempt_enable s1, st) = Some (Inr (s', st'))"
    using generous_items [OF assms(1)] by fastforce
  then have "\<exists>arr. GenericArray_ctor demo_arr generous_ext Pager 8 n s st = Some (Inr (arr, s', st'))"
    by (simp add: GenericArray_ctor_def new)
  then show ?thesis using ctor_registers(2) [OF _ assms(1)] by blast
qed

lemma generous_arrays:
  assumes "object_addrs_mut st = None" and "n < 2 ^ 32"
  obtains a1 s1 st1 a2 s2 st2 a3 s3 st3 where
      "GenericArray_ctor demo_arr generous_ext Pager 8 n s st = Some (Inr (a1, s1, st1))"
      "GenericArray_ctor demo_arr generous_ext Pager 8 n s1 st1 = Some (Inr (a2, s2, st2))"
      "GenericArray_ctor demo_arr generous_ext Pager 8 n s2 st2 = Some (Inr (a3, s3, st3))"
  using generous_array [OF _ assms(2)] assms(1) by metis

theorem test_tcp_01_passes_witness:
  "test_main demo_program generous_ext demo_build [''test'', ''18.18.1.3:8000''] (demo_fm [] [])
     \<lparr>factory_ptr = None, pager_state = dswap_static\<rparr> = Some (Inr (''Passed'', 1))"
proof -
  let ?w = "\<lparr>factory_ptr = None, pager_state = dswap_static\<rparr> :: (ring, u8 \<times> u8 list \<Rightarrow> u8 list option) factory"
  have b: "demo_build\<lparr>get_far_mem_size := 16384\<rparr> = demo_build" and size: "get_far_mem_size demo_build = 16384"
    by (simp_all add: demo_build_def)
  obtain mo st where c: "FarMemManager_ctor demo_ext demo_build 16384 16384 12 (demo_fm [] []) dswap_static = Inr (mo, st)"
    using demo_constructed by blast
  have "object_addrs_mut st = None"
    using c by (auto simp: FarMemManager_ctor_def init_dynamic_pager_def dswap_static_def Let_def split: sum.splits prod.splits if_splits)
  then obtain a1 s1 st1 a2 s2 st2 a3 s3 st3 where arrays:
      "GenericArray_ctor demo_arr generous_ext Pager 8 128 (fm mo) st = Some (Inr (a1, s1, st1))"
      "GenericArray_ctor demo_arr generous_ext Pager 8 128 s1 st1 = Some (Inr (a2, s2, st2))"
      "GenericArray_ctor demo_arr generous_ext Pager 8 128 s2 st2 = Some (Inr (a3, s3, st3))"
    by (rule generous_arrays [where n = 128]) (simp_all add: word_less_nat_alt)
  have "\<exists>v. test_main demo_program generous_ext demo_build [''test'', ''18.18.1.3:8000''] (demo_fm [] []) ?w = Some (Inr v)"
    using arrays by (simp add: test_main_def do_work_def build_def kNumGCThreads_def kFarMemSize_def kCacheSize_def
        b size generous_ctor c Let_def push_bit_eq_mult)
  then obtain msg status where run: "test_main demo_program generous_ext demo_build [''test'', ''18.18.1.3:8000''] (demo_fm [] []) ?w = Some (Inr (msg, status))"
    by force
  have k: "ucast kNumEntries = (128 :: u64)" by (simp add: kNumEntries_def)
  have "msg = ''Passed'' \<and> status = 1"
    by (rule test_tcp_01_passes [OF _ _ _ _ run, of demo_arr Pager]) (simp_all add: k dswap_static_def)
  then show ?thesis using run by simp
qed

end
