(* ===== verification/Test_Registry.thy ===== *)
theory Test_Registry
  imports Test_Programs
begin

text \<open>
  The program \<^verbatim>\<open>unit_tests/src/test_tcp_02.cpp\<close>, which allocates three arrays of 8 M items and
  writes the sizes of every thousandth registered object to a file. Its copies of the array
  helpers, \<^verbatim>\<open>fail_test\<close> and \<^verbatim>\<open>pass_test\<close> are the ones of the first program, and
  \<^verbatim>\<open>test_tcp_03.cpp\<close> has the same program behind its sorting routine.
\<close>

section \<open>The program\<close>

definition kCacheSize_02 :: u64 where "kCacheSize_02 = push_bit 20 128"
definition kFarMemSize_02 :: u64 where "kFarMemSize_02 = push_bit 30 4"
definition kNumGCThreads_02 :: u32 where "kNumGCThreads_02 = 12"
definition kNumEntries_02 :: u32 where "kNumEntries_02 = push_bit 20 8"
definition kNumConnections_02 :: u32 where "kNumConnections_02 = 300"

text \<open>
  The loop over the registry: \<open>get_object_size\<close> reads the pointer with the given address; the
  result is the lines of the file. \<^verbatim>\<open>at\<close> throws behind the end of the vector.
\<close>

fun scan_items :: "(addr \<Rightarrow> u16) \<Rightarrow> addr list \<Rightarrow> nat list \<Rightarrow> (u64 \<times> u16) list \<Rightarrow> fm_error + (u64 \<times> u16) list" where
  "scan_items get_object_size addrs [] f = Inr f"
| "scan_items get_object_size addrs (i # is) f =
     (if i mod 1000 = 0
      then if i < length addrs
           then scan_items get_object_size addrs is (f @ [(of_nat i, get_object_size (addrs ! i))])
           else Inl Out_Of_Range
      else scan_items get_object_size addrs is f)"

text \<open>
  \<^verbatim>\<open>do_work\<close>. The source has a line with the name \<^verbatim>\<open>register_object\<close> and no semicolon, which
  does not compile; with the semicolon it would have no effect, and it is read that way.
\<close>

definition do_work_02 :: "('n, 'q, 'd) program_ext \<Rightarrow> ('q, 'd) ext \<Rightarrow> ('q, 'd) fm_state \<times> dswap \<Rightarrow>
   (fm_error + ((u64 \<times> u16) list \<times> string \<times> nat)) option" where
  "do_work_02 P E w =
     and_then (allocate_array P w) (\<lambda>(array_A, w).
     and_then (allocate_array P w) (\<lambda>(array_B, w).
     and_then (allocate_array P w) (\<lambda>(array_C, w).
       let array_A = disable_prefetch array_A;
           array_B = disable_prefetch array_B;
           array_C = disable_prefetch array_C
       in case scan_items (\<lambda>p. pt_get_object_size (Pt E) (metas (fst w) p)) (object_addrs (snd w))
               [0..<unat (3 * kNumEntries_02)] [] of
            Inl e \<Rightarrow> Some (Inl e)
          | Inr f \<Rightarrow> Some (Inr (f, pass_test)))))"

definition test_main_02 :: "('n, 'q, 'd) program_ext \<Rightarrow> ('q, 'd) ext \<Rightarrow> build_ext \<Rightarrow> string list \<Rightarrow>
   ('q, 'd) fm_state \<Rightarrow> ('q, 'd) factory \<Rightarrow> (fm_error + ((u64 \<times> u16) list \<times> string \<times> nat)) option" where
  "test_main_02 P E B argv s w =
     (let raddr = str_to_netaddr P (argv ! 1);
          B = B\<lparr>get_far_mem_size := tcp_far_mem_size P raddr kNumConnections_02 kFarMemSize_02\<rparr>
      in case build E B kCacheSize_02 (Some kNumGCThreads_02) s w of
           Inl e \<Rightarrow> Some (Inl e)
         | Inr (None, w) \<Rightarrow> Some (Inl Undefined)
         | Inr (Some mo, w) \<Rightarrow> do_work_02 P E (fm mo, pager_state w))"

text \<open>
  \<^verbatim>\<open>main\<close>: \<open>rt\<close> is what \<^verbatim>\<open>runtime_init\<close> returns for a configuration file; if it starts, it runs
  \<open>start\<close>, which is \<^verbatim>\<open>_main\<close>, on the arguments it is given, and returns when that has ended. The
  result is the value returned, the global \<^verbatim>\<open>argc\<close> and, where \<^verbatim>\<open>_main\<close> was run, what it did.
\<close>

definition c_main_02 :: "(string \<Rightarrow> int) \<Rightarrow> (string list \<Rightarrow> 'r) \<Rightarrow> int \<Rightarrow> string list \<Rightarrow> int \<Rightarrow> int \<times> int \<times> 'r option" where
  "c_main_02 rt start argc argv argc_global =
     (if argc < 3 then (- 22, argc_global, None)
      else (let conf_path = argv ! 1;
                argv = fold (\<lambda>i argv. argv[i - 1 := argv ! i]) [2..<nat argc] argv;
                argc_global = argc - 1;
                ret = rt conf_path
            in if ret \<noteq> 0 then (ret, argc_global, None) else (0, argc_global, Some (start argv))))"

lemma c_main_02_runs:
  "c_main_02 rt start (int (length rest) + 3) (prog # conf # addr # rest) g
     = (rt conf, int (length rest) + 2, if rt conf = 0 then Some (start (prog # addr # rest @ [last (addr # rest)])) else None)"
  using shifted_arguments [of rest prog conf addr] by (simp add: c_main_02_def Let_def nat_add_distrib del: last.simps)

section \<open>What the scan reports\<close>

lemma scan_items_spec:
  "scan_items g addrs is f =
     (if \<forall>i\<in>set is. i mod 1000 = 0 \<longrightarrow> i < length addrs
      then Inr (f @ map (\<lambda>i. (of_nat i, g (addrs ! i))) (filter (\<lambda>i. i mod 1000 = 0) is))
      else Inl Out_Of_Range)"
proof (induction "is" arbitrary: f)
  case (Cons i "is")
  then show ?case by (cases "i mod 1000 = 0"; cases "i < length addrs") auto
qed simp

lemma multiples:
  assumes "0 < d"
  shows "filter (\<lambda>i. i mod d = 0) [0..<n] = map ((*) d) [0..<(n + (d - 1)) div d]"
proof (induction n)
  case 0
  then show ?case using assms by simp
next
  case (Suc n)
  have s: "Suc n + (d - 1) = Suc (n + (d - 1))" "Suc (n + (d - 1)) = n + d" using assms by simp_all
  show ?case
  proof (cases "n mod d = 0")
    case True
    then obtain k where k: "n = d * k" by (auto simp: mod_eq_0_iff_dvd)
    have "(d - 1 + k * d) div d = k" using assms by (subst div_mult_self1) simp_all
    then have "(n + (d - 1)) div d = k" using k by (simp only: add.commute mult.commute)
    moreover have "(Suc n + (d - 1)) div d = Suc k" unfolding s using assms k by simp
    ultimately show ?thesis using Suc.IH True k by simp
  next
    case False
    then have "(Suc n + (d - 1)) div d = (n + (d - 1)) div d"
      unfolding s(1) div_Suc using s(2) by simp
    then show ?thesis using Suc.IH False by simp
  qed
qed

lemma multiples_bounded:
  assumes "0 < n" and "0 < d"
  shows "(\<forall>i\<in>set [0..<n]. i mod d = 0 \<longrightarrow> i < l) \<longleftrightarrow> (n - 1) div d * d < (l :: nat)"
proof
  have "(n - 1) div d * d \<le> n - 1" by (rule div_times_less_eq_dividend)
  then have "(n - 1) div d * d \<in> set [0..<n]" using assms(1) by (simp only: set_upt atLeastLessThan_iff) linarith
  then show "(n - 1) div d * d < l" if "\<forall>i\<in>set [0..<n]. i mod d = 0 \<longrightarrow> i < l"
    using that by (metis mod_mult_self2_is_0)
next
  assume l: "(n - 1) div d * d < l"
  have "i < l" if "i < n" "i mod d = 0" for i
  proof -
    have "i div d \<le> (n - 1) div d" using that(1) by (intro div_le_mono) simp
    then have "i div d * d \<le> (n - 1) div d * d" by (rule mult_le_mono1)
    moreover have "i div d * d = i" using that(2) by (simp add: mod_eq_0_iff_dvd)
    ultimately show ?thesis using l by simp
  qed
  then show "\<forall>i\<in>set [0..<n]. i mod d = 0 \<longrightarrow> i < l" by simp
qed

lemma entries_02: "unat (3 * kNumEntries_02) = 25165824"
  by (simp add: kNumEntries_02_def)

text \<open>
  Scan: the loop gets to its end exactly when the registry has more than 25165000 objects, so it does
  not see whether the last 823 of the three arrays are registered; it then writes 25166 lines, the size it finds
  in every thousandth pointer. With fewer objects an exception ends the program.
\<close>

lemma scan_registry:
  "scan_items g addrs [0..<unat (3 * kNumEntries_02)] [] =
     (if 25165000 < length addrs then Inr (map (\<lambda>k. (1000 * of_nat k, g (addrs ! (1000 * k)))) [0..<25166])
      else Inl Out_Of_Range)"
  unfolding entries_02 scan_items_spec
  by (simp only: multiples_bounded zero_less_numeral multiples map_map append_Nil o_def of_nat_mult) simp


text \<open>
  Registry test: when the manager is built and the arrays are constructed as \<^verbatim>\<open>GenericArray\<close>
  does, the program writes its 25166 lines, each with the size bits of one registered pointer, prints that it
  passed and exits with status 1; the scan never throws.
\<close>

theorem test_tcp_02_passes:
  assumes arrays: "\<And>v. allocate_array P v = GenericArray_ctor A E t 8 (ucast kNumEntries_02) (fst v) (snd v)"
    and free: "object_addrs_mut (pager_state w) = None"
    and built: "build E (B\<lparr>get_far_mem_size := tcp_far_mem_size P (str_to_netaddr P (argv ! 1)) kNumConnections_02 kFarMemSize_02\<rparr>)
      kCacheSize_02 (Some kNumGCThreads_02) s w = Inr (Some mo, w')"
    and ctors: "GenericArray_ctor A E t 8 (ucast kNumEntries_02) (fm mo) (pager_state w') = Some (Inr (a1, s1, st1))"
      "GenericArray_ctor A E t 8 (ucast kNumEntries_02) s1 st1 = Some (Inr (a2, s2, st2))"
      "GenericArray_ctor A E t 8 (ucast kNumEntries_02) s2 st2 = Some (Inr (a3, s3, st3))"
  shows "test_main_02 P E B argv s w = Some (Inr
      (map (\<lambda>k. (1000 * of_nat k, pt_get_object_size (Pt E) (metas s3 (object_addrs st3 ! (1000 * k))))) [0..<25166],
       ''Passed'', 1))"
proof -
  have "object_addrs_mut (pager_state w') = None"
    using built free by (auto simp: build_def FarMemManager_ctor_def init_dynamic_pager_def Let_def split: sum.splits prod.splits if_splits)
  note one = ctor_registers [OF ctors(1) this]
  note two = ctor_registers [OF ctors(2) one(2)]
  note three = ctor_registers [OF ctors(3) two(2)]
  have "25165000 < length (object_addrs st3)"
    using one(1) two(1) three(1) by (simp add: kNumEntries_02_def)
  then have "do_work_02 P E (fm mo, pager_state w') = Some (Inr
      (map (\<lambda>k. (1000 * of_nat k, pt_get_object_size (Pt E) (metas s3 (object_addrs st3 ! (1000 * k))))) [0..<25166], pass_test))"
    by (simp add: do_work_02_def arrays ctors scan_registry Let_def)
  then show ?thesis unfolding test_main_02_def Let_def built by (simp add: pass_test_def)
qed

text \<open>
  The size of a pointer is only part of its word while the object is absent: with the documented format the bits
  of a present pointer are bits of its address.
\<close>

lemma size_of_present:
  "pt_get_object_size format_ptrs (fst (pt_init format_ptrs False p a mh)) = ucast (a + of_nat bo_header) * 128"
proof -
  have "bit (ucast (drop_bit 10 (push_bit 17 x)) :: u16) i = bit (push_bit 7 (ucast x) :: u16) i" for x :: u64 and i
    by (cases "i < 16") (auto simp: bit_ucast_iff bit_drop_bit_eq bit_push_bit_iff)
  then have "ucast (drop_bit 10 (push_bit 17 x)) = (push_bit 7 (ucast x) :: u16)" for x :: u64
    by (intro bit_eqI) simp
  then show ?thesis
    by (simp add: format_ptrs_def to_word_def meta_constants split_def push_bit_eq_mult [of 7])
qed

section \<open>An instance\<close>

lemma constructed_02:
  "\<exists>mo st'. FarMemManager_ctor demo_ext (demo_build\<lparr>get_far_mem_size := kFarMemSize_02\<rparr>) kCacheSize_02 kFarMemSize_02 n (demo_fm [] []) st = Inr (mo, st')"
proof -
  have sz: "kCacheSize_02 \<le> 2 ^ 41" "kFarMemSize_02 \<le> 2 ^ 41" "4 < regions_in kCacheSize_02" "4 < regions_in kFarMemSize_02"
    by (simp_all add: regions_in_def kCacheSize_02_def kFarMemSize_02_def)
  have r: "region_env layout_regions ring_ops ring_items ring_cap" by (rule layout_env)
  obtain cm h where "RegionManager_ctor layout_regions ring_ops (hugepage demo_build) kCacheSize_02 True (\<lambda>_. 0) = Inr (cm, h)"
    using region_env.ctor_result [OF r sz(1,3)] by blast
  moreover obtain fmm h' where "RegionManager_ctor layout_regions ring_ops (hugepage demo_build) kFarMemSize_02 False h = Inr (fmm, h')"
    using region_env.ctor_result [OF r sz(2,4)] by blast
  moreover have "\<not> 2 ^ kObjectIDBitSize \<le> kFarMemSize_02" by (simp add: kObjectIDBitSize_def kFarMemSize_02_def)
  ultimately show ?thesis by (simp add: FarMemManager_ctor_def Let_def)
qed

theorem test_tcp_02_passes_witness:
  "\<exists>(P :: (string, ring, u8 \<times> u8 list \<Rightarrow> u8 list option) program_ext) B f. test_main_02 P generous_ext B [''test'', ''18.18.1.3:8000''] (demo_fm [] [])
     \<lparr>factory_ptr = None, pager_state = dswap_static\<rparr> = Some (Inr (f, ''Passed'', 1)) \<and> length f = 25166"
proof -
  let ?w = "\<lparr>factory_ptr = None, pager_state = dswap_static\<rparr> :: (ring, u8 \<times> u8 list \<Rightarrow> u8 list option) factory"
  define P where "P = demo_program\<lparr>allocate_array := (\<lambda>v. GenericArray_ctor demo_arr generous_ext Pager 8 (ucast kNumEntries_02) (fst v) (snd v))\<rparr>"
  have P: "tcp_far_mem_size P a n sz = sz" "allocate_array P v = GenericArray_ctor demo_arr generous_ext Pager 8 (ucast kNumEntries_02) (fst v) (snd v)" for a n sz v
    by (simp_all add: P_def demo_program_def)
  obtain mo st where c: "FarMemManager_ctor demo_ext (demo_build\<lparr>get_far_mem_size := kFarMemSize_02\<rparr>) kCacheSize_02 kFarMemSize_02 12 (demo_fm [] []) dswap_static = Inr (mo, st)"
    using constructed_02 by blast
  have free: "object_addrs_mut st = None"
    using c by (auto simp: FarMemManager_ctor_def init_dynamic_pager_def dswap_static_def Let_def split: sum.splits prod.splits if_splits)
  have b: "build generous_ext (demo_build\<lparr>get_far_mem_size := tcp_far_mem_size P (str_to_netaddr P ([''test'', ''18.18.1.3:8000''] ! 1)) kNumConnections_02 kFarMemSize_02\<rparr>)
      kCacheSize_02 (Some kNumGCThreads_02) (demo_fm [] []) ?w = Inr (Some mo, \<lparr>factory_ptr = Some mo, pager_state = st\<rparr>)"
    using c by (simp add: build_def P generous_ctor kNumGCThreads_02_def)
  obtain a1 s1 st1 a2 s2 st2 a3 s3 st3 where arrays:
      "GenericArray_ctor demo_arr generous_ext Pager 8 (ucast kNumEntries_02) (fm mo) st = Some (Inr (a1, s1, st1))"
      "GenericArray_ctor demo_arr generous_ext Pager 8 (ucast kNumEntries_02) s1 st1 = Some (Inr (a2, s2, st2))"
      "GenericArray_ctor demo_arr generous_ext Pager 8 (ucast kNumEntries_02) s2 st2 = Some (Inr (a3, s3, st3))"
    by (rule generous_arrays [OF free, where n = "ucast kNumEntries_02"]) (simp_all add: kNumEntries_02_def word_less_nat_alt)
  have "object_addrs_mut (pager_state ?w) = None" by (simp add: dswap_static_def)
  from test_tcp_02_passes [OF P(2) this b] arrays
  have "\<exists>g. test_main_02 P generous_ext demo_build [''test'', ''18.18.1.3:8000''] (demo_fm [] []) ?w
      = Some (Inr (map g [0..<25166], ''Passed'', 1))" by (simp only: factory.simps) blast
  then obtain g where "test_main_02 P generous_ext demo_build [''test'', ''18.18.1.3:8000''] (demo_fm [] []) ?w
      = Some (Inr (map g [0..<25166], ''Passed'', 1))" by blast
  moreover have "length (map g [0..<25166]) = 25166" by simp
  ultimately show ?thesis by blast
qed

end
