(* ===== verification/Test_Quicksort.thy ===== *)
theory Test_Quicksort
  imports Main "HOL-Library.Multiset" "HOL-Library.Monad_Syntax"
begin

text \<open>
  The sorting routine of \<^verbatim>\<open>unit_tests/src/test_tcp_03.cpp\<close>: quicksort with a random pivot
  on a C array of \<^verbatim>\<open>int\<close>. \<open>None\<close> is undefined behaviour: an access outside the array, a
  signed overflow, a division by zero.
\<close>

section \<open>C arrays and integers\<close>

definition c_int :: "int \<Rightarrow> int option" where
  "c_int n = (if - (2 ^ 31) \<le> n \<and> n < 2 ^ 31 then Some n else None)"

definition at_int :: "int list \<Rightarrow> int \<Rightarrow> int option" where
  "at_int arr i = (if 0 \<le> i \<and> nat i < length arr then Some (arr ! nat i) else None)"

definition swap_int :: "int list \<Rightarrow> int \<Rightarrow> int \<Rightarrow> int list option" where
  "swap_int arr i j = do {
     x \<leftarrow> at_int arr i;
     y \<leftarrow> at_int arr j;
     Some (arr[nat i := y, nat j := x]) }"

text \<open>\<^verbatim>\<open>srand(time(NULL))\<close> and \<^verbatim>\<open>rand()\<close>, which is never negative; \<open>'r\<close> is the state of the library.\<close>

record 'r libc =
  srand_time :: "'r \<Rightarrow> 'r"
  rand_next :: "'r \<Rightarrow> nat \<times> 'r"

section \<open>Quicksort\<close>

fun partition_loop :: "int \<Rightarrow> int list \<Rightarrow> int list \<Rightarrow> int \<Rightarrow> (int list \<times> int) option" where
  "partition_loop pivot [] arr i = Some (arr, i)"
| "partition_loop pivot (j # js) arr i = do {
     x \<leftarrow> at_int arr j;
     if x \<le> pivot
     then do {
       i \<leftarrow> c_int (i + 1);
       arr \<leftarrow> swap_int arr i j;
       partition_loop pivot js arr i }
     else partition_loop pivot js arr i }"

definition partition_arr :: "int list \<Rightarrow> int \<Rightarrow> int \<Rightarrow> (int list \<times> int) option" where
  "partition_arr arr low high = do {
     pivot \<leftarrow> at_int arr high;
     i \<leftarrow> c_int (low - 1);
     last \<leftarrow> c_int (high - 1);
     (arr, i) \<leftarrow> partition_loop pivot [low..last] arr i;
     k \<leftarrow> c_int (i + 1);
     arr \<leftarrow> swap_int arr k high;
     Some (arr, k) }"

definition partition_r :: "'r libc \<Rightarrow> int list \<Rightarrow> int \<Rightarrow> int \<Rightarrow> 'r \<Rightarrow> ((int list \<times> int) \<times> 'r) option" where
  "partition_r L arr low high r =
     (let r = srand_time L r; (k, r) = rand_next L r
      in do {
        d \<leftarrow> c_int (high - low);
        if d = 0 then None else do {
          random \<leftarrow> c_int (low + int k mod \<bar>d\<bar>);
          arr \<leftarrow> swap_int arr random high;
          res \<leftarrow> partition_arr arr low high;
          Some (res, r) } })"

text \<open>The place of the pivot lies between \<open>low\<close> and \<open>high\<close> whatever the array holds.\<close>

lemma partition_loop_index:
  "partition_loop pivot js arr i = Some (arr', i') \<Longrightarrow> i \<le> i' \<and> i' \<le> i + int (length js)"
  by (induction js arbitrary: arr i) (fastforce simp: bind_eq_Some_conv c_int_def split: if_splits)+

lemma partition_r_index:
  assumes "partition_r L arr low high r = Some ((arr', k), r')" and "low < high"
  shows "low \<le> k \<and> k \<le> high"
  using assms partition_loop_index
  by (fastforce simp: partition_r_def partition_arr_def bind_eq_Some_conv c_int_def split: if_splits prod.splits)

function quickSort :: "'r libc \<Rightarrow> int list \<Rightarrow> int \<Rightarrow> int \<Rightarrow> 'r \<Rightarrow> (int list \<times> 'r) option" where
  "quickSort L arr low high r =
     (if low < high
      then do {
        ((arr, k), r) \<leftarrow> partition_r L arr low high r;
        left \<leftarrow> c_int (k - 1);
        (arr, r) \<leftarrow> quickSort L arr low left r;
        right \<leftarrow> c_int (k + 1);
        quickSort L arr right high r }
      else Some (arr, r))"
  by pat_completeness auto
termination
  by (relation "measure (\<lambda>(L, arr, low, high, r). nat (high - low))")
     (auto simp: c_int_def split: if_splits dest!: partition_r_index)

declare quickSort.simps [simp del]

section \<open>Lists in the place of index ranges\<close>

lemma c_int_fits [simp]: "- (2 ^ 31) \<le> n \<Longrightarrow> n < 2 ^ 31 \<Longrightarrow> c_int n = Some n"
  by (simp add: c_int_def)

lemma at_int_append: "k = int (length xs) \<Longrightarrow> at_int (xs @ c # ys) k = Some c"
  by (simp add: at_int_def)

lemma swap_int_append:
  "i = int (length xs) \<Longrightarrow> j = int (length xs + length ys + 1) \<Longrightarrow>
   swap_int (xs @ b # ys @ c # zs) i j = Some (xs @ c # ys @ b # zs)"
  using at_int_append [of j "xs @ b # ys" c zs] at_int_append [of i xs b "ys @ c # zs"]
  by (simp add: swap_int_def list_update_append nat_add_distrib)

lemma swap_int_self: "i = int (length xs) \<Longrightarrow> swap_int (xs @ c # ys) i i = Some (xs @ c # ys)"
  by (simp add: swap_int_def at_int_append)

lemma upto_length: "0 < n \<Longrightarrow> [a..a + int n - 1] = a # [a + 1..(a + 1) + int (n - 1) - 1]"
  by (subst upto.simps) simp

lemma partition_loop_spec:
  assumes "length (xs @ A @ B @ C @ p # ys) < 2 ^ 31" and "\<forall>x \<in> set A. x \<le> p" and "\<forall>x \<in> set B. p < x"
  shows "\<exists>A' B'. partition_loop p [int (length (xs @ A @ B))..int (length (xs @ A @ B)) + int (length C) - 1]
      (xs @ A @ B @ C @ p # ys) (int (length (xs @ A)) - 1) = Some (xs @ A' @ B' @ p # ys, int (length (xs @ A')) - 1)
    \<and> (\<forall>x \<in> set A'. x \<le> p) \<and> (\<forall>x \<in> set B'. p < x) \<and> mset (A' @ B') = mset (A @ B @ C)"
  using assms
proof (induction C arbitrary: A B)
  case Nil
  then show ?case by (intro exI [of _ A] exI [of _ B]) simp
next
  case (Cons c C)
  have js: "[int (length (xs @ A @ B))..int (length (xs @ A @ B)) + int (length (c # C)) - 1]
      = int (length (xs @ A @ B)) # [int (length (xs @ A @ B @ [c]))..int (length (xs @ A @ B @ [c])) + int (length C) - 1]"
    by (subst upto_length) (simp_all add: add.assoc add.commute)
  have at: "at_int (xs @ A @ B @ (c # C) @ p # ys) (int (length (xs @ A @ B))) = Some c"
    using at_int_append [of _ "xs @ A @ B" c "C @ p # ys"] by simp
  show ?case
  proof (cases "c \<le> p")
    case False
    then show ?thesis using Cons.IH [of A "B @ [c]"] Cons.prems at unfolding js by (simp add: add.assoc)
  next
    case True
    have fits: "c_int (int (length (xs @ A)) - 1 + 1) = Some (int (length (xs @ A)))" using Cons.prems(1) by simp
    show ?thesis
    proof (cases B)
      case Nil
      have "swap_int (xs @ A @ B @ (c # C) @ p # ys) (int (length (xs @ A))) (int (length (xs @ A @ B))) = Some (xs @ (A @ [c]) @ C @ p # ys)"
        using swap_int_self [of _ "xs @ A" c "C @ p # ys"] Nil by simp
      then show ?thesis using Cons.IH [of "A @ [c]" "[]"] Cons.prems at fits True Nil unfolding js by (simp add: add.assoc)
    next
      case (Cons b B')
      have "swap_int (xs @ A @ B @ (c # C) @ p # ys) (int (length (xs @ A))) (int (length (xs @ A @ B)))
          = Some (xs @ (A @ [c]) @ (B' @ [b]) @ C @ p # ys)"
        using swap_int_append [of "int (length (xs @ A))" "xs @ A" "int (length (xs @ A @ B))" B' b c "C @ p # ys"] by (simp add: Cons)
      then show ?thesis
        using Cons.IH [of "A @ [c]" "B' @ [b]"] Cons.prems at fits True Cons unfolding js by (simp add: add.assoc add_mset_commute)
    qed
  qed
qed

lemma partition_arr_spec:
  assumes "length (xs @ seg @ p # ys) < 2 ^ 31"
  shows "\<exists>A B. partition_arr (xs @ seg @ p # ys) (int (length xs)) (int (length xs + length seg))
      = Some (xs @ A @ p # B @ ys, int (length (xs @ A)))
    \<and> (\<forall>x \<in> set A. x \<le> p) \<and> (\<forall>x \<in> set B. p < x) \<and> mset (A @ B) = mset seg"
proof -
  obtain A B where loop: "partition_loop p [int (length xs)..int (length xs) + int (length seg) - 1] (xs @ seg @ p # ys) (int (length xs) - 1)
      = Some (xs @ A @ B @ p # ys, int (length (xs @ A)) - 1)"
    and le: "\<forall>x \<in> set A. x \<le> p" and gt: "\<forall>x \<in> set B. p < x" and ms: "mset (A @ B) = mset seg"
    using partition_loop_spec [of xs "[]" "[]" seg p ys] assms by auto
  have at: "at_int (xs @ seg @ p # ys) (int (length xs + length seg)) = Some p"
    using at_int_append [of _ "xs @ seg" p ys] by simp
  have len: "length A + length B = length seg" using arg_cong [OF ms, of size] by simp
  have ends: "[int (length xs)..int (length xs + length seg) - 1] = [int (length xs)..int (length xs) + int (length seg) - 1]"
    by simp
  have "partition_arr (xs @ seg @ p # ys) (int (length xs)) (int (length xs + length seg)) =
      do { arr \<leftarrow> swap_int (xs @ A @ B @ p # ys) (int (length (xs @ A))) (int (length xs + length seg)); Some (arr, int (length (xs @ A))) }"
    unfolding partition_arr_def at using assms len loop by (simp add: ends)
  then have run: "partition_arr (xs @ seg @ p # ys) (int (length xs)) (int (length xs + length seg)) =
      do { arr \<leftarrow> swap_int (xs @ A @ B @ p # ys) (int (length (xs @ A))) (int (length (xs @ A) + length B)); Some (arr, int (length (xs @ A))) }"
    by (simp add: add.assoc flip: len)
  show ?thesis
  proof (cases B)
    case Nil
    then show ?thesis using run le ms swap_int_self [of "int (length (xs @ A))" "xs @ A" p ys] by (intro exI [of _ A] exI [of _ "[]"]) simp
  next
    case (Cons b B')
    then show ?thesis using run le gt ms swap_int_append [of _ "xs @ A" _ B' b p ys]
      by (intro exI [of _ A] exI [of _ "B' @ [b]"]) (simp add: add_mset_commute)
  qed
qed

lemma swap_into_last:
  assumes "n < length seg"
  shows "\<exists>seg' p. swap_int (xs @ seg @ ys) (int (length xs + n)) (int (length xs + length seg) - 1) = Some (xs @ seg' @ p # ys)
    \<and> mset (seg' @ [p]) = mset seg"
proof -
  obtain a x b where seg: "seg = a @ x # b" "length a = n" using assms id_take_nth_drop by (metis length_take min.absorb4)
  show ?thesis
  proof (cases b rule: rev_cases)
    case Nil
    then show ?thesis using seg swap_int_self [of _ "xs @ a" x ys] by (intro exI [of _ a] exI [of _ x]) simp
  next
    case (snoc b' y)
    then show ?thesis using seg swap_int_append [of _ "xs @ a" _ b' x y ys]
      by (intro exI [of _ "a @ y # b'"] exI [of _ x]) (simp add: add.assoc)
  qed
qed

lemma partition_r_spec:
  assumes "length (xs @ seg @ ys) < 2 ^ 31" and "1 < length seg"
  shows "\<exists>A p B r'. partition_r L (xs @ seg @ ys) (int (length xs)) (int (length xs + length seg) - 1) r
      = Some ((xs @ A @ p # B @ ys, int (length (xs @ A))), r')
    \<and> (\<forall>x \<in> set A. x \<le> p) \<and> (\<forall>x \<in> set B. p < x) \<and> mset (A @ p # B) = mset seg"
proof -
  obtain k r' where r: "rand_next L (srand_time L r) = (k, r')" by fastforce
  let ?n = "nat (int k mod (int (length seg) - 1))"
  have n: "int ?n = int k mod (int (length seg) - 1)" "?n < length seg - 1"
    using assms(2) pos_mod_bound [of "int (length seg) - 1" "int k"] pos_mod_sign [of "int (length seg) - 1" "int k"] by linarith+
  obtain seg' p where sw: "swap_int (xs @ seg @ ys) (int (length xs + ?n)) (int (length xs + length seg) - 1) = Some (xs @ seg' @ p # ys)"
      and ms: "mset (seg' @ [p]) = mset seg"
    using swap_into_last [of ?n seg xs ys] n(2) less_le_trans [OF n(2) diff_le_self] by blast
  have len: "length seg = Suc (length seg')" using arg_cong [OF ms, of size] by simp
  obtain A B where part: "partition_arr (xs @ seg' @ p # ys) (int (length xs)) (int (length xs + length seg'))
      = Some (xs @ A @ p # B @ ys, int (length (xs @ A)))"
    and le: "\<forall>x \<in> set A. x \<le> p" and gt: "\<forall>x \<in> set B. p < x" and m: "mset (A @ B) = mset seg'"
    using partition_arr_spec [of xs seg' p ys] assms(1) len by auto
  have "0 \<le> int k mod int (length seg')" "int k mod int (length seg') < int (length seg')"
    using assms(2) len by simp_all
  then have "c_int (int (length xs) + int k mod int (length seg')) = Some (int (length xs) + int k mod int (length seg'))"
    using assms(1) len by (intro c_int_fits) simp_all
  then have "partition_r L (xs @ seg @ ys) (int (length xs)) (int (length xs + length seg) - 1) r
      = Some ((xs @ A @ p # B @ ys, int (length (xs @ A))), r')"
    using sw part n assms by (simp add: partition_r_def r len)
  moreover have "mset (A @ p # B) = mset seg" using m ms by simp
  ultimately show ?thesis using le gt by blast
qed

text \<open>Sorting the segment \<open>seg\<close> leaves the rest of the array alone.\<close>

lemma quickSort_segment:
  assumes "length (xs @ seg @ ys) < 2 ^ 31"
  shows "\<exists>r'. quickSort L (xs @ seg @ ys) (int (length xs)) (int (length xs + length seg) - 1) r = Some (xs @ sort seg @ ys, r')"
  using assms
proof (induction "length seg" arbitrary: xs seg ys r rule: less_induct)
  case less
  show ?case
  proof (cases "1 < length seg")
    case False
    then have "sort seg = seg" by (cases seg; cases "tl seg") auto
    then show ?thesis using False by (subst quickSort.simps) simp
  next
    case True
    obtain A p B r1 where part: "partition_r L (xs @ seg @ ys) (int (length xs)) (int (length xs + length seg) - 1) r
        = Some ((xs @ A @ p # B @ ys, int (length (xs @ A))), r1)"
      and le: "\<forall>x \<in> set A. x \<le> p" and gt: "\<forall>x \<in> set B. p < x" and ms: "mset (A @ p # B) = mset seg"
      using partition_r_spec [OF less.prems True, of L r] by (elim exE conjE) (rule that)
    have len: "length A + length B + 1 = length seg" using arg_cong [OF ms, of size] by simp
    obtain r2 where left: "quickSort L (xs @ A @ p # B @ ys) (int (length xs)) (int (length xs + length A) - 1) r1
        = Some (xs @ sort A @ p # B @ ys, r2)"
      using less.hyps [of A xs "p # B @ ys"] less.prems len by auto
    have ends: "int (length xs + length A) + 1 = int (length (xs @ sort A @ [p]))"
      "int (length xs + length seg) - 1 = int (length (xs @ sort A @ [p]) + length B) - 1"
      using len by simp_all
    obtain r3 where right: "quickSort L (xs @ sort A @ p # B @ ys) (int (length xs + length A) + 1) (int (length xs + length seg) - 1) r2
        = Some (xs @ sort A @ p # sort B @ ys, r3)"
      using less.hyps [of B "xs @ sort A @ [p]" ys r2] less.prems len unfolding ends by auto
    have "sorted (sort A @ p # sort B)" using le gt by (auto simp: sorted_append less_imp_le intro: order_trans)
    moreover have "mset (sort A @ p # sort B) = mset seg" using ms by simp
    ultimately have "sort seg = sort A @ p # sort B" by (intro properties_for_sort)
    then show ?thesis using part left right less.prems len True by (subst quickSort.simps) simp
  qed
qed

section \<open>Sorting\<close>

text \<open>
  C33 (sorting): on every segment of an array of fewer than \<open>2\<^sup>3\<^sup>1\<close> elements the routine returns
  with the segment sorted as by \<open>sort\<close> and the rest of the array untouched, whatever
  numbers \<^verbatim>\<open>rand\<close> gives; no access leaves the array and no arithmetic overflows.
\<close>

theorem quickSort_sorts:
  assumes "length (xs @ seg @ ys) < 2 ^ 31"
  shows "map_option fst (quickSort L (xs @ seg @ ys) (int (length xs)) (int (length xs + length seg) - 1) r)
    = Some (xs @ sort seg @ ys)"
  using quickSort_segment [OF assms, of L r] by auto

text \<open>
  Pivot: the random pivot is never the last element of the segment: of two elements the
  first is always the pivot.
\<close>

theorem pivot_never_last:
  assumes "partition_r L (xs @ [a, b] @ ys) (int (length xs)) (int (length xs) + 1) r = Some ((arr, k), r')"
    and "length (xs @ [a, b] @ ys) < 2 ^ 31"
  shows "arr ! nat k = a"
proof -
  have "swap_int (xs @ [a, b] @ ys) (int (length xs)) (int (length xs) + 1) = Some (xs @ [b, a] @ ys)"
    using swap_int_append [of "int (length xs)" xs "int (length xs) + 1" "[]" a b ys] by simp
  then have "partition_arr (xs @ [b, a] @ ys) (int (length xs)) (int (length xs) + 1) = Some (arr, k)"
    using assms by (auto simp: partition_r_def bind_eq_Some_conv split: prod.splits if_splits)
  then show ?thesis using partition_arr_spec [of xs "[b]" a ys] assms(2)
    by (auto simp: nth_append nat_add_distrib add.commute [of _ 1])
qed

text \<open>A generator that counts up.\<close>

definition count_libc :: "nat libc" where
  "count_libc = \<lparr>srand_time = (\<lambda>r. r), rand_next = (\<lambda>r. (r, r + 1))\<rparr>"

theorem quickSort_sorts_witness:
  "map_option fst (quickSort count_libc [9, 5, -3, 5, 0, 7] 1 4 2) = Some [9, -3, 0, 5, 5, 7]"
  using quickSort_sorts [of "[9]" "[5, -3, 5, 0]" "[7]" count_libc 2] by simp

theorem pivot_never_last_witness:
  "\<exists>arr k r'. partition_r count_libc [8, 4] 0 1 0 = Some ((arr, k), r') \<and> arr ! nat k = 8"
proof -
  obtain arr k r' where p: "partition_r count_libc [8, 4] 0 1 0 = Some ((arr, k), r')"
    using partition_r_spec [of "[]" "[8, 4]" "[]" count_libc 0] by auto
  then show ?thesis using pivot_never_last [of count_libc "[]" 8 4 "[]" 0 arr k r'] by simp
qed

end
